(* ===== verification/Pod_Prelude.thy ===== *)
theory Pod_Prelude
  imports Main "HOL-Library.Word"
begin

text \<open>
  Shared vocabulary of the development: the machine integers of the Rust sources, byte
  strings and their little-endian readings, the clock, I/O errors as values, and the
  generic list and modular-arithmetic lemmas the components use.

  Conventions. A Rust \<open>usize\<close> is a \<open>nat\<close> where the code only uses it as a length or an
  index. A panic (failed \<open>assert!\<close>, checked-arithmetic underflow, slice index out of range)
  is the value \<open>None\<close>; an \<open>Err\<close> is \<open>Inl\<close>. An \<open>Instant\<close> is a count of nanoseconds of the
  monotonic clock, so that truncating subtraction on \<open>nat\<close> is
  \<open>saturating_duration_since\<close>.
\<close>

section \<open>Types\<close>

type_synonym u8 = "8 word"
type_synonym u16 = "16 word"
type_synonym u32 = "32 word"
type_synonym u64 = "64 word"
type_synonym i16 = "16 word"
type_synonym bytes = "u8 list"
type_synonym instant = nat

named_theorems pod_defs \<open>definitions of pure operations that proofs unfold freely\<close>

definition from_millis :: "nat \<Rightarrow> nat" where
  "from_millis n = n * 1000000"

definition as_millis :: "nat \<Rightarrow> nat" where
  "as_millis d = d div 1000000"

lemma as_millis_from_millis [simp]: "as_millis (from_millis n) = n"
  by (simp add: as_millis_def from_millis_def)

lemma as_millis_ge_iff: "n \<le> as_millis d \<longleftrightarrow> from_millis n \<le> d"
  by (simp add: as_millis_def from_millis_def less_eq_div_iff_mult_less_eq)

section \<open>I/O errors\<close>

datatype ErrorKind =
    WouldBlockKind | TimedOutKind | InvalidDataKind | UnexpectedEofKind
  | ConnectionResetKind | BrokenPipeKind | InterruptedKind | InvalidInputKind | NotFoundKind | AlreadyExistsKind
  | OtherKind

text \<open>The message is the literal text of the source, up to the first formatted value or dash.\<close>

datatype io_error = IoError (kind: ErrorKind) (message: string)

definition transient_kind :: "ErrorKind \<Rightarrow> bool" where
  "transient_kind k \<longleftrightarrow> k = WouldBlockKind \<or> k = TimedOutKind"

section \<open>Little-endian integers\<close>

definition u16_from_le_bytes :: "u8 \<Rightarrow> u8 \<Rightarrow> u16" where
  "u16_from_le_bytes lo hi = of_nat (unat lo + 256 * unat hi)"

definition i16_to_le_bytes :: "i16 \<Rightarrow> bytes" where
  "i16_to_le_bytes s = [of_nat (unat s mod 256), of_nat (unat s div 256)]"

definition i16_from_le_bytes :: "u8 \<Rightarrow> u8 \<Rightarrow> i16" where
  "i16_from_le_bytes lo hi = of_nat (unat lo + 256 * unat hi)"

definition u32_from_le_bytes :: "bytes \<Rightarrow> u32" where
  "u32_from_le_bytes bs =
     of_nat (unat (bs ! 0) + 256 * unat (bs ! 1) + 65536 * unat (bs ! 2) + 16777216 * unat (bs ! 3))"

lemma unat_u8_less [simp]: "unat (x :: u8) < 256"
proof -
  have "unat x < 2 ^ LENGTH(8)" by (rule unsigned_less)
  then show ?thesis by simp
qed

lemma unat_u16_less [simp]: "unat (x :: u16) < 65536"
proof -
  have "unat x < 2 ^ LENGTH(16)" by (rule unsigned_less)
  then show ?thesis by simp
qed

lemma unat_u32_less: "unat (x :: u32) < 2 ^ 32"
proof -
  have "unat x < 2 ^ LENGTH(32)" by (rule unsigned_less)
  then show ?thesis by simp
qed

lemma unat_of_nat_u32: "unat (of_nat n :: u32) = n mod 2 ^ 32"
  by (simp add: unat_of_nat)

lemma unat_of_nat_u32_small: "n < 2 ^ 32 \<Longrightarrow> unat (of_nat n :: u32) = n"
  by (simp add: unat_of_nat)

lemma word_nat_cast_eq: "of_nat (unat x) = x"
  by simp

lemma unat_of_nat_u16_small: "n < 65536 \<Longrightarrow> unat (of_nat n :: u16) = n"
  by (simp add: unat_of_nat)

lemma unat_u16_from_le_bytes:
  "unat (u16_from_le_bytes lo hi) = unat lo + 256 * unat hi"
proof -
  have "unat lo + 256 * unat hi < 65536"
    using unat_u8_less [of lo] unat_u8_less [of hi] by linarith
  then show ?thesis unfolding u16_from_le_bytes_def by (rule unat_of_nat_u16_small)
qed

lemma i16_le_bytes_roundtrip [simp]:
  "i16_from_le_bytes (of_nat (unat s mod 256)) (of_nat (unat s div 256)) = s"
proof -
  have "unat s div 256 < 256" using unat_u16_less [of s] by linarith
  then have "unat (of_nat (unat s mod 256) :: u8) + 256 * unat (of_nat (unat s div 256) :: u8) = unat s"
    by (simp add: unat_of_nat)
  then show ?thesis by (simp add: i16_from_le_bytes_def)
qed

lemma i16_bytes_le_roundtrip [simp]:
  "i16_to_le_bytes (i16_from_le_bytes lo hi) = [lo, hi]"
proof -
  have lt: "unat lo + 256 * unat hi < 65536"
    using unat_u8_less [of lo] unat_u8_less [of hi] by linarith
  then have "unat (i16_from_le_bytes lo hi) = unat lo + 256 * unat hi"
    unfolding i16_from_le_bytes_def by (rule unat_of_nat_u16_small)
  moreover have "(unat lo + 256 * unat hi) mod 256 = unat lo"
    by simp
  moreover have "(unat lo + 256 * unat hi) div 256 = unat hi"
    by simp
  ultimately show ?thesis by (simp only: i16_to_le_bytes_def word_nat_cast_eq)
qed

lemma u8_to_u32_inject: "(ucast (x :: u8) :: u32) = ucast y \<longleftrightarrow> x = y"
proof
  assume "(ucast x :: u32) = ucast y"
  then have "(ucast (ucast x :: u32) :: u8) = ucast (ucast y :: u32)" by simp
  then show "x = y" by (transfer, simp)
qed simp

section \<open>Overwriting a slice\<close>

text \<open>\<open>dst[pos .. pos + xs.len()].copy_from_slice(xs)\<close>\<close>

definition splice_at :: "'a list \<Rightarrow> nat \<Rightarrow> 'a list \<Rightarrow> 'a list" where
  "splice_at buf pos xs = take pos buf @ xs @ drop (pos + length xs) buf"

lemma length_splice_at [simp]:
  "pos + length xs \<le> length buf \<Longrightarrow> length (splice_at buf pos xs) = length buf"
  by (simp add: splice_at_def)

lemma nth_splice_at:
  assumes "pos + length xs \<le> length buf" "k < length buf"
  shows "splice_at buf pos xs ! k =
    (if pos \<le> k \<and> k < pos + length xs then xs ! (k - pos) else buf ! k)"
  using assms by (auto simp: splice_at_def nth_append min_def)

lemma splice_at_Nil [simp]: "splice_at buf pos [] = buf"
  by (simp add: splice_at_def)

section \<open>Offsets in a ring\<close>

lemma int_ring_offset:
  fixes a b c :: nat
  assumes "0 < c"
  shows "int (((t + i) mod c + c - (t + u) mod c) mod c)
      = ((int t + int i) mod int c + int c - (int t + int u) mod int c) mod int c"
proof -
  have "(t + u) mod c \<le> (t + i) mod c + c"
    using assms by (simp add: less_imp_le_nat trans_le_add2)
  then show ?thesis by (simp only: zmod_int of_nat_diff of_nat_add)
qed

lemma int_mod_ring_diff:
  fixes a b c :: int
  shows "(a mod c + c - b mod c) mod c = (a - b) mod c"
proof -
  have "(a mod c + c - b mod c) mod c = ((a mod c - b mod c) + c) mod c"
    by (simp add: algebra_simps)
  also have "\<dots> = (a mod c - b mod c) mod c" by (rule mod_add_self2)
  also have "\<dots> = (a - b) mod c" by (rule mod_diff_eq)
  finally show ?thesis .
qed

lemma mod_add_offset_nat:
  fixes t :: nat
  assumes "u \<le> i" "i - u < c"
  shows "((t + i) mod c + c - (t + u) mod c) mod c = i - u"
proof -
  have c: "0 < c" using assms by simp
  have "int (((t + i) mod c + c - (t + u) mod c) mod c)
      = ((int t + int i) mod int c + int c - (int t + int u) mod int c) mod int c"
    using c by (rule int_ring_offset)
  also have "\<dots> = ((int t + int i) - (int t + int u)) mod int c"
    by (rule int_mod_ring_diff)
  also have "\<dots> = int (i - u)"
    using assms by (simp add: of_nat_diff)
  finally show ?thesis by linarith
qed

lemma mod_add_offset_nat_back:
  fixes t :: nat
  assumes "i < u" "u - i \<le> c"
  shows "((t + i) mod c + c - (t + u) mod c) mod c = (c - (u - i)) mod c"
proof -
  have c: "0 < c" using assms by simp
  have "int (((t + i) mod c + c - (t + u) mod c) mod c)
      = ((int t + int i) mod int c + int c - (int t + int u) mod int c) mod int c"
    using c by (rule int_ring_offset)
  also have "\<dots> = ((int t + int i) - (int t + int u)) mod int c"
    by (rule int_mod_ring_diff)
  also have "\<dots> = (int c - int (u - i)) mod int c"
    using assms by (simp add: of_nat_diff mod_simps minus_mod_self1)
  also have "\<dots> = int ((c - (u - i)) mod c)"
    by (simp only: of_nat_mod of_nat_diff [OF assms(2)])
  finally show ?thesis by linarith
qed

lemma unat_add_of_nat_mod:
  fixes t :: u32
  assumes "c dvd 2 ^ 32"
  shows "unat (t + of_nat i) mod c = (unat t + i) mod c"
proof -
  have "unat (t + of_nat i) = (unat t + i) mod 2 ^ 32"
    by (simp add: unat_word_ariths unat_of_nat mod_simps)
  then show ?thesis using assms by (simp add: mod_mod_cancel)
qed

end
