(* ===== verification/Playback_Ring.thy ===== *)
theory Playback_Ring
  imports Pod_Prelude
begin

text \<open>
  The inbound PCM ring of \<^verbatim>\<open>firmware/crates/audio-pipeline/src/playback.rs\<close>: one byte ring
  between the streamer thread (producer) and the DAC thread (consumer), every operation of
  which runs under one mutex and is therefore one atomic state transformer here.

  The indices \<open>head\<close> and \<open>tail\<close> are wrapping 32-bit byte counters as in the code; the
  ring capacity is the length of the backing storage, which no operation changes. An
  operation whose \<open>assert!\<close>, \<open>debug_assert!\<close> or checked subtraction would fail has the
  value \<open>None\<close>.

  The abstraction \<open>ring_contents\<close> is the queue of banked bytes. The lemmas show that
  writing appends to it, that a drained run is a prefix of it, that advancing drops from
  it, and that a reset drops exactly the bytes banked before it.
\<close>

section \<open>State\<close>

definition RING_EOA_MARK_CAP :: nat where
  "RING_EOA_MARK_CAP = 4"

definition WIRE_BYTES_PER_SAMPLE :: nat where
  "WIRE_BYTES_PER_SAMPLE = 2"

definition INBOUND_PCM_RING_BYTES :: nat where
  "INBOUND_PCM_RING_BYTES = 65536"

record EndOfAudioMark =
  mark_pos :: u32
  mark_generation :: u32

record RingState =
  rs_head :: u32
  rs_tail :: u32
  rs_generation :: u32
  rs_head_at_reset :: u32
  rs_buf :: bytes
  rs_marks :: "EndOfAudioMark list"
  rs_mark_overflow_warned :: bool

record DrainRun =
  run_n :: nat
  run_generation :: u32
  run_reached_end_of_audio :: bool

definition capacity :: "RingState \<Rightarrow> nat" where
  "capacity st = length (rs_buf st)"

definition with_storage :: "bytes \<Rightarrow> RingState option" where
  "with_storage storage =
     (if length storage = 0 \<or> length storage mod WIRE_BYTES_PER_SAMPLE \<noteq> 0 then None
      else Some \<lparr>rs_head = 0, rs_tail = 0, rs_generation = 0, rs_head_at_reset = 0,
                 rs_buf = storage, rs_marks = [], rs_mark_overflow_warned = False\<rparr>)"

definition InboundPcmRing_new :: "nat \<Rightarrow> RingState option" where
  "InboundPcmRing_new cap = with_storage (replicate cap 0)"

section \<open>Mark FIFO\<close>

definition push_mark :: "RingState \<Rightarrow> bool \<times> RingState" where
  "push_mark st =
     (let m = \<lparr>mark_pos = rs_head st, mark_generation = rs_generation st\<rparr>
      in if length (rs_marks st) < RING_EOA_MARK_CAP
         then (True, st\<lparr>rs_marks := rs_marks st @ [m]\<rparr>)
         else (False, st\<lparr>rs_marks := tl (rs_marks st) @ [m]\<rparr>))"

definition peek_mark_pos :: "RingState \<Rightarrow> u32 option" where
  "peek_mark_pos st = (case rs_marks st of [] \<Rightarrow> None | m # _ \<Rightarrow> Some (mark_pos m))"

definition pop_mark_if_at :: "u32 \<Rightarrow> RingState \<Rightarrow> bool \<times> RingState" where
  "pop_mark_if_at pos st =
     (case rs_marks st of
        [] \<Rightarrow> (False, st)
      | m # ms \<Rightarrow>
          if mark_pos m = pos
          then (True, st\<lparr>rs_marks := ms, rs_mark_overflow_warned := False\<rparr>)
          else (False, st))"

text \<open>The rotation loop of \<open>discard_dead_generation_marks\<close>: \<open>n\<close> is the number of passes left.\<close>

fun rotate_live_marks :: "nat \<Rightarrow> u32 \<Rightarrow> EndOfAudioMark list \<Rightarrow> EndOfAudioMark list" where
  "rotate_live_marks 0 g ms = ms"
| "rotate_live_marks (Suc n) g [] = []"
| "rotate_live_marks (Suc n) g (m # ms) =
     rotate_live_marks n g (if mark_generation m = g then ms @ [m] else ms)"

definition discard_dead_generation_marks :: "RingState \<Rightarrow> RingState" where
  "discard_dead_generation_marks st =
     st\<lparr>rs_marks := rotate_live_marks (length (rs_marks st)) (rs_generation st) (rs_marks st)\<rparr>"

section \<open>Producer\<close>

definition ring_used :: "RingState \<Rightarrow> nat" where
  "ring_used st = unat (rs_head st - rs_tail st)"

definition free_total :: "RingState \<Rightarrow> nat option" where
  "free_total st = (if ring_used st \<le> capacity st then Some (capacity st - ring_used st) else None)"

definition consumed :: "RingState \<Rightarrow> u32" where
  "consumed st = rs_tail st"

text \<open>
  \<open>fill offset n\<close> is the content the caller's closure writes into a destination slice of
  \<open>n\<close> bytes that starts \<open>offset\<close> bytes into the logical frame.
\<close>

definition ring_write :: "nat \<Rightarrow> (nat \<Rightarrow> nat \<Rightarrow> bytes) \<Rightarrow> RingState \<Rightarrow> (bool \<times> RingState) option" where
  "ring_write need fill st =
     (let cap = capacity st; used = ring_used st in
      if cap < need \<or> cap < used then None
      else if cap - used < need then Some (False, st)
      else
        let start = unat (rs_head st) mod cap;
            first = min need (cap - start);
            buf1 = splice_at (rs_buf st) start (fill 0 first);
            buf2 = (if first < need then splice_at buf1 0 (fill first (need - first)) else buf1)
        in Some (True, st\<lparr>rs_buf := buf2, rs_head := rs_head st + of_nat need\<rparr>))"

definition ring_reset :: "RingState \<Rightarrow> RingState" where
  "ring_reset st = st\<lparr>rs_generation := rs_generation st + 1, rs_head_at_reset := rs_head st\<rparr>"

text \<open>The boolean result says whether the overflow warning is emitted.\<close>

definition mark_end_of_audio :: "RingState \<Rightarrow> bool \<times> RingState" where
  "mark_end_of_audio st =
     (let (pushed, st') = push_mark st in
      if \<not> pushed \<and> \<not> rs_mark_overflow_warned st'
      then (True, st'\<lparr>rs_mark_overflow_warned := True\<rparr>)
      else (False, st'))"

section \<open>Consumer\<close>

definition available :: "RingState \<Rightarrow> nat" where
  "available st = ring_used st"

definition copy_run_into :: "nat \<Rightarrow> bytes \<Rightarrow> RingState \<Rightarrow> DrainRun \<times> bytes" where
  "copy_run_into max_run tx_buf st =
     (let cap = capacity st;
          start = unat (rs_tail st) mod cap;
          contiguous = cap - start;
          base_n = min (min (min (ring_used st) max_run) contiguous) (length tx_buf);
          (n, reached) =
            (case peek_mark_pos st of
               Some mark \<Rightarrow>
                 (let dist = unat (mark - rs_tail st) in
                  if 0 < dist \<and> dist \<le> base_n then (dist, True) else (base_n, False))
             | None \<Rightarrow> (base_n, False))
      in (\<lparr>run_n = n, run_generation = rs_generation st, run_reached_end_of_audio = reached\<rparr>,
          splice_at tx_buf 0 (take n (drop start (rs_buf st)))))"

definition take_mark_at_tail :: "RingState \<Rightarrow> bool \<times> RingState" where
  "take_mark_at_tail st = pop_mark_if_at (rs_tail st) st"

definition advance :: "nat \<Rightarrow> RingState \<Rightarrow> (bool \<times> RingState) option" where
  "advance n st =
     (if (of_nat n :: u32) \<le> rs_head st - rs_tail st
      then (let st' = st\<lparr>rs_tail := rs_tail st + of_nat n\<rparr>
            in Some (pop_mark_if_at (rs_tail st') st'))
      else None)"

definition apply_reset :: "RingState \<Rightarrow> u32 \<times> RingState" where
  "apply_reset st =
     (let st' = discard_dead_generation_marks st
      in (rs_generation st', st'\<lparr>rs_tail := rs_head_at_reset st'\<rparr>))"

section \<open>Invariant and abstraction\<close>

definition ring_ok :: "RingState \<Rightarrow> bool" where
  "ring_ok st \<longleftrightarrow>
     0 < capacity st \<and> even (capacity st) \<and> capacity st dvd 2 ^ 32 \<and> capacity st < 2 ^ 32 \<and>
     ring_used st \<le> capacity st \<and> length (rs_marks st) \<le> RING_EOA_MARK_CAP"

definition ring_contents :: "RingState \<Rightarrow> bytes" where
  "ring_contents st =
     map (\<lambda>i. rs_buf st ! ((unat (rs_tail st) + i) mod capacity st)) [0..<ring_used st]"

definition fill_ok :: "nat \<Rightarrow> (nat \<Rightarrow> nat \<Rightarrow> bytes) \<Rightarrow> bytes \<Rightarrow> bool" where
  "fill_ok need fill data \<longleftrightarrow>
     length data = need \<and> (\<forall>off n. off + n \<le> need \<longrightarrow> fill off n = take n (drop off data))"

lemma fill_ok_slice: "fill_ok (length data) (\<lambda>off n. take n (drop off data)) data"
  by (simp add: fill_ok_def)

lemma length_ring_contents [simp]: "length (ring_contents st) = ring_used st"
  by (simp add: ring_contents_def)

section \<open>Marks\<close>

lemma rotate_live_marks_append:
  "rotate_live_marks (length xs) g (xs @ ys) = ys @ filter (\<lambda>m. mark_generation m = g) xs"
  by (induction xs arbitrary: ys) auto

lemma discard_dead_generation_marks_filter:
  "rs_marks (discard_dead_generation_marks st) =
     filter (\<lambda>m. mark_generation m = rs_generation st) (rs_marks st)"
  using rotate_live_marks_append [of "rs_marks st" _ "[]"]
  by (simp add: discard_dead_generation_marks_def)

lemma discard_dead_generation_marks_fields [simp]:
  "rs_head (discard_dead_generation_marks st) = rs_head st"
  "rs_tail (discard_dead_generation_marks st) = rs_tail st"
  "rs_buf (discard_dead_generation_marks st) = rs_buf st"
  "rs_generation (discard_dead_generation_marks st) = rs_generation st"
  "rs_head_at_reset (discard_dead_generation_marks st) = rs_head_at_reset st"
  by (simp_all add: discard_dead_generation_marks_def)

lemma pop_mark_if_at_fields [simp]:
  "rs_head (snd (pop_mark_if_at p st)) = rs_head st"
  "rs_tail (snd (pop_mark_if_at p st)) = rs_tail st"
  "rs_buf (snd (pop_mark_if_at p st)) = rs_buf st"
  "rs_generation (snd (pop_mark_if_at p st)) = rs_generation st"
  "rs_head_at_reset (snd (pop_mark_if_at p st)) = rs_head_at_reset st"
  "length (rs_marks (snd (pop_mark_if_at p st))) \<le> length (rs_marks st)"
  by (auto simp: pop_mark_if_at_def split: list.splits)

lemma mark_end_of_audio_fields [simp]:
  "rs_head (snd (mark_end_of_audio st)) = rs_head st"
  "rs_tail (snd (mark_end_of_audio st)) = rs_tail st"
  "rs_buf (snd (mark_end_of_audio st)) = rs_buf st"
  "rs_generation (snd (mark_end_of_audio st)) = rs_generation st"
  "rs_head_at_reset (snd (mark_end_of_audio st)) = rs_head_at_reset st"
  by (auto simp: mark_end_of_audio_def push_mark_def Let_def)

lemma length_marks_mark_end_of_audio:
  "length (rs_marks st) \<le> RING_EOA_MARK_CAP \<Longrightarrow>
     length (rs_marks (snd (mark_end_of_audio st))) \<le> RING_EOA_MARK_CAP"
  by (auto simp: mark_end_of_audio_def push_mark_def Let_def RING_EOA_MARK_CAP_def)

section \<open>The ring as a queue\<close>

lemma ring_ok_used [simp]: "ring_ok st \<Longrightarrow> ring_used st \<le> capacity st"
  and ring_ok_cap_pos [simp]: "ring_ok st \<Longrightarrow> 0 < capacity st"
  and ring_ok_cap_dvd: "ring_ok st \<Longrightarrow> capacity st dvd 2 ^ 32"
  and ring_ok_cap_lt: "ring_ok st \<Longrightarrow> capacity st < 2 ^ 32"
  by (simp_all add: ring_ok_def)

lemma head_slot:
  assumes "ring_ok st"
  shows "unat (rs_head st) mod capacity st = (unat (rs_tail st) + ring_used st) mod capacity st"
proof -
  have "rs_head st = rs_tail st + of_nat (ring_used st)"
    by (simp add: ring_used_def)
  then show ?thesis
    using unat_add_of_nat_mod [OF ring_ok_cap_dvd [OF assms], of "rs_tail st" "ring_used st"]
    by simp
qed

text \<open>A wrapped write seen slot by slot.\<close>

lemma nth_wrapped_splice:
  assumes s: "s < length buf" and d: "length data \<le> length buf" and k: "k < length buf"
    and f: "f = min (length data) (length buf - s)"
  shows "splice_at (splice_at buf s (take f data)) 0 (drop f data) ! k =
     (let o' = (k + length buf - s) mod length buf
      in if o' < length data then data ! o' else buf ! k)"
proof -
  have o': "(k + length buf - s) mod length buf = (if s \<le> k then k - s else k + length buf - s)"
  proof (cases "s \<le> k")
    case True
    then have eq: "k + length buf - s = (k - s) + length buf" by simp
    show ?thesis unfolding eq mod_add_self2 using True k by simp
  next
    case False
    then show ?thesis using k by simp
  qed
  have len1: "length (splice_at buf s (take f data)) = length buf"
    using s f by (intro length_splice_at) simp
  have 1: "splice_at buf s (take f data) ! k =
    (if s \<le> k \<and> k < s + f then data ! (k - s) else buf ! k)"
  proof -
    have "f \<le> length data" "s + f \<le> length buf" using s f by auto
    then have "length (take f data) = f" "s + length (take f data) \<le> length buf" by auto
    then show ?thesis using k by (auto simp: nth_splice_at)
  qed
  have 2: "splice_at (splice_at buf s (take f data)) 0 (drop f data) ! k =
    (if k < length data - f then data ! (f + k) else splice_at buf s (take f data) ! k)"
  proof -
    have "f \<le> length data" "length data - f \<le> length buf" using f d by auto
    then show ?thesis using k len1 by (subst nth_splice_at) auto
  qed
  show ?thesis
  proof (cases "s \<le> k")
    case True
    then have "\<not> k < length data - f" and "k < s + f \<longleftrightarrow> k - s < length data"
      using f d k s by (auto simp: min_def split: if_splits)
    then show ?thesis using True by (simp add: 1 2 o')
  next
    case False
    then have "k < length data - f \<longleftrightarrow> k + length buf - s < length data"
      and "k < length data - f \<Longrightarrow> f + k = k + length buf - s"
      using f d k s by (auto simp: min_def split: if_splits)
    then show ?thesis using False by (simp add: 1 2 o')
  qed
qed

lemma ring_write_full:
  assumes "ring_ok st" "need \<le> capacity st" "capacity st < ring_used st + need"
  shows "ring_write need fill st = Some (False, st)"
proof -
  have "\<not> (capacity st < need \<or> capacity st < ring_used st)" "capacity st - ring_used st < need"
    using assms ring_ok_used [OF assms(1)] by linarith+
  then show ?thesis by (simp only: ring_write_def Let_def if_False if_True)
qed

lemma ring_write_cases:
  assumes "ring_ok st" "fill_ok need fill data" "ring_used st + need \<le> capacity st"
  shows "ring_write need fill st =
    Some (True, st\<lparr>rs_buf := splice_at (splice_at (rs_buf st) (unat (rs_head st) mod capacity st)
              (take (min need (capacity st - unat (rs_head st) mod capacity st)) data)) 0
              (drop (min need (capacity st - unat (rs_head st) mod capacity st)) data),
            rs_head := rs_head st + of_nat need\<rparr>)"
proof -
  let ?start = "unat (rs_head st) mod capacity st"
  let ?first = "min need (capacity st - ?start)"
  have f0: "fill 0 ?first = take ?first data"
    using assms(2) by (auto simp: fill_ok_def)
  have f1: "fill ?first (need - ?first) = drop ?first data"
    using assms(2) by (auto simp: fill_ok_def)
  have nofill: "\<not> ?first < need \<Longrightarrow> drop ?first data = []"
    using assms(2) by (auto simp: fill_ok_def)
  have "\<not> (capacity st < need \<or> capacity st < ring_used st)" "\<not> capacity st - ring_used st < need"
    using assms(1,3) by auto
  then have "ring_write need fill st =
    Some (True, st\<lparr>rs_buf := (if ?first < need
        then splice_at (splice_at (rs_buf st) ?start (take ?first data)) 0 (drop ?first data)
        else splice_at (rs_buf st) ?start (take ?first data)),
      rs_head := rs_head st + of_nat need\<rparr>)"
    unfolding ring_write_def Let_def f0 f1 by (simp only: if_False)
  moreover have "(if ?first < need
        then splice_at (splice_at (rs_buf st) ?start (take ?first data)) 0 (drop ?first data)
        else splice_at (rs_buf st) ?start (take ?first data))
      = splice_at (splice_at (rs_buf st) ?start (take ?first data)) 0 (drop ?first data)"
    using nofill by (metis splice_at_Nil)
  ultimately show ?thesis by (simp only:)
qed

lemma ring_used_add_head:
  assumes "ring_used st + n < 2 ^ 32"
  shows "unat (rs_head st + of_nat n - rs_tail st) = ring_used st + n"
proof -
  have "rs_head st + of_nat n - rs_tail st = of_nat (ring_used st + n)"
    by (simp add: ring_used_def)
  then show ?thesis using assms by (simp only: unat_of_nat_u32_small)
qed

lemma ring_write_spec:
  assumes ok: "ring_ok st" and fl: "fill_ok need fill data" and room: "ring_used st + need \<le> capacity st"
  obtains st' where "ring_write need fill st = Some (True, st')" "ring_ok st'"
    "ring_contents st' = ring_contents st @ data" "rs_tail st' = rs_tail st"
    "rs_head st' = rs_head st + of_nat need" "rs_head_at_reset st' = rs_head_at_reset st"
    "rs_generation st' = rs_generation st" "rs_marks st' = rs_marks st" "capacity st' = capacity st"
    "ring_used st' = ring_used st + need"
proof -
  let ?c = "capacity st" and ?s = "unat (rs_head st) mod capacity st"
  define f where "f = min need (?c - ?s)"
  define st' where "st' = st\<lparr>rs_buf := splice_at (splice_at (rs_buf st) ?s (take f data)) 0 (drop f data),
            rs_head := rs_head st + of_nat need\<rparr>"
  have ln: "length data = need" using fl by (simp add: fill_ok_def)
  have s: "?s < length (rs_buf st)" using ok by (simp add: capacity_def [symmetric])
  have lb: "length (rs_buf st') = length (rs_buf st)"
    using s ln room by (simp add: st'_def f_def capacity_def)
  then have cap: "capacity st' = ?c" by (simp add: capacity_def)
  have used: "ring_used st' = ring_used st + need"
  proof -
    have "ring_used st' = unat (rs_head st + of_nat need - rs_tail st)"
      by (simp add: ring_used_def st'_def)
    then show ?thesis using ring_used_add_head [of st need] ring_ok_cap_lt [OF ok] room by simp
  qed
  have tl': "rs_tail st' = rs_tail st" by (simp add: st'_def)
  have ok': "ring_ok st'"
    using ok room unfolding ring_ok_def cap used by (simp add: st'_def)
  have cont: "ring_contents st' = ring_contents st @ data"
  proof (rule nth_equalityI)
    show "length (ring_contents st') = length (ring_contents st @ data)"
      by (simp add: used ln)
  next
    fix i assume "i < length (ring_contents st')"
    then have i: "i < ring_used st + need" by (simp add: used)
    let ?k = "(unat (rs_tail st) + i) mod ?c"
    have k: "?k < length (rs_buf st)" using ok by (simp add: capacity_def [symmetric])
    have "ring_contents st' ! i = rs_buf st' ! ?k"
      using i by (simp add: ring_contents_def used cap tl')
    also have "\<dots> = (let o' = (?k + ?c - ?s) mod ?c in if o' < need then data ! o' else rs_buf st ! ?k)"
      using nth_wrapped_splice [OF s _ k, of data f] ln room
      by (simp add: st'_def f_def capacity_def [symmetric])
    also have "\<dots> = (ring_contents st @ data) ! i"
    proof (cases "ring_used st \<le> i")
      case True
      then have "(?k + ?c - ?s) mod ?c = i - ring_used st"
        unfolding head_slot [OF ok] using i room by (intro mod_add_offset_nat) auto
      then show ?thesis using True i by (simp add: nth_append Let_def less_diff_conv2)
    next
      case False
      then have "(?k + ?c - ?s) mod ?c = (?c - (ring_used st - i)) mod ?c"
        unfolding head_slot [OF ok] using ring_ok_used [OF ok] by (intro mod_add_offset_nat_back) auto
      then have "\<not> (?k + ?c - ?s) mod ?c < need"
        using False room ring_ok_cap_pos [OF ok] by simp
      then show ?thesis using False by (simp add: nth_append ring_contents_def)
    qed
    finally show "ring_contents st' ! i = (ring_contents st @ data) ! i" .
  qed
  have "ring_write need fill st = Some (True, st')"
    using ring_write_cases [OF ok fl room] by (simp add: st'_def f_def)
  then show ?thesis
    by (rule that) (use ok' cont cap used in \<open>simp_all add: st'_def\<close>)
qed

lemma take_ring_contents:
  assumes ok: "ring_ok st" and n: "n \<le> ring_used st"
    and w: "unat (rs_tail st) mod capacity st + n \<le> capacity st"
  shows "take n (drop (unat (rs_tail st) mod capacity st) (rs_buf st)) = take n (ring_contents st)"
proof (rule nth_equalityI)
  show "length (take n (drop (unat (rs_tail st) mod capacity st) (rs_buf st)))
      = length (take n (ring_contents st))"
    using n w by (simp add: capacity_def)
next
  let ?s = "unat (rs_tail st) mod capacity st"
  fix i assume "i < length (take n (drop ?s (rs_buf st)))"
  then have i: "i < n" by simp
  have "(unat (rs_tail st) + i) mod capacity st = (?s + i) mod capacity st"
    by (simp add: mod_simps)
  also have "\<dots> = ?s + i" using i w by simp
  finally have "ring_contents st ! i = rs_buf st ! (?s + i)"
    using i n by (simp add: ring_contents_def)
  moreover have "?s \<le> length (rs_buf st)" using w by (simp add: capacity_def)
  ultimately show "take n (drop ?s (rs_buf st)) ! i = take n (ring_contents st) ! i"
    using i by simp
qed

text \<open>The natural length of a run, before a mark shortens it.\<close>

definition base_run :: "nat \<Rightarrow> nat \<Rightarrow> RingState \<Rightarrow> nat" where
  "base_run max_run len st =
     min (min (min (ring_used st) max_run) (capacity st - unat (rs_tail st) mod capacity st)) len"

lemma base_run_pos:
  assumes "ring_ok st" "0 < ring_used st" "0 < max_run" "0 < len"
  shows "0 < base_run max_run len st"
  using assms ring_ok_cap_pos [OF assms(1)] by (simp add: base_run_def)

lemma copy_run_into_n:
  "run_n (fst (copy_run_into m tx st)) =
     (case peek_mark_pos st of
        None \<Rightarrow> base_run m (length tx) st
      | Some p \<Rightarrow> (if 0 < unat (p - rs_tail st) \<and> unat (p - rs_tail st) \<le> base_run m (length tx) st
                  then unat (p - rs_tail st) else base_run m (length tx) st))"
  by (simp add: copy_run_into_def base_run_def Let_def split: option.split)

lemma copy_run_into_fields:
  "run_generation (fst (copy_run_into m tx st)) = rs_generation st"
  "run_reached_end_of_audio (fst (copy_run_into m tx st)) \<longleftrightarrow>
     (\<exists>p. peek_mark_pos st = Some p \<and> 0 < unat (p - rs_tail st) \<and>
          unat (p - rs_tail st) \<le> base_run m (length tx) st)"
  by (simp_all add: copy_run_into_def base_run_def Let_def split: option.split)

lemma copy_run_into_n_le:
  "run_n (fst (copy_run_into m tx st)) \<le> base_run m (length tx) st"
  by (simp add: copy_run_into_n split: option.split)

lemma copy_run_into_n_bounds:
  assumes "run_n (fst (copy_run_into m tx st)) = n"
  shows "n \<le> ring_used st" "n \<le> m" "n \<le> length tx"
    "n \<le> capacity st - unat (rs_tail st) mod capacity st"
  using assms copy_run_into_n_le [of m tx st] by (simp_all add: base_run_def)

lemma copy_run_into_pos:
  assumes "ring_ok st" "0 < ring_used st" "0 < m" "0 < length tx"
  shows "0 < run_n (fst (copy_run_into m tx st))"
  using base_run_pos [OF assms] by (simp add: copy_run_into_n split: option.split)

lemma copy_run_into_bytes:
  assumes ok: "ring_ok st" and n: "run_n (fst (copy_run_into m tx st)) = n"
  shows "take n (snd (copy_run_into m tx st)) = take n (ring_contents st)"
    and "drop n (snd (copy_run_into m tx st)) = drop n tx"
    and "length (snd (copy_run_into m tx st)) = length tx"
proof -
  let ?s = "unat (rs_tail st) mod capacity st"
  note b = copy_run_into_n_bounds [OF n]
  have s: "?s < capacity st" using ok by simp
  have tx: "snd (copy_run_into m tx st) = splice_at tx 0 (take n (drop ?s (rs_buf st)))"
    using n by (simp add: copy_run_into_def Let_def split: prod.splits option.splits)
  have run: "take n (drop ?s (rs_buf st)) = take n (ring_contents st)"
    using b s by (intro take_ring_contents [OF ok]) auto
  then show "take n (snd (copy_run_into m tx st)) = take n (ring_contents st)"
    and "drop n (snd (copy_run_into m tx st)) = drop n tx"
    and "length (snd (copy_run_into m tx st)) = length tx"
    using b by (simp_all add: tx run splice_at_def)
qed

lemma unat_sub_of_nat:
  fixes x :: u32
  assumes "n \<le> unat x"
  shows "unat (x - of_nat n) = unat x - n"
proof -
  have "n < 2 ^ 32" using assms unat_u32_less [of x] by linarith
  then have "unat (of_nat n :: u32) = n" by (rule unat_of_nat_u32_small)
  then show ?thesis using assms by (simp add: unat_sub word_le_nat_alt)
qed

lemma drop_ring_contents:
  assumes ok: "ring_ok st" and n: "n \<le> ring_used st"
    and st': "rs_tail st' = rs_tail st + of_nat n" "rs_head st' = rs_head st" "rs_buf st' = rs_buf st"
  shows "ring_used st' = ring_used st - n" "ring_contents st' = drop n (ring_contents st)"
proof -
  have "rs_head st' - rs_tail st' = (rs_head st - rs_tail st) - of_nat n"
    by (simp add: st')
  then show used: "ring_used st' = ring_used st - n"
    using n unat_sub_of_nat [of n "rs_head st - rs_tail st"] by (simp only: ring_used_def)
  have cap: "capacity st' = capacity st" by (simp add: capacity_def st')
  have slot: "(unat (rs_tail st') + i) mod capacity st = (unat (rs_tail st) + (n + i)) mod capacity st" for i
  proof -
    have "(unat (rs_tail st') + i) mod capacity st = (unat (rs_tail st') mod capacity st + i) mod capacity st"
      by (simp add: mod_simps)
    also have "\<dots> = ((unat (rs_tail st) + n) mod capacity st + i) mod capacity st"
      using unat_add_of_nat_mod [OF ring_ok_cap_dvd [OF ok], of "rs_tail st" n] by (simp only: st'(1))
    finally show ?thesis by (simp add: mod_simps add.assoc)
  qed
  show "ring_contents st' = drop n (ring_contents st)"
  proof (rule nth_equalityI)
    fix i assume "i < length (ring_contents st')"
    then have "n + i < ring_used st" "i < ring_used st - n" by (simp_all add: used)
    then show "ring_contents st' ! i = drop n (ring_contents st) ! i"
      by (simp add: ring_contents_def used cap st'(3) slot)
  qed (simp add: used)
qed

lemma advance_Some_iff:
  assumes "n < 2 ^ 32"
  shows "advance n st \<noteq> None \<longleftrightarrow> n \<le> ring_used st"
  using assms unat_of_nat_u32_small [OF assms]
  by (simp add: advance_def ring_used_def word_le_nat_alt Let_def)

lemma advance_spec:
  assumes ok: "ring_ok st" and n: "n \<le> ring_used st"
  obtains b st' where "advance n st = Some (b, st')" "ring_ok st'"
    "ring_contents st' = drop n (ring_contents st)" "ring_used st' = ring_used st - n"
    "rs_tail st' = rs_tail st + of_nat n" "rs_head st' = rs_head st"
    "rs_head_at_reset st' = rs_head_at_reset st" "rs_generation st' = rs_generation st"
    "capacity st' = capacity st"
proof -
  define st1 where "st1 = st\<lparr>rs_tail := rs_tail st + of_nat n\<rparr>"
  define st' where "st' = snd (pop_mark_if_at (rs_tail st1) st1)"
  have n32: "n < 2 ^ 32" using n ring_ok_used [OF ok] ring_ok_cap_lt [OF ok] by linarith
  have fields: "rs_tail st' = rs_tail st + of_nat n" "rs_head st' = rs_head st"
    "rs_buf st' = rs_buf st" "rs_head_at_reset st' = rs_head_at_reset st"
    "rs_generation st' = rs_generation st" "length (rs_marks st') \<le> length (rs_marks st)"
    using pop_mark_if_at_fields(6) [of "rs_tail st1" st1] by (simp_all add: st'_def st1_def)
  note d = drop_ring_contents [OF ok n fields(1-3)]
  have cap: "capacity st' = capacity st" by (simp add: capacity_def fields)
  have ok': "ring_ok st'"
    using ok fields(6) unfolding ring_ok_def d cap by linarith
  have "(of_nat n :: u32) \<le> rs_head st - rs_tail st"
    using n unat_of_nat_u32_small [OF n32] by (simp add: word_le_nat_alt ring_used_def)
  then have "advance n st = Some (fst (pop_mark_if_at (rs_tail st1) st1), st')"
    by (simp add: advance_def Let_def st1_def st'_def)
  then show ?thesis
    by (rule that) (use ok' d fields cap in simp_all)
qed

text \<open>A run that ends on a mark is reported when the consumer advances past it.\<close>

lemma copy_advance_mark:
  assumes "copy_run_into m tx st = (run, tx')" "advance (run_n run) st = Some (b, st')"
  shows "run_reached_end_of_audio run \<longrightarrow> b"
proof
  assume "run_reached_end_of_audio run"
  then obtain p where p: "peek_mark_pos st = Some p" "run_n run = unat (p - rs_tail st)"
    using assms(1) by (auto simp: copy_run_into_def Let_def split: option.splits if_splits)
  then have "rs_tail st + of_nat (run_n run) = p" by simp
  then show b using assms(2) p(1)
    by (auto simp: advance_def Let_def peek_mark_pos_def pop_mark_if_at_def split: if_splits list.splits)
qed

lemma apply_reset_spec:
  assumes ok: "ring_ok st" and r: "unat (rs_head_at_reset st - rs_tail st) \<le> ring_used st"
  shows "ring_ok (snd (apply_reset st))"
    "ring_contents (snd (apply_reset st)) =
       drop (unat (rs_head_at_reset st - rs_tail st)) (ring_contents st)"
    "rs_tail (snd (apply_reset st)) = rs_head_at_reset st"
    "rs_head (snd (apply_reset st)) = rs_head st"
    "fst (apply_reset st) = rs_generation st" "rs_generation (snd (apply_reset st)) = rs_generation st"
    "rs_head_at_reset (snd (apply_reset st)) = rs_head_at_reset st"
    "rs_marks (snd (apply_reset st)) =
       filter (\<lambda>m. mark_generation m = rs_generation st) (rs_marks st)"
proof -
  let ?st' = "snd (apply_reset st)"
  have t: "rs_tail ?st' = rs_tail st + of_nat (unat (rs_head_at_reset st - rs_tail st))"
    by (simp add: apply_reset_def Let_def)
  have h: "rs_head ?st' = rs_head st" and bf: "rs_buf ?st' = rs_buf st"
    by (simp_all add: apply_reset_def Let_def)
  note d = drop_ring_contents [OF ok r t h bf]
  show m: "rs_marks ?st' = filter (\<lambda>m. mark_generation m = rs_generation st) (rs_marks st)"
    by (simp add: apply_reset_def Let_def discard_dead_generation_marks_filter)
  show "ring_contents ?st' = drop (unat (rs_head_at_reset st - rs_tail st)) (ring_contents st)"
    by (rule d(2))
  have cap: "capacity ?st' = capacity st" by (simp add: capacity_def bf)
  have "length (filter (\<lambda>m. mark_generation m = rs_generation st) (rs_marks st)) \<le> length (rs_marks st)"
    by (rule length_filter_le)
  then show "ring_ok ?st'"
    using ok unfolding ring_ok_def d(1) cap m by linarith
qed (simp_all add: apply_reset_def Let_def)

lemma ring_reset_fields [simp]:
  "rs_head (ring_reset st) = rs_head st" "rs_tail (ring_reset st) = rs_tail st"
  "rs_buf (ring_reset st) = rs_buf st" "rs_marks (ring_reset st) = rs_marks st"
  "rs_head_at_reset (ring_reset st) = rs_head st"
  "rs_generation (ring_reset st) = rs_generation st + 1"
  by (simp_all add: ring_reset_def)

text \<open>Operations that touch neither the indices nor the storage keep the queue.\<close>

lemma ring_same_queue:
  assumes "rs_head st' = rs_head st" "rs_tail st' = rs_tail st" "rs_buf st' = rs_buf st"
  shows "capacity st' = capacity st" "ring_used st' = ring_used st" "ring_contents st' = ring_contents st"
  using assms by (simp_all add: capacity_def ring_used_def ring_contents_def)

lemma ring_ok_same_queue:
  assumes "ring_ok st" "rs_head st' = rs_head st" "rs_tail st' = rs_tail st" "rs_buf st' = rs_buf st"
    "length (rs_marks st') \<le> RING_EOA_MARK_CAP"
  shows "ring_ok st'"
  using assms(1,5) unfolding ring_ok_def ring_same_queue [OF assms(2-4)] by simp

lemma ring_ok_marks: "ring_ok st \<Longrightarrow> length (rs_marks st) \<le> RING_EOA_MARK_CAP"
  by (simp only: ring_ok_def)

lemma ring_ok_reset:
  assumes "ring_ok st"
  shows "ring_ok (ring_reset st)"
  by (rule ring_ok_same_queue [OF assms]) (simp_all add: ring_ok_marks [OF assms])

lemma ring_ok_mark:
  assumes "ring_ok st"
  shows "ring_ok (snd (mark_end_of_audio st))"
  by (rule ring_ok_same_queue [OF assms])
     (simp_all add: length_marks_mark_end_of_audio [OF ring_ok_marks [OF assms]])

lemma take_mark_at_tail_fields [simp]:
  "rs_head (snd (take_mark_at_tail st)) = rs_head st"
  "rs_tail (snd (take_mark_at_tail st)) = rs_tail st"
  "rs_buf (snd (take_mark_at_tail st)) = rs_buf st"
  "rs_generation (snd (take_mark_at_tail st)) = rs_generation st"
  "rs_head_at_reset (snd (take_mark_at_tail st)) = rs_head_at_reset st"
  by (simp_all add: take_mark_at_tail_def)

lemma ring_ok_take_mark:
  assumes "ring_ok st"
  shows "ring_ok (snd (take_mark_at_tail st))"
proof (rule ring_ok_same_queue [OF assms])
  show "length (rs_marks (snd (take_mark_at_tail st))) \<le> RING_EOA_MARK_CAP"
    using ring_ok_marks [OF assms] pop_mark_if_at_fields(6) [of "rs_tail st" st]
    unfolding take_mark_at_tail_def by linarith
qed simp_all

lemma InboundPcmRing_new_ok:
  assumes "0 < cap" "even cap" "cap dvd 2 ^ 32" "cap < 2 ^ 32"
  obtains st where "InboundPcmRing_new cap = Some st" "ring_ok st" "ring_contents st = []"
    "capacity st = cap" "rs_head st = 0" "rs_tail st = 0" "rs_head_at_reset st = 0"
    "rs_generation st = 0" "rs_marks st = []"
proof -
  define st where "st = \<lparr>rs_head = 0, rs_tail = 0, rs_generation = 0, rs_head_at_reset = 0,
      rs_buf = replicate cap 0, rs_marks = [], rs_mark_overflow_warned = False\<rparr>"
  have "InboundPcmRing_new cap = Some st"
    using assms by (simp add: InboundPcmRing_new_def with_storage_def WIRE_BYTES_PER_SAMPLE_def
        even_iff_mod_2_eq_zero st_def)
  then show ?thesis
    by (rule that) (use assms in \<open>simp_all add: ring_ok_def capacity_def ring_used_def
        ring_contents_def st_def\<close>)
qed

end
