(* ===== verification/Ring_Protocol.thy ===== *)
theory Ring_Protocol
  imports Playback_Ring
begin

text \<open>
  The producer/consumer protocol around the inbound PCM ring: the streamer thread banks,
  resets and marks; the drain of \<^verbatim>\<open>firmware/devices/respeaker-pod/src/capture.rs\<close> applies a
  pending reset, copies a run out under the lock, goes on with it only if its generation is the one it has acted on, and
  advances past it later. Each lock acquisition is one step, and the steps of the two threads
  interleave freely. The check of the generation is part of the step \<open>copy\<close>: a consumer without it, such as the drain of the
  Linux pod inside a pass, follows this relation only while no reset falls between its checks (\<open>Playback_Drain\<close>).

  The system state carries, beside the ring and the consumer's own variables, a history:
  every byte ever banked, the unwrapped positions of the tail and of the last reset, and
  the bytes handed to the DAC with their positions.
\<close>

section \<open>The queue interface the clients of the ring rely on\<close>

locale banked_queue =
  fixes ok :: "'r \<Rightarrow> bool"
    and contents :: "'r \<Rightarrow> bytes"
    and room_of :: "'r \<Rightarrow> nat"
    and enqueue :: "bytes \<Rightarrow> 'r \<Rightarrow> (bool \<times> 'r) option"
  assumes within: "ok r \<Longrightarrow> length (contents r) \<le> room_of r"
    and enqueue_room: "ok r \<Longrightarrow> length (contents r) + length bs \<le> room_of r \<Longrightarrow>
      \<exists>r'. enqueue bs r = Some (True, r') \<and> ok r' \<and> contents r' = contents r @ bs \<and>
           room_of r' = room_of r"
    and enqueue_full: "ok r \<Longrightarrow> length bs \<le> room_of r \<Longrightarrow>
      room_of r < length (contents r) + length bs \<Longrightarrow> enqueue bs r = Some (False, r)"
begin

lemma enqueue_total:
  assumes "ok r" "length bs \<le> room_of r"
  obtains b r' where "enqueue bs r = Some (b, r')" "ok r'" "room_of r' = room_of r"
    "b \<longleftrightarrow> length (contents r) + length bs \<le> room_of r"
    "contents r' = (if b then contents r @ bs else contents r)"
proof (cases "length (contents r) + length bs \<le> room_of r")
  case True
  then obtain r' where "enqueue bs r = Some (True, r')" "ok r'" "contents r' = contents r @ bs"
      "room_of r' = room_of r"
    using enqueue_room [OF assms(1)] by blast
  with True show ?thesis by (intro that [of True r']) auto
next
  case False
  then have "enqueue bs r = Some (False, r)" using assms enqueue_full by simp
  with False assms(1) show ?thesis by (intro that [of False r]) auto
qed

lemma enqueue_False_same: "ok r \<Longrightarrow> length bs \<le> room_of r \<Longrightarrow> enqueue bs r = Some (False, r') \<Longrightarrow> r' = r"
  using enqueue_room [of r bs] enqueue_full [of r bs] by (cases "length (contents r) + length bs \<le> room_of r") auto

lemma enqueue_TrueD:
  assumes "ok r" "length bs \<le> room_of r" "enqueue bs r = Some (True, r')"
  shows "ok r'" "contents r' = contents r @ bs" "room_of r' = room_of r"
proof -
  obtain b r'' where *: "enqueue bs r = Some (b, r'')" "ok r''" "room_of r'' = room_of r"
    "contents r'' = (if b then contents r @ bs else contents r)"
    using enqueue_total [OF assms(1,2)] by metis
  with assms(3) have "b" "r'' = r'" by auto
  with * show "ok r'" "contents r' = contents r @ bs" "room_of r' = room_of r" by auto
qed

end

text \<open>The frame copy both sinks pass to \<open>write\<close>: the matching slice of the PCM payload.\<close>

definition write_pcm :: "bytes \<Rightarrow> RingState \<Rightarrow> (bool \<times> RingState) option" where
  "write_pcm pcm st = ring_write (length pcm) (\<lambda>offset n. take n (drop offset pcm)) st"

interpretation pcm: banked_queue ring_ok ring_contents capacity write_pcm
proof (unfold_locales, goal_cases)
  case (1 r)
  then show ?case by simp
next
  case (2 r bs)
  then show ?case
    using ring_write_spec [OF 2(1) fill_ok_slice, of bs] by (metis length_ring_contents write_pcm_def)
next
  case (3 r bs)
  then show ?case by (simp add: write_pcm_def ring_write_full)
qed

lemma write_pcm_frame:
  assumes "ring_ok st" "length pcm \<le> capacity st" "write_pcm pcm st = Some (b, st')"
  shows "rs_tail st' = rs_tail st" "rs_generation st' = rs_generation st"
    "rs_head_at_reset st' = rs_head_at_reset st" "rs_marks st' = rs_marks st"
    "rs_head st' = (if b then rs_head st + of_nat (length pcm) else rs_head st)"
proof -
  have "rs_tail st' = rs_tail st \<and> rs_generation st' = rs_generation st \<and>
    rs_head_at_reset st' = rs_head_at_reset st \<and> rs_marks st' = rs_marks st \<and>
    rs_head st' = (if b then rs_head st + of_nat (length pcm) else rs_head st)"
  proof (cases "ring_used st + length pcm \<le> capacity st")
    case True
    with assms show ?thesis
      by (elim ring_write_spec [OF assms(1) fill_ok_slice, of pcm, elim_format])
         (auto simp: write_pcm_def)
  next
    case False
    with assms show ?thesis by (auto simp: write_pcm_def ring_write_full)
  qed
  then show "rs_tail st' = rs_tail st" "rs_generation st' = rs_generation st"
    "rs_head_at_reset st' = rs_head_at_reset st" "rs_marks st' = rs_marks st"
    "rs_head st' = (if b then rs_head st + of_nat (length pcm) else rs_head st)" by auto
qed

section \<open>The interleaved system\<close>

record ring_sys =
  sys_ring :: RingState
  sys_acted :: u32
  sys_staged :: bytes
  sys_written :: bytes
  sys_tail :: nat
  sys_reset :: nat
  sys_played :: "(nat \<times> u8) list"

definition ring_sys_init :: "RingState \<Rightarrow> ring_sys" where
  "ring_sys_init st = \<lparr>sys_ring = st, sys_acted = rs_generation st, sys_staged = [],
     sys_written = [], sys_tail = 0, sys_reset = 0, sys_played = []\<rparr>"

definition stamp :: "nat \<Rightarrow> bytes \<Rightarrow> (nat \<times> u8) list" where
  "stamp t bs = zip [t..<t + length bs] bs"

inductive ring_step :: "ring_sys \<Rightarrow> ring_sys \<Rightarrow> bool" where
  bank: "length pcm \<le> capacity (sys_ring s) \<Longrightarrow> write_pcm pcm (sys_ring s) = Some (True, r') \<Longrightarrow>
    ring_step s (s\<lparr>sys_ring := r', sys_written := sys_written s @ pcm\<rparr>)"
| bank_full: "length pcm \<le> capacity (sys_ring s) \<Longrightarrow> write_pcm pcm (sys_ring s) = Some (False, r') \<Longrightarrow>
    ring_step s (s\<lparr>sys_ring := r'\<rparr>)"
| reset: "ring_step s (s\<lparr>sys_ring := ring_reset (sys_ring s), sys_reset := length (sys_written s)\<rparr>)"
| mark: "ring_step s (s\<lparr>sys_ring := snd (mark_end_of_audio (sys_ring s))\<rparr>)"
| apply_pending: "rs_generation (sys_ring s) \<noteq> sys_acted s \<Longrightarrow> apply_reset (sys_ring s) = (g, r') \<Longrightarrow>
    ring_step s (s\<lparr>sys_ring := r', sys_acted := g, sys_staged := [], sys_tail := sys_reset s\<rparr>)"
| take_mark: "ring_step s (s\<lparr>sys_ring := snd (take_mark_at_tail (sys_ring s))\<rparr>)"
| copy: "copy_run_into m tx (sys_ring s) = (run, tx') \<Longrightarrow> run_generation run = sys_acted s \<Longrightarrow>
    ring_step s (s\<lparr>sys_staged := take (run_n run) tx'\<rparr>)"
| consume: "k \<le> length (sys_staged s) \<Longrightarrow> advance k (sys_ring s) = Some (b, r') \<Longrightarrow>
    ring_step s (s\<lparr>sys_ring := r', sys_tail := sys_tail s + k, sys_staged := [],
      sys_played := sys_played s @ stamp (sys_tail s) (take k (sys_staged s))\<rparr>)"

inductive_cases ring_step_cases: "ring_step s s'"

definition ring_sys_inv :: "ring_sys \<Rightarrow> bool" where
  "ring_sys_inv s \<longleftrightarrow>
     (let r = sys_ring s; W = sys_written s; T = sys_tail s; R = sys_reset s; S = sys_staged s in
      ring_ok r \<and> rs_head r = of_nat (length W) \<and> rs_tail r = of_nat T \<and> T \<le> length W \<and>
      ring_contents r = drop T W \<and> rs_head_at_reset r = of_nat R \<and> R \<le> length W \<and>
      S = take (length S) (drop T W) \<and>
      (rs_generation r \<noteq> sys_acted s \<longrightarrow> T + length S \<le> R) \<and>
      sorted_wrt (<) (map fst (sys_played s)) \<and>
      (\<forall>(i, b) \<in> set (sys_played s). i < T \<and> W ! i = b))"

lemma ring_sys_invD:
  assumes "ring_sys_inv s"
  shows "ring_ok (sys_ring s)" "rs_head (sys_ring s) = of_nat (length (sys_written s))"
    "rs_tail (sys_ring s) = of_nat (sys_tail s)" "sys_tail s \<le> length (sys_written s)"
    "ring_contents (sys_ring s) = drop (sys_tail s) (sys_written s)"
    "rs_head_at_reset (sys_ring s) = of_nat (sys_reset s)" "sys_reset s \<le> length (sys_written s)"
    "sys_staged s = take (length (sys_staged s)) (drop (sys_tail s) (sys_written s))"
    "rs_generation (sys_ring s) \<noteq> sys_acted s \<Longrightarrow> sys_tail s + length (sys_staged s) \<le> sys_reset s"
    "sorted_wrt (<) (map fst (sys_played s))"
    "\<And>i b. (i, b) \<in> set (sys_played s) \<Longrightarrow> i < sys_tail s \<and> sys_written s ! i = b"
  using assms by (auto simp: ring_sys_inv_def Let_def)

lemma ring_sys_inv_used:
  assumes "ring_sys_inv s"
  shows "ring_used (sys_ring s) = length (sys_written s) - sys_tail s"
  using ring_sys_invD(5) [OF assms] by (metis length_drop length_ring_contents)

lemma ring_sys_inv_staged_le:
  assumes "ring_sys_inv s"
  shows "sys_tail s + length (sys_staged s) \<le> length (sys_written s)"
proof -
  have "length (sys_staged s) \<le> length (sys_written s) - sys_tail s"
    using ring_sys_invD(8) [OF assms] by (metis length_drop length_take min.cobounded1)
  then show ?thesis using ring_sys_invD(4) [OF assms] by simp
qed

lemma ring_sys_inv_init:
  assumes "InboundPcmRing_new cap = Some st" "0 < cap" "even cap" "cap dvd 2 ^ 32" "cap < 2 ^ 32"
  shows "ring_sys_inv (ring_sys_init st)"
  using InboundPcmRing_new_ok [OF assms(2-5)] assms(1)
  by (auto simp: ring_sys_inv_def ring_sys_init_def)

text \<open>Played bytes stay as they are when the history only grows and the tail only advances.\<close>

lemma played_append:
  assumes "sorted_wrt (<) (map fst ps)" "\<And>i b. (i, b) \<in> set ps \<Longrightarrow> i < t \<and> W ! i = b"
    and "t + length bs \<le> length W" "bs = take (length bs) (drop t W)"
  shows "sorted_wrt (<) (map fst (ps @ stamp t bs))"
    and "(i, b) \<in> set (ps @ stamp t bs) \<Longrightarrow> i < t + length bs \<and> W ! i = b"
proof -
  have f: "map fst (stamp t bs) = [t..<t + length bs]"
    by (simp add: stamp_def)
  show "sorted_wrt (<) (map fst (ps @ stamp t bs))"
    using assms(1,2) by (force simp: f sorted_wrt_append sorted_wrt_upt)
  show "i < t + length bs \<and> W ! i = b" if mem: "(i, b) \<in> set (ps @ stamp t bs)"
  proof (cases "(i, b) \<in> set ps")
    case True
    then show ?thesis using assms(2) by fastforce
  next
    case False
    then obtain k where k: "k < length bs" "i = t + k" "b = bs ! k"
      using mem by (auto simp: stamp_def set_zip)
    then have "bs ! k = W ! (t + k)"
      using assms(3,4) by (metis nth_drop nth_take add_leD1)
    then show ?thesis using k by simp
  qed
qed

lemma ring_sys_inv_bank:
  assumes inv: "ring_sys_inv s" and w: "length pcm \<le> capacity (sys_ring s)"
    "write_pcm pcm (sys_ring s) = Some (True, r')"
  shows "ring_sys_inv (s\<lparr>sys_ring := r', sys_written := sys_written s @ pcm\<rparr>)"
proof -
  note D = ring_sys_invD [OF inv]
  note q = pcm.enqueue_TrueD [OF D(1) w]
  note fr = write_pcm_frame [OF D(1) w]
  have played: "i < sys_tail s \<and> (sys_written s @ pcm) ! i = b" if "(i, b) \<in> set (sys_played s)" for i b
    using D(11) [OF that] D(4) by (simp add: nth_append)
  have staged: "sys_staged s = take (length (sys_staged s)) (drop (sys_tail s) (sys_written s @ pcm))"
    using D(8) ring_sys_inv_staged_le [OF inv] by simp
  show ?thesis
    unfolding ring_sys_inv_def Let_def
    using q fr D(2-7,9,10) played staged by (auto simp: add.commute)
qed

lemma ring_sys_inv_reset:
  assumes inv: "ring_sys_inv s"
  shows "ring_sys_inv (s\<lparr>sys_ring := ring_reset (sys_ring s), sys_reset := length (sys_written s)\<rparr>)"
proof -
  note D = ring_sys_invD [OF inv]
  have "ring_contents (ring_reset (sys_ring s)) = ring_contents (sys_ring s)"
    by (rule ring_same_queue) simp_all
  then show ?thesis
    unfolding ring_sys_inv_def Let_def
    using D ring_ok_reset [OF D(1)] ring_sys_inv_staged_le [OF inv] by auto
qed

lemma ring_sys_inv_same_queue:
  assumes inv: "ring_sys_inv s" and "ring_ok r'" "rs_head r' = rs_head (sys_ring s)"
    "rs_tail r' = rs_tail (sys_ring s)" "rs_buf r' = rs_buf (sys_ring s)"
    "rs_generation r' = rs_generation (sys_ring s)"
    "rs_head_at_reset r' = rs_head_at_reset (sys_ring s)"
  shows "ring_sys_inv (s\<lparr>sys_ring := r'\<rparr>)"
proof -
  have "ring_contents r' = ring_contents (sys_ring s)"
    by (rule ring_same_queue) (use assms in simp_all)
  then show ?thesis
    using inv assms(2-) unfolding ring_sys_inv_def Let_def by simp
qed

lemma unat_of_nat_diff_u32:
  assumes "b \<le> a" "a - b < 2 ^ 32"
  shows "unat (of_nat a - of_nat b :: u32) = a - b"
proof -
  have "(of_nat a - of_nat b :: u32) = of_nat (a - b)"
    using assms(1) by (simp add: of_nat_diff)
  then show ?thesis using assms(2) by (simp only: unat_of_nat_u32_small)
qed

lemma ring_sys_inv_apply:
  assumes inv: "ring_sys_inv s" and pend: "rs_generation (sys_ring s) \<noteq> sys_acted s"
    and ap: "apply_reset (sys_ring s) = (g, r')"
  shows "ring_sys_inv (s\<lparr>sys_ring := r', sys_acted := g, sys_staged := [], sys_tail := sys_reset s\<rparr>)"
    and "ring_contents r' = drop (sys_reset s) (sys_written s)"
proof -
  note D = ring_sys_invD [OF inv]
  have TR: "sys_tail s \<le> sys_reset s" using D(9) [OF pend] by simp
  have u: "sys_reset s - sys_tail s \<le> ring_used (sys_ring s)"
    using D(7) ring_sys_inv_used [OF inv] by simp
  have dist: "unat (rs_head_at_reset (sys_ring s) - rs_tail (sys_ring s)) = sys_reset s - sys_tail s"
    unfolding D(3,6) using TR u ring_ok_used [OF D(1)] ring_ok_cap_lt [OF D(1)]
    by (intro unat_of_nat_diff_u32) linarith+
  note A = apply_reset_spec [OF D(1), unfolded dist, OF u, unfolded ap fst_conv snd_conv]
  show c: "ring_contents r' = drop (sys_reset s) (sys_written s)"
    using A(2) TR by (simp add: D(5))
  have played: "i < sys_reset s \<and> sys_written s ! i = b" if "(i, b) \<in> set (sys_played s)" for i b
    using D(11) [OF that] TR by simp
  show "ring_sys_inv (s\<lparr>sys_ring := r', sys_acted := g, sys_staged := [], sys_tail := sys_reset s\<rparr>)"
    unfolding ring_sys_inv_def Let_def
    using A c D(2,6,7,10) played by auto
qed

lemma ring_sys_inv_copy:
  assumes inv: "ring_sys_inv s" and cp: "copy_run_into m tx (sys_ring s) = (run, tx')"
    and g: "run_generation run = sys_acted s"
  shows "ring_sys_inv (s\<lparr>sys_staged := take (run_n run) tx'\<rparr>)"
proof -
  note D = ring_sys_invD [OF inv]
  have n: "run_n (fst (copy_run_into m tx (sys_ring s))) = run_n run" by (simp add: cp)
  have bytes: "take (run_n run) tx' = take (run_n run) (drop (sys_tail s) (sys_written s))"
    using copy_run_into_bytes(1) [OF D(1) n] by (simp add: cp D(5))
  have len: "length (take (run_n run) tx') = run_n run"
    using copy_run_into_bytes(3) [OF D(1) n] copy_run_into_n_bounds(3) [OF n] by (simp add: cp)
  have "rs_generation (sys_ring s) = sys_acted s"
    using copy_run_into_fields(1) [of m tx "sys_ring s"] g by (simp add: cp)
  then show ?thesis
    using D(1-7,9-11) bytes len unfolding ring_sys_inv_def Let_def by auto
qed

lemma ring_sys_inv_consume:
  assumes inv: "ring_sys_inv s" and k: "k \<le> length (sys_staged s)"
    and ad: "advance k (sys_ring s) = Some (b, r')"
  shows "ring_sys_inv (s\<lparr>sys_ring := r', sys_tail := sys_tail s + k, sys_staged := [],
      sys_played := sys_played s @ stamp (sys_tail s) (take k (sys_staged s))\<rparr>)"
proof -
  note D = ring_sys_invD [OF inv]
  note le = ring_sys_inv_staged_le [OF inv]
  have ku: "k \<le> ring_used (sys_ring s)" using k le ring_sys_inv_used [OF inv] by simp
  obtain b' r'' where r'': "advance k (sys_ring s) = Some (b', r'')" "ring_ok r''"
    "ring_contents r'' = drop k (ring_contents (sys_ring s))"
    "rs_tail r'' = rs_tail (sys_ring s) + of_nat k" "rs_head r'' = rs_head (sys_ring s)"
    "rs_head_at_reset r'' = rs_head_at_reset (sys_ring s)"
    "rs_generation r'' = rs_generation (sys_ring s)"
    using advance_spec [OF D(1) ku] by metis
  then have r': "r'' = r'" using ad by simp
  let ?bs = "take k (sys_staged s)"
  have lb: "length ?bs = k" using k by simp
  have bs: "?bs = take (length ?bs) (drop (sys_tail s) (sys_written s))"
    unfolding lb using k by (subst D(8)) simp
  have bl: "sys_tail s + length ?bs \<le> length (sys_written s)" using k le by simp
  note P = played_append [OF D(10) D(11) bl bs, unfolded lb]
  show ?thesis
    unfolding ring_sys_inv_def Let_def
    using r'' r' D k le P by (auto simp: add.commute)
qed

lemma ring_step_inv:
  assumes "ring_step s s'" "ring_sys_inv s"
  shows "ring_sys_inv s'"
  using assms
proof (induction rule: ring_step.induct)
  case (bank_full pcm s r')
  then have "r' = sys_ring s"
    using pcm.enqueue_False_same ring_sys_invD(1) by blast
  with bank_full show ?case by simp
next
  case (mark s)
  then show ?case
    by (intro ring_sys_inv_same_queue ring_ok_mark) (simp_all add: ring_sys_invD(1))
next
  case (take_mark s)
  then show ?case
    by (intro ring_sys_inv_same_queue ring_ok_take_mark) (simp_all add: ring_sys_invD(1))
qed (simp_all add: ring_sys_inv_bank ring_sys_inv_reset ring_sys_inv_apply ring_sys_inv_copy
    ring_sys_inv_consume)

inductive ring_reachable :: "nat \<Rightarrow> ring_sys \<Rightarrow> bool" for cap where
  start: "InboundPcmRing_new cap = Some st \<Longrightarrow> ring_reachable cap (ring_sys_init st)"
| step: "ring_reachable cap s \<Longrightarrow> ring_step s s' \<Longrightarrow> ring_reachable cap s'"

lemma ring_reachable_inv:
  assumes "ring_reachable cap s" "0 < cap" "even cap" "cap dvd 2 ^ 32" "cap < 2 ^ 32"
  shows "ring_sys_inv s"
  using assms(1)
  by (induction rule: ring_reachable.induct)
     (use assms(2-) in \<open>auto intro: ring_sys_inv_init ring_step_inv\<close>)

section \<open>A capacity that does not divide the counter range\<close>

text \<open>
  The positions are the counters modulo the capacity, so a wrap of a counter moves the position
  unless the capacity divides \<open>2 ^ 32\<close>. A ring of six bytes that relays one silent sample at a
  time shows it after \<open>2 ^ 31 - 1\<close> samples.
\<close>

definition six_at :: "nat \<Rightarrow> RingState" where
  "six_at k = \<lparr>rs_head = of_nat (2 * k), rs_tail = of_nat (2 * k), rs_generation = 0, rs_head_at_reset = 0,
     rs_buf = replicate 6 0, rs_marks = [], rs_mark_overflow_warned = False\<rparr>"

definition relay :: "bytes \<Rightarrow> RingState \<Rightarrow> RingState option" where
  "relay pcm st = (case write_pcm pcm st of
     Some (True, st') \<Rightarrow> map_option snd (advance (length pcm) st') | _ \<Rightarrow> None)"

fun relays :: "nat \<Rightarrow> bytes \<Rightarrow> RingState \<Rightarrow> RingState option" where
  "relays 0 pcm st = Some st"
| "relays (Suc n) pcm st = (case relays n pcm st of None \<Rightarrow> None | Some st' \<Rightarrow> relay pcm st')"

lemma six_fresh: "InboundPcmRing_new 6 = Some (six_at 0)"
  by (simp add: InboundPcmRing_new_def with_storage_def WIRE_BYTES_PER_SAMPLE_def six_at_def)

lemma six_slot: "unat (of_nat (2 * k) :: u32) mod 6 \<le> 4"
proof -
  have "even (unat (of_nat (2 * k) :: u32))" unfolding unat_of_nat by (simp add: dvd_mod)
  then obtain j where "unat (of_nat (2 * k) :: u32) = 2 * j" by blast
  moreover have "2 * j mod 6 = 2 * (j mod 3)" using mult_mod_right [of 2 j 3] by simp
  moreover have "j mod 3 \<le> 2" using mod_less_divisor [of 3 j] by linarith
  ultimately show ?thesis by simp
qed

lemma splice_zeros: "p + n \<le> m \<Longrightarrow> splice_at (replicate m x) p (replicate n x) = replicate m x"
  by (simp add: splice_at_def flip: replicate_add)

lemma relay_silence: "relay [0, 0] (six_at k) = Some (six_at (Suc k))"
proof -
  let ?p = "unat (of_nat (2 * k) :: u32) mod 6"
  have p: "?p \<le> 4" by (rule six_slot)
  then have m: "min 2 (6 - ?p) = 2" by simp
  have z: "splice_at (replicate 6 (0 :: u8)) ?p [0, 0] = replicate 6 0"
    using splice_zeros [of ?p 2 6 "0 :: u8"] p by (simp add: numeral_2_eq_2)
  have "write_pcm [0, 0] (six_at k) = Some (True, (six_at k)\<lparr>rs_head := of_nat (2 * k) + 2\<rparr>)"
    using m z by (simp add: write_pcm_def ring_write_def six_at_def capacity_def ring_used_def Let_def)
  then show ?thesis
    by (simp add: relay_def advance_def six_at_def pop_mark_if_at_def Let_def algebra_simps)
qed

lemma relays_silence: "relays n [0, 0] (six_at 0) = Some (six_at n)"
  by (induction n) (simp_all add: relay_silence)

lemma six_wraps:
  defines "st \<equiv> six_at (2 ^ 31 - 1)"
  shows "\<exists>st1 st2 run. write_pcm [1, 2, 3, 4] st = Some (True, st1) \<and> write_pcm [5, 6] st1 = Some (True, st2) \<and>
    copy_run_into 4 [0, 0, 0, 0] st2 = (run, [5, 6, 3, 4]) \<and> run_n run = 4"
proof -
  let ?h = "4294967294 :: u32"
  have st: "st = \<lparr>rs_head = ?h, rs_tail = ?h, rs_generation = 0, rs_head_at_reset = 0,
      rs_buf = [0, 0, 0, 0, 0, 0], rs_marks = [], rs_mark_overflow_warned = False\<rparr>"
  proof -
    have "(of_nat (2 * (2 ^ 31 - 1)) :: u32) = ?h" by simp
    moreover have "replicate 6 (0 :: u8) = [0, 0, 0, 0, 0, 0]" by (simp add: eval_nat_numeral)
    ultimately show ?thesis unfolding st_def six_at_def by simp
  qed
  show ?thesis
    by (simp add: st write_pcm_def ring_write_def capacity_def ring_used_def splice_at_def copy_run_into_def
        peek_mark_pos_def Let_def)
qed

end
