(* ===== verification/Wire.thy ===== *)
theory Wire
  imports Pod_Prelude
begin

text \<open>
  The audio wire protocol of \<^verbatim>\<open>firmware/crates/audio-pipeline/src/wire.rs\<close>: the stream frames,
  the length-prefixed framing, the owned decoder and the borrowing inbound decoder.

  The \<^verbatim>\<open>postcard\<close> serialisation crate is not part of the repository. It enters the model as the
  record \<open>postcard\<close> of the functions the code calls; \<open>postcard_ok\<close> states the documented
  wire format the code relies on: varint integers, an enum as its positional tag followed
  by the body, a struct as the concatenation of its fields, a byte vector as its length
  followed by the bytes, and decoders that return the remaining input. \<open>f32\<close> values are
  their 32-bit patterns.
\<close>

section \<open>Constants and frames\<close>

definition AUDIO_PROTOCOL_VERSION :: u8 where
  "AUDIO_PROTOCOL_VERSION = 3"

definition MAX_FRAME_BYTES :: nat where
  "MAX_FRAME_BYTES = 4096"

definition AUDIO_SAMPLES_PER_FRAME :: nat where
  "AUDIO_SAMPLES_PER_FRAME = 320"

definition MAX_AUDIO_PAYLOAD :: nat where
  "MAX_AUDIO_PAYLOAD = 1280"

datatype Codec = S16Le

datatype ChannelSource = AsrBeam | ConferenceBeam | Stereo | CommunicationBeam

record Hello =
  hl_version :: u8
  hl_pod_id :: bytes
  hl_sample_rate_hz :: u32
  hl_bits_per_sample :: u8
  hl_channels :: u8
  hl_codec :: Codec
  hl_channel_source :: ChannelSource

record SegmentStart =
  ss_segment_id :: u32
  ss_base_sample_index :: u64
  ss_base_device_ts_us :: u64
  ss_preroll_samples :: u32

record AudioFrame =
  af_segment_id :: u32
  af_first_sample_index :: u64
  af_device_ts_us :: u64
  af_pcm :: bytes

datatype TelemetryKind = Azimuths "u32 list" | SpEnergy "u32 list"

record Telemetry =
  tl_device_ts_us :: u64
  tl_kind :: TelemetryKind

datatype EndReason = VadRelease | Overrun | InternalError

record SegmentEnd =
  se_segment_id :: u32
  se_device_ts_us :: u64
  se_frames_sent :: u32
  se_samples_sent :: u64
  se_reason :: EndReason

datatype StreamFrame =
    FHello Hello
  | FSegmentStart SegmentStart
  | FAudio AudioFrame
  | FTelemetry Telemetry
  | FSegmentEnd SegmentEnd
  | FEndOfAudio
  | FFlushPlayback

text \<open>The capacity bounds of the \<open>heapless\<close> containers and the fixed array length.\<close>

fun telemetry_values :: "TelemetryKind \<Rightarrow> u32 list" where
  "telemetry_values (Azimuths vs) = vs"
| "telemetry_values (SpEnergy vs) = vs"

fun frame_fits :: "StreamFrame \<Rightarrow> bool" where
  "frame_fits (FHello h) \<longleftrightarrow> length (hl_pod_id h) \<le> 32"
| "frame_fits (FAudio a) \<longleftrightarrow> length (af_pcm a) \<le> MAX_AUDIO_PAYLOAD"
| "frame_fits (FTelemetry t) \<longleftrightarrow> length (telemetry_values (tl_kind t)) = 4"
| "frame_fits _ \<longleftrightarrow> True"

definition pack_pcm_s16le :: "nat \<Rightarrow> i16 list \<Rightarrow> bytes option" where
  "pack_pcm_s16le CAP samples =
     (if length samples * 2 \<le> CAP then Some (concat (map i16_to_le_bytes samples)) else None)"

section \<open>The serialisation crate as a parameter\<close>

record postcard =
  pc_to_vec :: "StreamFrame \<Rightarrow> bytes"
  pc_from_bytes :: "bytes \<Rightarrow> StreamFrame option"
  pc_take_u32 :: "bytes \<Rightarrow> (u32 \<times> bytes) option"
  pc_take_u64 :: "bytes \<Rightarrow> (u64 \<times> bytes) option"
  pc_take_hello :: "bytes \<Rightarrow> (Hello \<times> bytes) option"
  pc_ser_u32 :: "u32 \<Rightarrow> bytes"
  pc_ser_u64 :: "u64 \<Rightarrow> bytes"
  pc_ser_hello :: "Hello \<Rightarrow> bytes"

section \<open>Framing codec\<close>

datatype EncodeError = BufferTooSmall | PayloadTooLarge | EncPostcardError

datatype DecodeError = Truncated | OversizeFrame nat | OversizePcm nat | PostcardError

text \<open>
  \<open>postcard::to_slice\<close> fails when the serialised frame does not fit the slice. On success
  the result is the returned length and the buffer after the call; on an error the buffer
  is not used by any caller.
\<close>

definition encode_frame :: "postcard \<Rightarrow> StreamFrame \<Rightarrow> bytes \<Rightarrow> EncodeError + (nat \<times> bytes)" where
  "encode_frame pc frame buf =
     (if length buf < 2 then Inl BufferTooSmall
      else
        let payload = pc_to_vec pc frame; payload_len = length payload in
        if length buf - 2 < payload_len then Inl EncPostcardError
        else if MAX_FRAME_BYTES < payload_len then Inl PayloadTooLarge
        else Inr (2 + payload_len,
                  splice_at (splice_at buf 2 payload) 0
                    [of_nat (payload_len mod 256), of_nat (payload_len div 256)]))"

definition strip_prefix :: "bytes \<Rightarrow> DecodeError + bytes" where
  "strip_prefix buf =
     (if length buf < 2 then Inl Truncated
      else
        let payload_len = unat (u16_from_le_bytes (buf ! 0) (buf ! 1)) in
        if MAX_FRAME_BYTES < payload_len then Inl (OversizeFrame payload_len)
        else if length buf < 2 + payload_len then Inl Truncated
        else Inr (take payload_len (drop 2 buf)))"

definition decode_frame :: "postcard \<Rightarrow> bytes \<Rightarrow> DecodeError + StreamFrame" where
  "decode_frame pc buf =
     (case strip_prefix buf of
        Inl e \<Rightarrow> Inl e
      | Inr payload \<Rightarrow>
          (case pc_from_bytes pc payload of None \<Rightarrow> Inl PostcardError | Some f \<Rightarrow> Inr f))"

section \<open>Borrowing inbound decode\<close>

definition STREAM_FRAME_TAG_HELLO :: u32 where "STREAM_FRAME_TAG_HELLO = 0"
definition STREAM_FRAME_TAG_SEGMENT_START :: u32 where "STREAM_FRAME_TAG_SEGMENT_START = 1"
definition STREAM_FRAME_TAG_AUDIO :: u32 where "STREAM_FRAME_TAG_AUDIO = 2"
definition STREAM_FRAME_TAG_TELEMETRY :: u32 where "STREAM_FRAME_TAG_TELEMETRY = 3"
definition STREAM_FRAME_TAG_SEGMENT_END :: u32 where "STREAM_FRAME_TAG_SEGMENT_END = 4"
definition STREAM_FRAME_TAG_END_OF_AUDIO :: u32 where "STREAM_FRAME_TAG_END_OF_AUDIO = 5"
definition STREAM_FRAME_TAG_FLUSH_PLAYBACK :: u32 where "STREAM_FRAME_TAG_FLUSH_PLAYBACK = 6"

lemmas tag_defs = STREAM_FRAME_TAG_HELLO_def STREAM_FRAME_TAG_SEGMENT_START_def
  STREAM_FRAME_TAG_AUDIO_def STREAM_FRAME_TAG_TELEMETRY_def STREAM_FRAME_TAG_SEGMENT_END_def
  STREAM_FRAME_TAG_END_OF_AUDIO_def STREAM_FRAME_TAG_FLUSH_PLAYBACK_def

datatype InboundFrame =
    InAudio u32 u64 u64 bytes
  | InHello u8 u32 u8 u8 Codec
  | InEndOfAudio
  | InFlush
  | InOther u32

record PlaybackFormat =
  pf_sample_rate_hz :: u32
  pf_bits_per_sample :: u8
  pf_channels :: u8
  pf_codec :: Codec

definition DEVICE_PLAYBACK_FORMAT :: PlaybackFormat where
  "DEVICE_PLAYBACK_FORMAT = \<lparr>pf_sample_rate_hz = 16000, pf_bits_per_sample = 16,
     pf_channels = 1, pf_codec = S16Le\<rparr>"

datatype FormatField = SampleRateHz | BitsPerSample | Channels | CodecField

datatype FormatCheck = Match | Mismatch FormatField u32 u32

definition codec_as_u32 :: "Codec \<Rightarrow> u32" where
  "codec_as_u32 c = (case c of S16Le \<Rightarrow> 0)"

definition check_inbound_format :: "PlaybackFormat \<Rightarrow> PlaybackFormat \<Rightarrow> FormatCheck" where
  "check_inbound_format expected declared =
     (if pf_sample_rate_hz declared \<noteq> pf_sample_rate_hz expected
      then Mismatch SampleRateHz (pf_sample_rate_hz expected) (pf_sample_rate_hz declared)
      else if pf_bits_per_sample declared \<noteq> pf_bits_per_sample expected
      then Mismatch BitsPerSample (ucast (pf_bits_per_sample expected)) (ucast (pf_bits_per_sample declared))
      else if pf_channels declared \<noteq> pf_channels expected
      then Mismatch Channels (ucast (pf_channels expected)) (ucast (pf_channels declared))
      else if pf_codec declared \<noteq> pf_codec expected
      then Mismatch CodecField (codec_as_u32 (pf_codec expected)) (codec_as_u32 (pf_codec declared))
      else Match)"

definition take_u32 :: "postcard \<Rightarrow> bytes \<Rightarrow> DecodeError + (u32 \<times> bytes)" where
  "take_u32 pc buf = (case pc_take_u32 pc buf of None \<Rightarrow> Inl PostcardError | Some r \<Rightarrow> Inr r)"

definition take_u64 :: "postcard \<Rightarrow> bytes \<Rightarrow> DecodeError + (u64 \<times> bytes)" where
  "take_u64 pc buf = (case pc_take_u64 pc buf of None \<Rightarrow> Inl PostcardError | Some r \<Rightarrow> Inr r)"

definition result_bind :: "'e + 'a \<Rightarrow> ('a \<Rightarrow> 'e + 'b) \<Rightarrow> 'e + 'b" where
  "result_bind r f = (case r of Inl e \<Rightarrow> Inl e | Inr x \<Rightarrow> f x)"

lemma result_bind_simps [simp]:
  "result_bind (Inl e) f = Inl e" "result_bind (Inr x) f = f x"
  by (simp_all add: result_bind_def)

lemma result_bind_Inr_iff: "result_bind r f = Inr y \<longleftrightarrow> (\<exists>x. r = Inr x \<and> f x = Inr y)"
  by (cases r) auto

definition decode_audio_body :: "postcard \<Rightarrow> bytes \<Rightarrow> DecodeError + InboundFrame" where
  "decode_audio_body pc rest =
     result_bind (take_u32 pc rest) (\<lambda>(segment_id, rest).
     result_bind (take_u64 pc rest) (\<lambda>(first_sample_index, rest).
     result_bind (take_u64 pc rest) (\<lambda>(device_ts_us, rest).
     result_bind (take_u32 pc rest) (\<lambda>(pcm_len, rest).
       let pcm_len = unat pcm_len in
       if MAX_AUDIO_PAYLOAD < pcm_len then Inl (OversizePcm pcm_len)
       else if length rest < pcm_len then Inl Truncated
       else Inr (InAudio segment_id first_sample_index device_ts_us (take pcm_len rest))))))"

definition decode_control_body :: "postcard \<Rightarrow> u32 \<Rightarrow> bytes \<Rightarrow> DecodeError + InboundFrame" where
  "decode_control_body pc tag rest =
     (if tag = STREAM_FRAME_TAG_HELLO then
        (case pc_take_hello pc rest of
           None \<Rightarrow> Inl PostcardError
         | Some (h, _) \<Rightarrow> Inr (InHello (hl_version h) (hl_sample_rate_hz h)
             (hl_bits_per_sample h) (hl_channels h) (hl_codec h)))
      else if tag = STREAM_FRAME_TAG_END_OF_AUDIO then Inr InEndOfAudio
      else if tag = STREAM_FRAME_TAG_FLUSH_PLAYBACK then Inr InFlush
      else if tag = STREAM_FRAME_TAG_SEGMENT_START \<or> tag = STREAM_FRAME_TAG_TELEMETRY \<or>
              tag = STREAM_FRAME_TAG_SEGMENT_END then Inr (InOther tag)
      else Inl PostcardError)"

definition decode_inbound :: "postcard \<Rightarrow> bytes \<Rightarrow> DecodeError + InboundFrame" where
  "decode_inbound pc buf =
     result_bind (strip_prefix buf) (\<lambda>payload.
     result_bind (take_u32 pc payload) (\<lambda>(tag, rest).
       if tag \<noteq> STREAM_FRAME_TAG_AUDIO then decode_control_body pc tag rest
       else decode_audio_body pc rest))"

section \<open>What the code relies on of the serialisation crate\<close>

definition postcard_ok :: "postcard \<Rightarrow> bool" where
  "postcard_ok pc \<longleftrightarrow>
     (\<forall>x r. pc_take_u32 pc (pc_ser_u32 pc x @ r) = Some (x, r)) \<and>
     (\<forall>x r. pc_take_u64 pc (pc_ser_u64 pc x @ r) = Some (x, r)) \<and>
     (\<forall>h r. length (hl_pod_id h) \<le> 32 \<longrightarrow> pc_take_hello pc (pc_ser_hello pc h @ r) = Some (h, r)) \<and>
     (\<forall>f. frame_fits f \<longrightarrow> pc_from_bytes pc (pc_to_vec pc f) = Some f) \<and>
     (\<forall>h. pc_to_vec pc (FHello h) = pc_ser_u32 pc 0 @ pc_ser_hello pc h) \<and>
     (\<forall>s. \<exists>b. pc_to_vec pc (FSegmentStart s) = pc_ser_u32 pc 1 @ b) \<and>
     (\<forall>a. pc_to_vec pc (FAudio a) =
        pc_ser_u32 pc 2 @ pc_ser_u32 pc (af_segment_id a) @ pc_ser_u64 pc (af_first_sample_index a) @
        pc_ser_u64 pc (af_device_ts_us a) @ pc_ser_u32 pc (of_nat (length (af_pcm a))) @ af_pcm a) \<and>
     (\<forall>t. \<exists>b. pc_to_vec pc (FTelemetry t) = pc_ser_u32 pc 3 @ b) \<and>
     (\<forall>e. \<exists>b. pc_to_vec pc (FSegmentEnd e) = pc_ser_u32 pc 4 @ b) \<and>
     pc_to_vec pc FEndOfAudio = pc_ser_u32 pc 5 \<and> pc_to_vec pc FFlushPlayback = pc_ser_u32 pc 6"

lemma postcard_okD:
  assumes "postcard_ok pc"
  shows "pc_take_u32 pc (pc_ser_u32 pc x @ r) = Some (x, r)"
    "pc_take_u64 pc (pc_ser_u64 pc y @ r) = Some (y, r)"
    "length (hl_pod_id h) \<le> 32 \<Longrightarrow> pc_take_hello pc (pc_ser_hello pc h @ r) = Some (h, r)"
    "frame_fits f \<Longrightarrow> pc_from_bytes pc (pc_to_vec pc f) = Some f"
  using assms by (simp_all add: postcard_ok_def)

lemma postcard_ok_tags:
  assumes "postcard_ok pc"
  shows "\<exists>b. pc_to_vec pc (FSegmentStart s) = pc_ser_u32 pc 1 @ b"
    "\<exists>b. pc_to_vec pc (FTelemetry t) = pc_ser_u32 pc 3 @ b"
    "\<exists>b. pc_to_vec pc (FSegmentEnd e) = pc_ser_u32 pc 4 @ b"
  using assms unfolding postcard_ok_def by blast+

text \<open>The view of a frame the device keeps on the inbound direction.\<close>

fun inbound_view :: "StreamFrame \<Rightarrow> InboundFrame" where
  "inbound_view (FHello h) = InHello (hl_version h) (hl_sample_rate_hz h) (hl_bits_per_sample h)
     (hl_channels h) (hl_codec h)"
| "inbound_view (FSegmentStart _) = InOther 1"
| "inbound_view (FAudio a) =
     InAudio (af_segment_id a) (af_first_sample_index a) (af_device_ts_us a) (af_pcm a)"
| "inbound_view (FTelemetry _) = InOther 3"
| "inbound_view (FSegmentEnd _) = InOther 4"
| "inbound_view FEndOfAudio = InEndOfAudio"
| "inbound_view FFlushPlayback = InFlush"

section \<open>Framing\<close>

lemma strip_prefix_framed:
  assumes "length payload \<le> MAX_FRAME_BYTES"
  shows "strip_prefix ([of_nat (length payload mod 256), of_nat (length payload div 256)] @ payload @ rest)
    = Inr payload"
proof -
  have "length payload div 256 < 256" using assms by (simp add: MAX_FRAME_BYTES_def)
  then have "unat (u16_from_le_bytes (of_nat (length payload mod 256)) (of_nat (length payload div 256)))
      = length payload"
    by (simp add: unat_u16_from_le_bytes unat_of_nat)
  then show ?thesis using assms by (simp add: strip_prefix_def)
qed

lemma encode_frame_spliced:
  assumes "length payload + 2 \<le> length buf"
  shows "splice_at (splice_at buf 2 payload) 0 [a, b] = [a, b] @ payload @ drop (2 + length payload) buf"
  using assms by (simp add: splice_at_def)

lemma encode_frame_Inr:
  assumes "encode_frame pc f buf = Inr (n, buf')"
  shows "n = 2 + length (pc_to_vec pc f)" "n \<le> length buf" "length buf' = length buf"
    "length (pc_to_vec pc f) \<le> MAX_FRAME_BYTES"
    "take n buf' = [of_nat (length (pc_to_vec pc f) mod 256), of_nat (length (pc_to_vec pc f) div 256)]
       @ pc_to_vec pc f"
    "drop n buf' = drop n buf"
  using assms by (auto simp: encode_frame_def Let_def splice_at_def split: if_splits)

lemma encode_frame_strip:
  assumes "encode_frame pc f buf = Inr (n, buf')"
  shows "strip_prefix (take n buf') = Inr (pc_to_vec pc f)"
  using strip_prefix_framed [OF encode_frame_Inr(4) [OF assms], of "[]"]
  by (simp add: encode_frame_Inr(5) [OF assms])

lemma encode_frame_ok_iff:
  "(\<exists>r. encode_frame pc f buf = Inr r) \<longleftrightarrow>
     length (pc_to_vec pc f) + 2 \<le> length buf \<and> length (pc_to_vec pc f) \<le> MAX_FRAME_BYTES"
  by (auto simp: encode_frame_def Let_def)

lemma decode_inbound_payload:
  assumes ok: "postcard_ok pc" and fits: "frame_fits f"
    and pre: "strip_prefix buf = Inr (pc_to_vec pc f)"
  shows "decode_inbound pc buf = Inr (inbound_view f)"
proof -
  note t = postcard_okD(1,2,3) [OF ok]
  have enc: "pc_to_vec pc f = (case f of
      FHello h \<Rightarrow> pc_ser_u32 pc 0 @ pc_ser_hello pc h
    | FAudio a \<Rightarrow> pc_ser_u32 pc 2 @ pc_ser_u32 pc (af_segment_id a) @ pc_ser_u64 pc (af_first_sample_index a) @
        pc_ser_u64 pc (af_device_ts_us a) @ pc_ser_u32 pc (of_nat (length (af_pcm a))) @ af_pcm a
    | FEndOfAudio \<Rightarrow> pc_ser_u32 pc 5 @ [] | FFlushPlayback \<Rightarrow> pc_ser_u32 pc 6 @ []
    | _ \<Rightarrow> pc_to_vec pc f)"
    using ok by (cases f) (simp_all add: postcard_ok_def)
  show ?thesis
  proof (cases f)
    case (FHello h)
    then show ?thesis using pre fits enc postcard_okD(3) [OF ok, of h "[]"]
      by (simp add: decode_inbound_def take_u32_def t decode_control_body_def tag_defs)
  next
    case (FAudio a)
    then have len: "unat (of_nat (length (af_pcm a)) :: u32) = length (af_pcm a)"
      using fits by (intro unat_of_nat_u32_small) (simp add: MAX_AUDIO_PAYLOAD_def)
    have "length (af_pcm a) \<le> MAX_AUDIO_PAYLOAD" using fits FAudio by simp
    then show ?thesis using pre enc FAudio
      by (simp add: decode_inbound_def take_u32_def take_u64_def t decode_audio_body_def tag_defs len)
  next
    case (FSegmentStart s)
    obtain b where "pc_to_vec pc f = pc_ser_u32 pc 1 @ b"
      using postcard_ok_tags(1) [OF ok, of s] FSegmentStart by blast
    then show ?thesis using pre FSegmentStart
      by (simp add: decode_inbound_def take_u32_def t decode_control_body_def tag_defs)
  next
    case (FTelemetry s)
    obtain b where "pc_to_vec pc f = pc_ser_u32 pc 3 @ b"
      using postcard_ok_tags(2) [OF ok, of s] FTelemetry by blast
    then show ?thesis using pre FTelemetry
      by (simp add: decode_inbound_def take_u32_def t decode_control_body_def tag_defs)
  next
    case (FSegmentEnd s)
    obtain b where "pc_to_vec pc f = pc_ser_u32 pc 4 @ b"
      using postcard_ok_tags(3) [OF ok, of s] FSegmentEnd by blast
    then show ?thesis using pre FSegmentEnd
      by (simp add: decode_inbound_def take_u32_def t decode_control_body_def tag_defs)
  qed (use pre enc t(1) [where r = "[]"] in \<open>simp_all add: decode_inbound_def take_u32_def t decode_control_body_def tag_defs\<close>)
qed

lemma decode_inbound_pcm_bound:
  assumes "decode_inbound pc buf = Inr (InAudio sid idx ts pcm)"
  shows "length pcm \<le> MAX_AUDIO_PAYLOAD"
  using assms
  by (auto simp: decode_inbound_def decode_audio_body_def decode_control_body_def result_bind_Inr_iff
      Let_def split: if_splits option.splits prod.splits)

end
