(* ===== verification/Playback_Sink.thy ===== *)
theory Playback_Sink
  imports Ring_Protocol Wire
begin

text \<open>
  The banking half of playback, from \<^verbatim>\<open>firmware/crates/audio-pipeline/src/playback.rs\<close>: the
  expansion of mono samples to I2S frames, the pre-roll gate and its escalation, the log
  rate limiter, and the speaker sink \<open>I2sStreamSink\<close> that copies inbound PCM into the ring.

  A sink operation works on the sink's own fields and on the shared ring (\<open>None\<close> when no
  ring was wired). Log lines are not part of the state; the counters and latches that
  decide when a line is emitted are.
\<close>

section \<open>PCM expansion\<close>

definition I2S_TX_FRAME_BYTES :: nat where
  "I2S_TX_FRAME_BYTES = 8"

definition PLAYBACK_LOG_CADENCE_FRAMES :: nat where
  "PLAYBACK_LOG_CADENCE_FRAMES = 50"

definition expand_sample_to_frame :: "i16 \<Rightarrow> bytes" where
  "expand_sample_to_frame sample =
     (let b = i16_to_le_bytes sample in [0, 0, b ! 0, b ! 1, 0, 0, 0, 0])"

text \<open>The zipped loop over \<open>chunks_exact(2)\<close> of the input and \<open>chunks_exact_mut(8)\<close> of the output.\<close>

fun expand_chunks :: "bytes \<Rightarrow> bytes \<Rightarrow> bytes" where
  "expand_chunks (lo # hi # raw) out =
     (if length out < I2S_TX_FRAME_BYTES then out
      else expand_sample_to_frame (i16_from_le_bytes lo hi) @
           expand_chunks raw (drop I2S_TX_FRAME_BYTES out))"
| "expand_chunks raw out = out"

definition expand_run_into :: "bytes \<Rightarrow> bytes \<Rightarrow> bytes option" where
  "expand_run_into raw out =
     (if length raw mod WIRE_BYTES_PER_SAMPLE \<noteq> 0 then None
      else if length out < length raw div WIRE_BYTES_PER_SAMPLE * I2S_TX_FRAME_BYTES then None
      else Some (expand_chunks raw out))"

text \<open>The loop body for \<open>i\<close> running from \<open>sample_count - 1\<close> down to \<open>0\<close>.\<close>

fun expand_down :: "nat \<Rightarrow> bytes \<Rightarrow> bytes" where
  "expand_down 0 buf = buf"
| "expand_down (Suc i) buf =
     expand_down i (splice_at buf (i * I2S_TX_FRAME_BYTES)
       (expand_sample_to_frame
         (i16_from_le_bytes (buf ! (i * WIRE_BYTES_PER_SAMPLE)) (buf ! (i * WIRE_BYTES_PER_SAMPLE + 1)))))"

definition expand_run_in_place :: "bytes \<Rightarrow> nat \<Rightarrow> bytes option" where
  "expand_run_in_place buf sample_count =
     (if length buf < sample_count * I2S_TX_FRAME_BYTES then None
      else Some (expand_down sample_count buf))"

definition is_valid_s16le_pcm :: "bytes \<Rightarrow> bool" where
  "is_valid_s16le_pcm pcm \<longleftrightarrow> pcm \<noteq> [] \<and> length pcm mod 2 = 0"

section \<open>Pre-roll gate\<close>

definition INBOUND_PCM_WRITE_UNIT_BYTES :: nat where
  "INBOUND_PCM_WRITE_UNIT_BYTES = 640"

definition PLAYBACK_PREROLL_TARGET_BYTES :: nat where
  "PLAYBACK_PREROLL_TARGET_BYTES = 12 * 640"

definition PLAYBACK_PREROLL_MAX_TARGET_BYTES :: nat where
  "PLAYBACK_PREROLL_MAX_TARGET_BYTES = 30720"

definition PLAYBACK_BURST_LEAD_MS :: nat where
  "PLAYBACK_BURST_LEAD_MS = 1000"

definition is_drop_burst :: "u32 \<Rightarrow> bool" where
  "is_drop_burst window_event_delta \<longleftrightarrow> 0 < window_event_delta"

definition preroll_gate_ready :: "nat \<Rightarrow> nat \<Rightarrow> nat option \<Rightarrow> nat \<Rightarrow> bool" where
  "preroll_gate_ready buffered_chunks target first_chunk_elapsed_ms max_wait_ms \<longleftrightarrow>
     (if target \<le> buffered_chunks then True
      else case first_chunk_elapsed_ms of Some elapsed \<Rightarrow> max_wait_ms \<le> elapsed | None \<Rightarrow> False)"

text \<open>\<open>saturating_mul(2)\<close> saturates only beyond \<open>usize::MAX / 2\<close>, far above the cap it is clamped to.\<close>

definition next_preroll_target :: "nat \<Rightarrow> nat" where
  "next_preroll_target current = min (current * 2) PLAYBACK_PREROLL_MAX_TARGET_BYTES"

record PrerollGate =
  gate_pending :: bool
  gate_first_bytes_at :: "instant option"
  gate_target :: nat
  gate_saw_audio :: bool

definition PrerollGate_new :: PrerollGate where
  "PrerollGate_new = \<lparr>gate_pending = True, gate_first_bytes_at = None,
     gate_target = PLAYBACK_PREROLL_TARGET_BYTES, gate_saw_audio = False\<rparr>"

definition note_audio_seen :: "PrerollGate \<Rightarrow> PrerollGate" where
  "note_audio_seen g = g\<lparr>gate_saw_audio := True\<rparr>"

definition clear_audio_seen :: "PrerollGate \<Rightarrow> PrerollGate" where
  "clear_audio_seen g = g\<lparr>gate_saw_audio := False\<rparr>"

definition arm_base :: "PrerollGate \<Rightarrow> PrerollGate" where
  "arm_base g = g\<lparr>gate_pending := True, gate_first_bytes_at := None, gate_saw_audio := False,
     gate_target := PLAYBACK_PREROLL_TARGET_BYTES\<rparr>"

definition rearm_escalated :: "PrerollGate \<Rightarrow> nat \<times> PrerollGate" where
  "rearm_escalated g =
     (let t = next_preroll_target (gate_target g)
      in (t, g\<lparr>gate_pending := True, gate_first_bytes_at := None, gate_saw_audio := False,
               gate_target := t\<rparr>))"

definition admit :: "nat \<Rightarrow> instant \<Rightarrow> nat \<Rightarrow> PrerollGate \<Rightarrow> bool \<times> PrerollGate" where
  "admit avail now max_wait_ms g =
     (let g1 = (if 0 < avail \<and> gate_first_bytes_at g = None
                then g\<lparr>gate_first_bytes_at := Some now\<rparr> else g) in
      if \<not> gate_pending g1 then (True, g1)
      else
        let waited = map_option (\<lambda>since. as_millis (now - since)) (gate_first_bytes_at g1) in
        if preroll_gate_ready avail (gate_target g1) waited max_wait_ms
        then (True, g1\<lparr>gate_pending := False\<rparr>)
        else (False, g1))"

section \<open>Log countdown\<close>

record LogCountdown =
  lc_cadence :: nat
  lc_remaining :: nat

definition LogCountdown_new :: "nat \<Rightarrow> LogCountdown" where
  "LogCountdown_new cadence = \<lparr>lc_cadence = cadence, lc_remaining = 0\<rparr>"

definition tick :: "LogCountdown \<Rightarrow> bool \<times> LogCountdown" where
  "tick l = (if lc_remaining l = 0 then (True, l\<lparr>lc_remaining := lc_cadence l\<rparr>)
             else (False, l\<lparr>lc_remaining := lc_remaining l - 1\<rparr>))"

section \<open>The speaker sink\<close>

datatype Accepted = Enqueued | Full

text \<open>The trait \<open>PlaybackSink\<close>: a record of operations over the sink's own state.\<close>

record 's PlaybackSink =
  op_accept :: "bytes \<Rightarrow> 's \<Rightarrow> (Accepted \<times> 's) option"
  op_end_of_audio :: "'s \<Rightarrow> 's"
  op_flush_playback :: "'s \<Rightarrow> 's"
  op_stream_reset :: "'s \<Rightarrow> 's"

definition PLAYBACK_CONSUMER_STALL_WARN_STALLS :: u32 where
  "PLAYBACK_CONSUMER_STALL_WARN_STALLS = of_nat PLAYBACK_LOG_CADENCE_FRAMES"

record I2sStreamSink =
  sk_frames :: u32
  sk_samples :: u64
  sk_full_stalls :: u32
  sk_full_stalls_at_last_log :: u32
  sk_dead_channel_discards :: u32
  sk_last_consumed_tail :: u32
  sk_stalls_since_tail_advanced :: u32
  sk_consumer_stall_warned :: bool
  sk_log_countdown :: LogCountdown

type_synonym sink_state = "I2sStreamSink \<times> RingState option"

definition with_producer :: "RingState option \<Rightarrow> sink_state" where
  "with_producer producer =
     (\<lparr>sk_frames = 0, sk_samples = 0, sk_full_stalls = 0, sk_full_stalls_at_last_log = 0,
       sk_dead_channel_discards = 0, sk_last_consumed_tail = 0, sk_stalls_since_tail_advanced = 0,
       sk_consumer_stall_warned = False,
       sk_log_countdown = LogCountdown_new PLAYBACK_LOG_CADENCE_FRAMES\<rparr>, producer)"

definition saturating_inc :: "u32 \<Rightarrow> u32" where
  "saturating_inc x = (if unat x + 1 < 2 ^ 32 then x + 1 else x)"

text \<open>The boolean result says whether the wedged-consumer warning is emitted.\<close>

definition note_consumer_stall :: "u32 \<Rightarrow> I2sStreamSink \<Rightarrow> bool \<times> I2sStreamSink" where
  "note_consumer_stall tail sk =
     (if tail \<noteq> sk_last_consumed_tail sk
      then (False, sk\<lparr>sk_last_consumed_tail := tail, sk_stalls_since_tail_advanced := 0,
                      sk_consumer_stall_warned := False\<rparr>)
      else
        let sk1 = sk\<lparr>sk_stalls_since_tail_advanced := saturating_inc (sk_stalls_since_tail_advanced sk)\<rparr> in
        if PLAYBACK_CONSUMER_STALL_WARN_STALLS \<le> sk_stalls_since_tail_advanced sk1 \<and>
           \<not> sk_consumer_stall_warned sk1
        then (True, sk1\<lparr>sk_consumer_stall_warned := True\<rparr>)
        else (False, sk1))"

definition tick_periodic_log :: "I2sStreamSink \<Rightarrow> I2sStreamSink" where
  "tick_periodic_log sk =
     (let (fire, l) = tick (sk_log_countdown sk); sk1 = sk\<lparr>sk_log_countdown := l\<rparr>
      in if fire then sk1\<lparr>sk_full_stalls_at_last_log := sk_full_stalls sk1\<rparr> else sk1)"

definition count_frame :: "nat \<Rightarrow> I2sStreamSink \<Rightarrow> I2sStreamSink" where
  "count_frame sample_count sk =
     tick_periodic_log (sk\<lparr>sk_frames := sk_frames sk + 1,
                           sk_samples := sk_samples sk + of_nat sample_count\<rparr>)"

definition i2s_accept :: "bytes \<Rightarrow> sink_state \<Rightarrow> (Accepted \<times> sink_state) option" where
  "i2s_accept pcm s =
     (let (sk, producer) = s in
      if \<not> is_valid_s16le_pcm pcm then Some (Enqueued, s)
      else
        let sample_count = length pcm div WIRE_BYTES_PER_SAMPLE in
        case producer of
          Some ring \<Rightarrow>
            (case write_pcm pcm ring of
               None \<Rightarrow> None
             | Some (True, ring') \<Rightarrow>
                 let sk1 = sk\<lparr>sk_stalls_since_tail_advanced := 0, sk_consumer_stall_warned := False\<rparr>
                 in Some (Enqueued, (count_frame sample_count sk1, Some ring'))
             | Some (False, ring') \<Rightarrow>
                 let sk1 = snd (note_consumer_stall (consumed ring') sk);
                     sk2 = sk1\<lparr>sk_full_stalls := sk_full_stalls sk1 + 1\<rparr>
                 in Some (Full, (tick_periodic_log sk2, Some ring')))
        | None \<Rightarrow>
            let sk1 = sk\<lparr>sk_dead_channel_discards := sk_dead_channel_discards sk + 1\<rparr>
            in Some (Enqueued, (count_frame sample_count sk1, None)))"

definition i2s_end_of_audio :: "sink_state \<Rightarrow> sink_state" where
  "i2s_end_of_audio s =
     (case s of (sk, Some ring) \<Rightarrow> (sk, Some (snd (mark_end_of_audio ring))) | (sk, None) \<Rightarrow> s)"

definition i2s_flush_playback :: "sink_state \<Rightarrow> sink_state" where
  "i2s_flush_playback s =
     (case s of (sk, Some ring) \<Rightarrow> (sk, Some (snd (mark_end_of_audio (ring_reset ring))))
      | (sk, None) \<Rightarrow> s)"

definition i2s_stream_reset :: "sink_state \<Rightarrow> sink_state" where
  "i2s_stream_reset s =
     (case s of (sk, Some ring) \<Rightarrow> (sk, Some (ring_reset ring))
      | (sk, None) \<Rightarrow> (sk\<lparr>sk_dead_channel_discards := sk_dead_channel_discards sk + 1\<rparr>, None))"

definition I2sStreamSink_ops :: "sink_state PlaybackSink" where
  "I2sStreamSink_ops = \<lparr>op_accept = i2s_accept, op_end_of_audio = i2s_end_of_audio,
     op_flush_playback = i2s_flush_playback, op_stream_reset = i2s_stream_reset\<rparr>"

section \<open>Expansion: the in-place loop computes the copying one\<close>

lemma length_expand_sample [simp]: "length (expand_sample_to_frame x) = 8"
  by (simp add: expand_sample_to_frame_def Let_def)

text \<open>The reference: frame \<open>i\<close> is the expansion of the \<open>i\<close>-th little-endian sample.\<close>

definition frames_of :: "bytes \<Rightarrow> nat \<Rightarrow> bytes" where
  "frames_of raw n = concat (map (\<lambda>i. expand_sample_to_frame
     (i16_from_le_bytes (raw ! (2 * i)) (raw ! (2 * i + 1)))) [0..<n])"

lemma length_frames_of [simp]: "length (frames_of raw n) = 8 * n"
  by (induction n) (simp_all add: frames_of_def)

lemma frames_of_cong:
  assumes "\<And>j. j < 2 * n \<Longrightarrow> a ! j = b ! j"
  shows "frames_of a n = frames_of b n"
proof -
  have "map (\<lambda>i. expand_sample_to_frame (i16_from_le_bytes (a ! (2 * i)) (a ! (2 * i + 1)))) [0..<n]
      = map (\<lambda>i. expand_sample_to_frame (i16_from_le_bytes (b ! (2 * i)) (b ! (2 * i + 1)))) [0..<n]"
      using assms by (intro map_cong) auto
  then show ?thesis by (simp only: frames_of_def)
qed

lemma frames_of_Suc:
  "frames_of raw (Suc n) =
     frames_of raw n @ expand_sample_to_frame (i16_from_le_bytes (raw ! (2 * n)) (raw ! (2 * n + 1)))"
  by (simp add: frames_of_def)

lemma expand_down_frames:
  "8 * n \<le> length buf \<Longrightarrow> expand_down n buf = frames_of buf n @ drop (8 * n) buf"
proof (induction n arbitrary: buf)
  case 0
  then show ?case by (simp add: frames_of_def)
next
  case (Suc i)
  let ?fr = "expand_sample_to_frame (i16_from_le_bytes (buf ! (2 * i)) (buf ! (2 * i + 1)))"
  let ?buf = "splice_at buf (8 * i) ?fr"
  have fit: "8 * i + length ?fr \<le> length buf" using Suc.prems by simp
  have "expand_down (Suc i) buf = expand_down i ?buf"
    by (simp add: I2S_TX_FRAME_BYTES_def WIRE_BYTES_PER_SAMPLE_def mult.commute)
  also have "\<dots> = frames_of ?buf i @ drop (8 * i) ?buf"
    using Suc.prems length_splice_at [OF fit] by (intro Suc.IH) simp
  also have "frames_of ?buf i = frames_of buf i"
    using Suc.prems by (intro frames_of_cong) (subst nth_splice_at [OF fit], auto)
  also have "drop (8 * i) ?buf = ?fr @ drop (8 * Suc i) buf"
    using Suc.prems by (simp add: splice_at_def add.commute)
  finally show ?case by (simp add: frames_of_Suc)
qed

lemma frames_of_Cons:
  "frames_of (lo # hi # raw) (Suc n) =
     expand_sample_to_frame (i16_from_le_bytes lo hi) @ frames_of raw n"
  by (induction n) (simp_all add: frames_of_Suc, simp add: frames_of_def)

lemma expand_chunks_frames:
  "length raw = 2 * n \<Longrightarrow> 8 * n \<le> length out \<Longrightarrow>
     expand_chunks raw out = frames_of raw n @ drop (8 * n) out"
proof (induction n arbitrary: raw out)
  case 0
  then show ?case by (simp add: frames_of_def)
next
  case (Suc n)
  then obtain lo hi raw' where raw: "raw = lo # hi # raw'" "length raw' = 2 * n"
    by (auto simp: length_Suc_conv)
  have "expand_chunks raw' (drop 8 out) = frames_of raw' n @ drop (8 * n) (drop 8 out)"
    using Suc.prems raw by (intro Suc.IH) auto
  then show ?case
    using Suc.prems raw by (simp add: frames_of_Cons I2S_TX_FRAME_BYTES_def add.commute)
qed

lemma expand_run_into_frames:
  assumes "length raw = 2 * n"
  shows "expand_run_into raw out =
    (if length out < 8 * n then None else Some (frames_of raw n @ drop (8 * n) out))"
  using assms expand_chunks_frames [OF assms, of out]
  by (simp add: expand_run_into_def WIRE_BYTES_PER_SAMPLE_def I2S_TX_FRAME_BYTES_def)

section \<open>Gate\<close>

lemma next_preroll_target_bounds:
  assumes "PLAYBACK_PREROLL_TARGET_BYTES \<le> t" "t \<le> PLAYBACK_PREROLL_MAX_TARGET_BYTES"
  shows "t \<le> next_preroll_target t" "PLAYBACK_PREROLL_TARGET_BYTES \<le> next_preroll_target t"
    "next_preroll_target t \<le> PLAYBACK_PREROLL_MAX_TARGET_BYTES"
  using assms by (auto simp: next_preroll_target_def PLAYBACK_PREROLL_TARGET_BYTES_def
      PLAYBACK_PREROLL_MAX_TARGET_BYTES_def)

definition gate_ok :: "PrerollGate \<Rightarrow> bool" where
  "gate_ok g \<longleftrightarrow> PLAYBACK_PREROLL_TARGET_BYTES \<le> gate_target g \<and>
     gate_target g \<le> PLAYBACK_PREROLL_MAX_TARGET_BYTES"

lemma gate_ok_ops:
  "gate_ok PrerollGate_new" "gate_ok (arm_base g)"
  "gate_ok g \<Longrightarrow> gate_ok (note_audio_seen g)" "gate_ok g \<Longrightarrow> gate_ok (clear_audio_seen g)"
  "gate_ok g \<Longrightarrow> gate_ok (snd (rearm_escalated g))"
  "gate_ok g \<Longrightarrow> gate_ok (snd (admit a now w g))"
  using next_preroll_target_bounds
  by (auto simp: gate_ok_def PrerollGate_new_def arm_base_def note_audio_seen_def clear_audio_seen_def
      rearm_escalated_def admit_def Let_def PLAYBACK_PREROLL_TARGET_BYTES_def
      PLAYBACK_PREROLL_MAX_TARGET_BYTES_def)

lemma admit_reason:
  assumes "admit a now w g = (b, g')" "0 < a"
  shows "b \<longleftrightarrow> \<not> gate_pending g \<or> gate_target g \<le> a \<or>
      (case gate_first_bytes_at g of None \<Rightarrow> w = 0 | Some since \<Rightarrow> from_millis w \<le> now - since)"
  using assms
  by (auto simp: admit_def Let_def preroll_gate_ready_def as_millis_ge_iff from_millis_def as_millis_def
      split: if_splits option.splits)

text \<open>A run of admission requests, each with the banked depth and the time; the answers.\<close>

fun admit_run :: "nat \<Rightarrow> (nat \<times> instant) list \<Rightarrow> PrerollGate \<Rightarrow> bool list" where
  "admit_run w [] g = []"
| "admit_run w ((a, now) # xs) g = (let (b, g') = admit a now w g in b # admit_run w xs g')"

lemma admit_open:
  assumes "\<not> gate_pending g"
  shows "fst (admit a now w g)" "\<not> gate_pending (snd (admit a now w g))"
  using assms by (simp_all add: admit_def Let_def)

lemma admit_run_open: "\<not> gate_pending g \<Longrightarrow> i < length xs \<Longrightarrow> admit_run w xs g ! i"
proof (induction xs arbitrary: g i)
  case (Cons x xs)
  then show ?case using admit_open [OF Cons.prems(1)]
    by (cases x; cases i) (auto simp: Let_def split_beta)
qed simp

lemma admit_pending:
  assumes "gate_pending g" "gate_first_bytes_at g = Some t0"
  shows "admit a now w g =
    (if gate_target g \<le> a \<or> from_millis w \<le> now - t0 then (True, g\<lparr>gate_pending := False\<rparr>) else (False, g))"
  using assms by (simp add: admit_def Let_def preroll_gate_ready_def as_millis_ge_iff)

lemma ex_le_Suc: "(\<exists>j \<le> Suc k. P j) \<longleftrightarrow> P 0 \<or> (\<exists>j \<le> k. P (Suc j))"
  by (metis Suc_le_mono not0_implies_Suc le0)

lemma admit_run_armed:
  "gate_pending g \<Longrightarrow> gate_first_bytes_at g = Some t0 \<Longrightarrow> i < length xs \<Longrightarrow>
   admit_run w xs g ! i \<longleftrightarrow> (\<exists>j \<le> i. gate_target g \<le> fst (xs ! j) \<or> from_millis w \<le> snd (xs ! j) - t0)"
proof (induction xs arbitrary: i)
  case (Cons x xs)
  obtain a now where x: "x = (a, now)" by fastforce
  show ?case
  proof (cases "gate_target g \<le> a \<or> from_millis w \<le> now - t0")
    case True
    then show ?thesis
      using Cons.prems x admit_run_open [of "g\<lparr>gate_pending := False\<rparr>"]
      by (cases i) (simp_all add: admit_pending ex_le_Suc)
  next
    case False
    then show ?thesis using Cons x
      by (cases i) (simp_all add: admit_pending ex_le_Suc)
  qed
qed simp

section \<open>Rate limiter\<close>

fun ticks :: "nat \<Rightarrow> LogCountdown \<Rightarrow> LogCountdown" where
  "ticks 0 l = l"
| "ticks (Suc n) l = ticks n (snd (tick l))"

lemma ticks_Suc_end: "ticks (Suc n) l = snd (tick (ticks n l))"
  by (induction n arbitrary: l) auto

lemma ticks_state:
  "ticks n (LogCountdown_new c) =
     \<lparr>lc_cadence = c, lc_remaining = (c + 1 - n mod (c + 1)) mod (c + 1)\<rparr>"
proof (induction n)
  case 0
  then show ?case by (simp add: LogCountdown_new_def)
next
  case (Suc n)
  let ?m = "n mod (c + 1)"
  have m: "?m \<le> c" "\<not> Suc c \<le> n mod Suc c"
    using mod_less_divisor [OF zero_less_Suc, of n c] unfolding Suc_eq_plus1 by linarith+
  have s: "Suc n mod (c + 1) = (if ?m = c then 0 else ?m + 1)"
    by (simp add: mod_Suc)
  have "(c + 1 - ?m) mod (c + 1) = (if ?m = 0 then 0 else c + 1 - ?m)"
    using m by simp
  then show ?case
    unfolding ticks_Suc_end Suc.IH tick_def s using m by auto
qed

section \<open>Wedged-consumer watchdog\<close>

text \<open>\<open>stall_run n\<close>: \<open>n\<close> ring-full stalls in a row at the same tail; the warnings emitted.\<close>

fun stall_run :: "nat \<Rightarrow> u32 \<Rightarrow> I2sStreamSink \<Rightarrow> nat \<times> I2sStreamSink" where
  "stall_run 0 tail sk = (0, sk)"
| "stall_run (Suc n) tail sk =
     (let (k, sk1) = stall_run n tail sk; (w, sk2) = note_consumer_stall tail sk1
      in (k + (if w then 1 else 0), sk2))"

lemma unat_saturating_inc:
  "unat (saturating_inc x) = min (unat x + 1) (2 ^ 32 - 1)"
  using unat_u32_less [of x] by (simp add: saturating_inc_def unat_word_ariths min_def)

lemma stall_run_state:
  assumes "sk_last_consumed_tail sk = tail" "sk_stalls_since_tail_advanced sk = 0"
    "\<not> sk_consumer_stall_warned sk"
  shows "sk_last_consumed_tail (snd (stall_run n tail sk)) = tail \<and>
    unat (sk_stalls_since_tail_advanced (snd (stall_run n tail sk))) = min n (2 ^ 32 - 1) \<and>
    (sk_consumer_stall_warned (snd (stall_run n tail sk)) \<longleftrightarrow> PLAYBACK_LOG_CADENCE_FRAMES \<le> n) \<and>
    fst (stall_run n tail sk) = (if PLAYBACK_LOG_CADENCE_FRAMES \<le> n then 1 else 0)"
proof (induction n)
  case 0
  then show ?case using assms by (simp add: PLAYBACK_LOG_CADENCE_FRAMES_def)
next
  case (Suc n)
  obtain k sk1 where r: "stall_run n tail sk = (k, sk1)" by fastforce
  have thr: "unat PLAYBACK_CONSUMER_STALL_WARN_STALLS = 50"
    by (simp add: PLAYBACK_CONSUMER_STALL_WARN_STALLS_def PLAYBACK_LOG_CADENCE_FRAMES_def)
  have "min (min n (2 ^ 32 - 1) + 1) (2 ^ 32 - 1) = min (Suc n) (2 ^ 32 - 1 :: nat)"
    by (simp add: min_def)
  moreover have "(50 \<le> min (Suc n) (2 ^ 32 - 1 :: nat)) = (50 \<le> Suc n)"
    by (simp add: min_def)
  ultimately show ?case
    using Suc.IH
    by (auto simp: r note_consumer_stall_def word_le_nat_alt thr unat_saturating_inc
        PLAYBACK_LOG_CADENCE_FRAMES_def)
qed

section \<open>The sink interface\<close>

text \<open>
  What \<open>consume_frames\<close> may assume of any \<open>PlaybackSink\<close>: on payloads the decoder lets
  through, no operation faults and each keeps the sink's invariant.
\<close>

locale playback_sink =
  fixes ok :: "'s \<Rightarrow> bool"
    and sink :: "'s PlaybackSink"
  assumes accept_total: "ok s \<Longrightarrow> length pcm \<le> MAX_AUDIO_PAYLOAD \<Longrightarrow>
      \<exists>a s'. op_accept sink pcm s = Some (a, s') \<and> ok s'"
    and end_of_audio_ok: "ok s \<Longrightarrow> ok (op_end_of_audio sink s)"
    and flush_playback_ok: "ok s \<Longrightarrow> ok (op_flush_playback sink s)"
    and stream_reset_ok: "ok s \<Longrightarrow> ok (op_stream_reset sink s)"

text \<open>A sink that banks: what it holds grows by exactly the valid payload it accepts.\<close>

locale banking_sink = playback_sink +
  fixes banked :: "'a \<Rightarrow> bytes"
  assumes accept_banked: "ok s \<Longrightarrow> length pcm \<le> MAX_AUDIO_PAYLOAD \<Longrightarrow> op_accept sink pcm s = Some (a, s') \<Longrightarrow>
      banked s' = banked s @ (if a = Enqueued \<and> is_valid_s16le_pcm pcm then pcm else [])"
    and end_of_audio_banked: "ok s \<Longrightarrow> banked (op_end_of_audio sink s) = banked s"
    and flush_banked: "ok s \<Longrightarrow> banked (op_flush_playback sink s) = banked s"

text \<open>The wired speaker sink: its ring is well formed and holds at least one largest frame.\<close>

definition i2s_ok :: "sink_state \<Rightarrow> bool" where
  "i2s_ok s = (case snd s of Some ring \<Rightarrow> ring_ok ring \<and> MAX_AUDIO_PAYLOAD \<le> capacity ring | None \<Rightarrow> False)"

definition i2s_banked :: "sink_state \<Rightarrow> bytes" where
  "i2s_banked s = (case snd s of Some ring \<Rightarrow> ring_contents ring | None \<Rightarrow> [])"

lemma i2s_accept_cases:
  assumes ok: "ring_ok ring" and cap: "MAX_AUDIO_PAYLOAD \<le> capacity ring"
    and len: "length pcm \<le> MAX_AUDIO_PAYLOAD"
  obtains a sk' ring' where "i2s_accept pcm (sk, Some ring) = Some (a, (sk', Some ring'))"
    "ring_ok ring'" "capacity ring' = capacity ring"
    "ring_contents ring' =
       ring_contents ring @ (if a = Enqueued \<and> is_valid_s16le_pcm pcm then pcm else [])"
    "a = Full \<longleftrightarrow> is_valid_s16le_pcm pcm \<and> capacity ring < ring_used ring + length pcm"
    "a = Full \<Longrightarrow> ring' = ring \<and> sk_full_stalls sk' = sk_full_stalls sk + 1 \<and> sk_frames sk' = sk_frames sk"
proof (cases "is_valid_s16le_pcm pcm")
  case False
  then have "i2s_accept pcm (sk, Some ring) = Some (Enqueued, (sk, Some ring))"
    by (simp add: i2s_accept_def)
  then show ?thesis by (rule that) (use ok False in simp_all)
next
  case True
  have "length pcm \<le> capacity ring" using len cap by simp
  then obtain b ring' where w: "write_pcm pcm ring = Some (b, ring')" "ring_ok ring'"
    "capacity ring' = capacity ring" "b \<longleftrightarrow> ring_used ring + length pcm \<le> capacity ring"
    "ring_contents ring' = (if b then ring_contents ring @ pcm else ring_contents ring)"
    using pcm.enqueue_total [OF ok] by (metis length_ring_contents)
  show ?thesis
  proof (cases b)
    case b: True
    have "\<exists>sk'. i2s_accept pcm (sk, Some ring) = Some (Enqueued, (sk', Some ring'))"
      using True w(1) b by (simp add: i2s_accept_def Let_def)
    then obtain sk' where "i2s_accept pcm (sk, Some ring) = Some (Enqueued, (sk', Some ring'))" by blast
    then show ?thesis by (rule that) (use w b True in simp_all)
  next
    case b: False
    have ring': "ring' = ring"
      using pcm.enqueue_False_same [OF ok \<open>length pcm \<le> capacity ring\<close>] w(1) b by simp
    let ?sk = "tick_periodic_log (let s1 = snd (note_consumer_stall (consumed ring) sk)
      in s1\<lparr>sk_full_stalls := sk_full_stalls s1 + 1\<rparr>)"
    have acc: "i2s_accept pcm (sk, Some ring) = Some (Full, (?sk, Some ring))"
      using True w(1) b ring' by (simp add: i2s_accept_def Let_def)
    have cnt: "sk_full_stalls ?sk = sk_full_stalls sk + 1 \<and> sk_frames ?sk = sk_frames sk"
      by (auto simp: tick_periodic_log_def note_consumer_stall_def Let_def split: prod.splits)
    show ?thesis by (rule that [OF acc]) (use ok w b True ring' cnt in \<open>simp_all add: not_le\<close>)
  qed
qed

lemma i2s_okE:
  assumes "i2s_ok s"
  obtains sk ring where "s = (sk, Some ring)" "ring_ok ring" "MAX_AUDIO_PAYLOAD \<le> capacity ring"
  using assms by (cases s) (auto simp: i2s_ok_def split: option.splits)

lemma I2sStreamSink_ops_simps [simp]:
  "op_accept I2sStreamSink_ops = i2s_accept" "op_end_of_audio I2sStreamSink_ops = i2s_end_of_audio"
  "op_flush_playback I2sStreamSink_ops = i2s_flush_playback"
  "op_stream_reset I2sStreamSink_ops = i2s_stream_reset"
  by (simp_all add: I2sStreamSink_ops_def)

interpretation i2s: banking_sink i2s_ok I2sStreamSink_ops i2s_banked
proof (unfold_locales, goal_cases)
  case (1 s pcm)
  from 1(1) obtain sk ring where s: "s = (sk, Some ring)" "ring_ok ring" "MAX_AUDIO_PAYLOAD \<le> capacity ring"
    by (rule i2s_okE)
  from i2s_accept_cases [OF s(2,3) 1(2)] obtain a sk' ring' where
    "i2s_accept pcm (sk, Some ring) = Some (a, (sk', Some ring'))" "ring_ok ring'" "capacity ring' = capacity ring"
    by metis
  with s show ?case by (auto simp: i2s_ok_def)
next
  case (5 s pcm a s')
  from 5(1) obtain sk ring where s: "s = (sk, Some ring)" "ring_ok ring" "MAX_AUDIO_PAYLOAD \<le> capacity ring"
    by (rule i2s_okE)
  from i2s_accept_cases [OF s(2,3) 5(2)] obtain a' sk' ring' where
    "i2s_accept pcm (sk, Some ring) = Some (a', (sk', Some ring'))"
    "ring_contents ring' = ring_contents ring @ (if a' = Enqueued \<and> is_valid_s16le_pcm pcm then pcm else [])"
    by metis
  with s 5(3) show ?case by (auto simp: i2s_banked_def)
qed (auto simp: i2s_ok_def i2s_banked_def i2s_end_of_audio_def i2s_flush_playback_def i2s_stream_reset_def
    capacity_def ring_ok_mark ring_ok_reset split: option.splits prod.splits intro!: ring_same_queue)

end
