(* ===== verification/Inbound.thy ===== *)
theory Inbound
  imports Playback_Sink
begin

text \<open>
  The inbound playback path of \<^verbatim>\<open>firmware/crates/audio-pipeline/src/inbound.rs\<close>: the frame
  accumulator, the handshake gate, the reassembly loop \<open>consume_frames\<close>, the non-blocking
  drain and its pump, and the counting and fake-DAC sinks.

  The playback sink is a record of operations over its own state; the observer is the list
  of calls made to it; the socket is a read function over its own state. A sink operation
  that panics makes the whole call \<open>None\<close>.
\<close>

section \<open>Accumulator and connection state\<close>

record FrameAccumulator =
  fa_buf :: bytes
  fa_valid :: nat

definition FrameAccumulator_new :: FrameAccumulator where
  "FrameAccumulator_new = \<lparr>fa_buf = replicate (MAX_FRAME_BYTES + 2) 0, fa_valid = 0\<rparr>"

definition fa_payload_len :: "FrameAccumulator \<Rightarrow> nat" where
  "fa_payload_len acc = unat (u16_from_le_bytes (fa_buf acc ! 0) (fa_buf acc ! 1))"

definition has_complete_frame_held :: "FrameAccumulator \<Rightarrow> bool" where
  "has_complete_frame_held acc \<longleftrightarrow>
     (if fa_valid acc < 2 then False else 2 + fa_payload_len acc \<le> fa_valid acc)"

definition fa_reset :: "FrameAccumulator \<Rightarrow> FrameAccumulator" where
  "fa_reset acc = acc\<lparr>fa_valid := 0\<rparr>"

definition fa_compact :: "nat \<Rightarrow> FrameAccumulator \<Rightarrow> FrameAccumulator" where
  "fa_compact frame_len acc =
     acc\<lparr>fa_buf := splice_at (fa_buf acc) 0 (take (fa_valid acc - frame_len) (drop frame_len (fa_buf acc))),
         fa_valid := fa_valid acc - frame_len\<rparr>"

definition inbound_has_room :: "FrameAccumulator \<Rightarrow> bool" where
  "inbound_has_room acc \<longleftrightarrow> fa_valid acc < length (fa_buf acc)"

record InboundConnectionState =
  ic_seen_hello :: bool
  ic_inbound_frames :: u32

definition InboundConnectionState_new :: InboundConnectionState where
  "InboundConnectionState_new = \<lparr>ic_seen_hello = False, ic_inbound_frames = 0\<rparr>"

definition ic_reset :: "InboundConnectionState \<Rightarrow> InboundConnectionState" where
  "ic_reset c = c\<lparr>ic_seen_hello := False, ic_inbound_frames := 0\<rparr>"

datatype InboundWaypoint = Periodic | Exit

datatype observed = Waypoint InboundWaypoint u32 | HelloOk PlaybackFormat

section \<open>Sinks\<close>

record CountingSink =
  cs_frames :: u32
  cs_samples :: u64
  cs_end_of_audio_marks :: u32
  cs_flushes :: u32
  cs_log_countdown :: LogCountdown

definition CountingSink_new :: CountingSink where
  "CountingSink_new = \<lparr>cs_frames = 0, cs_samples = 0, cs_end_of_audio_marks = 0, cs_flushes = 0,
     cs_log_countdown = LogCountdown_new PLAYBACK_LOG_CADENCE_FRAMES\<rparr>"

definition counting_accept :: "bytes \<Rightarrow> CountingSink \<Rightarrow> (Accepted \<times> CountingSink) option" where
  "counting_accept pcm c =
     (if \<not> is_valid_s16le_pcm pcm then Some (Enqueued, c)
      else Some (Enqueued, c\<lparr>cs_frames := cs_frames c + 1,
             cs_samples := cs_samples c + of_nat (length pcm div 2),
             cs_log_countdown := snd (tick (cs_log_countdown c))\<rparr>))"

definition counting_end_of_audio :: "CountingSink \<Rightarrow> CountingSink" where
  "counting_end_of_audio c = c\<lparr>cs_end_of_audio_marks := cs_end_of_audio_marks c + 1\<rparr>"

definition counting_flush_playback :: "CountingSink \<Rightarrow> CountingSink" where
  "counting_flush_playback c = c\<lparr>cs_flushes := cs_flushes c + 1\<rparr>"

definition CountingSink_ops :: "CountingSink PlaybackSink" where
  "CountingSink_ops = \<lparr>op_accept = counting_accept, op_end_of_audio = counting_end_of_audio,
     op_flush_playback = counting_flush_playback, op_stream_reset = (\<lambda>c. c)\<rparr>"

text \<open>The delegating sink: the inner sink's state and the count of \<open>Full\<close> results.\<close>

definition stall_counting_accept ::
  "'s PlaybackSink \<Rightarrow> bytes \<Rightarrow> 's \<times> u32 \<Rightarrow> (Accepted \<times> 's \<times> u32) option" where
  "stall_counting_accept inner pcm s =
     (case op_accept inner pcm (fst s) of
        None \<Rightarrow> None
      | Some (outcome, s') \<Rightarrow>
          Some (outcome, s', if outcome = Full then snd s + 1 else snd s))"

definition stall_counting_ops :: "'s PlaybackSink \<Rightarrow> ('s \<times> u32) PlaybackSink" where
  "stall_counting_ops inner =
     \<lparr>op_accept = stall_counting_accept inner,
      op_end_of_audio = (\<lambda>s. (op_end_of_audio inner (fst s), snd s)),
      op_flush_playback = (\<lambda>s. (op_flush_playback inner (fst s), snd s)),
      op_stream_reset = (\<lambda>s. (op_stream_reset inner (fst s), snd s))\<rparr>"

definition FAKE_DAC_FRAME_DUR :: nat where
  "FAKE_DAC_FRAME_DUR = from_millis 20"

definition FAKE_DAC_PREROLL_FRAMES :: nat where
  "FAKE_DAC_PREROLL_FRAMES = PLAYBACK_PREROLL_TARGET_BYTES div INBOUND_PCM_WRITE_UNIT_BYTES"

definition FAKE_DAC_QUEUE_FRAMES :: nat where
  "FAKE_DAC_QUEUE_FRAMES = INBOUND_PCM_RING_BYTES div INBOUND_PCM_WRITE_UNIT_BYTES"

record FakeDacSink =
  fd_play_end :: "instant option"
  fd_preroll_pending :: nat
  fd_playout_started :: bool
  fd_consumed :: u32
  fd_underruns :: u32
  fd_total_gap :: nat

definition FakeDacSink_new :: FakeDacSink where
  "FakeDacSink_new = \<lparr>fd_play_end = None, fd_preroll_pending = 0, fd_playout_started = False,
     fd_consumed = 0, fd_underruns = 0, fd_total_gap = 0\<rparr>"

definition fake_dac_accept_at :: "instant \<Rightarrow> bytes \<Rightarrow> FakeDacSink \<Rightarrow> (Accepted \<times> FakeDacSink) option" where
  "fake_dac_accept_at now pcm d =
     (if \<not> is_valid_s16le_pcm pcm then Some (Enqueued, d)
      else if (case fd_play_end d of
                 Some pe \<Rightarrow> FAKE_DAC_QUEUE_FRAMES * FAKE_DAC_FRAME_DUR \<le> pe - now
               | None \<Rightarrow> False) then Some (Full, d)
      else
        let d1 = d\<lparr>fd_consumed := fd_consumed d + 1\<rparr> in
        if \<not> fd_playout_started d1 then
          let d2 = d1\<lparr>fd_preroll_pending := fd_preroll_pending d1 + 1\<rparr> in
          if FAKE_DAC_PREROLL_FRAMES \<le> fd_preroll_pending d2
          then Some (Enqueued, d2\<lparr>fd_playout_started := True,
                 fd_play_end := Some (now + FAKE_DAC_FRAME_DUR * fd_preroll_pending d2)\<rparr>)
          else Some (Enqueued, d2)
        else
          case fd_play_end d1 of
            None \<Rightarrow> None
          | Some pe \<Rightarrow>
              if pe < now
              then Some (Enqueued, d1\<lparr>fd_underruns := fd_underruns d1 + 1,
                     fd_total_gap := fd_total_gap d1 + (now - pe),
                     fd_play_end := Some (now + FAKE_DAC_FRAME_DUR)\<rparr>)
              else Some (Enqueued, d1\<lparr>fd_play_end := Some (pe + FAKE_DAC_FRAME_DUR)\<rparr>))"

text \<open>The sink at one reading of the clock; the other operations keep the trait's empty bodies.\<close>

definition FakeDacSink_ops :: "instant \<Rightarrow> FakeDacSink PlaybackSink" where
  "FakeDacSink_ops now = \<lparr>op_accept = fake_dac_accept_at now, op_end_of_audio = (\<lambda>d. d),
     op_flush_playback = (\<lambda>d. d), op_stream_reset = (\<lambda>d. d)\<rparr>"

section \<open>Reassembly\<close>

text \<open>What the reassembly loop updates besides the accumulator.\<close>

record 's route =
  rt_sink :: 's
  rt_conn :: InboundConnectionState
  rt_obs :: "observed list"

definition invalid_data :: "string \<Rightarrow> io_error" where
  "invalid_data msg = IoError InvalidDataKind msg"

definition note_frame :: "'s route \<Rightarrow> 's route" where
  "note_frame rt =
     (let k = ic_inbound_frames (rt_conn rt) + 1;
          rt1 = rt\<lparr>rt_conn := (rt_conn rt)\<lparr>ic_inbound_frames := k\<rparr>\<rparr>
      in if k = 1 \<or> k mod 10 = 0 then rt1\<lparr>rt_obs := rt_obs rt1 @ [Waypoint Periodic k]\<rparr> else rt1)"

text \<open>
  One arm of the loop's match: \<open>Inl\<close> a fault that drops the connection, \<open>Inr None\<close> a refused
  frame that stays buffered, \<open>Inr (Some n)\<close> the frame is done and \<open>n\<close> frames are routed.
\<close>

definition route_frame ::
  "'s PlaybackSink \<Rightarrow> u32 \<Rightarrow> DecodeError + InboundFrame \<Rightarrow> 's route \<Rightarrow> ((io_error + u32 option) \<times> 's route) option" where
  "route_frame ops frames_decoded decoded rt =
     (case decoded of
        Inr (InAudio _ _ _ pcm) \<Rightarrow>
          if \<not> ic_seen_hello (rt_conn rt)
          then Some (Inl (invalid_data ''inbound Audio before Hello''), rt)
          else (case op_accept ops pcm (rt_sink rt) of
                  None \<Rightarrow> None
                | Some (Full, s') \<Rightarrow> Some (Inr None, rt\<lparr>rt_sink := s'\<rparr>)
                | Some (Enqueued, s') \<Rightarrow>
                    Some (Inr (Some (frames_decoded + 1)), note_frame (rt\<lparr>rt_sink := s'\<rparr>)))
      | Inr (InHello version sample_rate_hz bits_per_sample channels codec) \<Rightarrow>
          if version \<noteq> AUDIO_PROTOCOL_VERSION
          then Some (Inl (invalid_data ''inbound Hello protocol version mismatch: device v''), rt)
          else
            let rt1 = rt\<lparr>rt_conn := (rt_conn rt)\<lparr>ic_seen_hello := True\<rparr>\<rparr>;
                declared = \<lparr>pf_sample_rate_hz = sample_rate_hz, pf_bits_per_sample = bits_per_sample,
                            pf_channels = channels, pf_codec = codec\<rparr>
            in (case check_inbound_format DEVICE_PLAYBACK_FORMAT declared of
                  Match \<Rightarrow> Some (Inr (Some frames_decoded), rt1\<lparr>rt_obs := rt_obs rt1 @ [HelloOk declared]\<rparr>)
                | Mismatch _ _ _ \<Rightarrow> Some (Inl (invalid_data ''inbound Hello format mismatch on ''), rt1))
      | Inr InEndOfAudio \<Rightarrow>
          if \<not> ic_seen_hello (rt_conn rt)
          then Some (Inl (invalid_data ''inbound EndOfAudio before Hello''), rt)
          else Some (Inr (Some frames_decoded), rt\<lparr>rt_sink := op_end_of_audio ops (rt_sink rt)\<rparr>)
      | Inr InFlush \<Rightarrow>
          if \<not> ic_seen_hello (rt_conn rt)
          then Some (Inl (invalid_data ''inbound Flush before Hello''), rt)
          else Some (Inr (Some frames_decoded), rt\<lparr>rt_sink := op_flush_playback ops (rt_sink rt)\<rparr>)
      | Inr (InOther _) \<Rightarrow> Some (Inr (Some frames_decoded), rt)
      | Inl (OversizePcm _) \<Rightarrow> Some (Inl (invalid_data ''inbound decode: oversize pcm run ''), rt)
      | Inl _ \<Rightarrow> Some (Inl (invalid_data ''inbound decode error: ''), rt))"

function consume_loop ::
  "postcard \<Rightarrow> 's PlaybackSink \<Rightarrow> u32 \<Rightarrow> FrameAccumulator \<Rightarrow> 's route \<Rightarrow>
     ((io_error + u32) \<times> FrameAccumulator \<times> 's route) option" where
  "consume_loop pc ops frames_decoded acc rt =
     (if fa_valid acc < 2 then Some (Inr frames_decoded, acc, rt)
      else
        let payload_len = fa_payload_len acc in
        if MAX_FRAME_BYTES < payload_len
        then Some (Inl (invalid_data ''inbound frame: length prefix exceeds MAX_FRAME_BYTES''), fa_reset acc, rt)
        else
          let frame_len = 2 + payload_len in
          if fa_valid acc < frame_len then Some (Inr frames_decoded, acc, rt)
          else
            case route_frame ops frames_decoded (decode_inbound pc (take frame_len (fa_buf acc))) rt of
              None \<Rightarrow> None
            | Some (Inl e, rt') \<Rightarrow> Some (Inl e, fa_reset acc, rt')
            | Some (Inr None, rt') \<Rightarrow> Some (Inr frames_decoded, acc, rt')
            | Some (Inr (Some n), rt') \<Rightarrow> consume_loop pc ops n (fa_compact frame_len acc) rt')"
  by pat_completeness auto
termination
  by (relation "measure (\<lambda>(pc, ops, n, acc, rt). fa_valid acc)") (auto simp: fa_compact_def)

declare consume_loop.simps [simp del]

definition consume_frames ::
  "postcard \<Rightarrow> 's PlaybackSink \<Rightarrow> FrameAccumulator \<Rightarrow> 's route \<Rightarrow>
     ((io_error + u32) \<times> FrameAccumulator \<times> 's route) option" where
  "consume_frames pc ops acc rt = consume_loop pc ops 0 acc rt"

section \<open>Drain and pump\<close>

datatype read_result = ReadOk bytes | ReadErr io_error

record DrainOutcome =
  do_bytes_read :: nat
  do_frames_routed :: u32

definition made_progress :: "DrainOutcome \<Rightarrow> bool" where
  "made_progress d \<longleftrightarrow> 0 < do_bytes_read d \<or> 0 < do_frames_routed d"

type_synonym 'r reader = "nat \<Rightarrow> 'r \<Rightarrow> read_result \<times> 'r"

definition drain_finish ::
  "postcard \<Rightarrow> 's PlaybackSink \<Rightarrow> nat \<Rightarrow> 'r \<Rightarrow> FrameAccumulator \<Rightarrow> 's route \<Rightarrow>
     ((io_error + DrainOutcome) \<times> 'r \<times> FrameAccumulator \<times> 's route) option" where
  "drain_finish pc ops bytes_read r acc rt =
     (case consume_frames pc ops acc rt of
        None \<Rightarrow> None
      | Some (Inl e, acc', rt') \<Rightarrow> Some (Inl e, r, acc', rt')
      | Some (Inr n, acc', rt') \<Rightarrow>
          Some (Inr \<lparr>do_bytes_read = bytes_read, do_frames_routed = n\<rparr>, r, acc', rt'))"

definition drain_inbound ::
  "postcard \<Rightarrow> 's PlaybackSink \<Rightarrow> 'r reader \<Rightarrow> 'r \<Rightarrow> FrameAccumulator \<Rightarrow> 's route \<Rightarrow>
     ((io_error + DrainOutcome) \<times> 'r \<times> FrameAccumulator \<times> 's route) option" where
  "drain_inbound pc ops rd r acc rt =
     (if length (fa_buf acc) \<le> fa_valid acc then drain_finish pc ops 0 r acc rt
      else
        (case rd (length (fa_buf acc) - fa_valid acc) r of
           (ReadOk [], r') \<Rightarrow> Some (Inl (IoError UnexpectedEofKind ''inbound EOF (peer disconnected)''), r', acc, rt)
         | (ReadOk bs, r') \<Rightarrow>
             drain_finish pc ops (length bs) r'
               (acc\<lparr>fa_buf := splice_at (fa_buf acc) (fa_valid acc) bs,
                    fa_valid := fa_valid acc + length bs\<rparr>) rt
         | (ReadErr e, r') \<Rightarrow>
             if transient_kind (kind e) then drain_finish pc ops 0 r' acc rt
             else Some (Inl e, r', acc, rt)))"

fun pump_inbound ::
  "postcard \<Rightarrow> 's PlaybackSink \<Rightarrow> 'r reader \<Rightarrow> nat \<Rightarrow> 'r \<Rightarrow> FrameAccumulator \<Rightarrow> 's route \<Rightarrow>
     ((io_error + bool) \<times> 'r \<times> FrameAccumulator \<times> 's route) option" where
  "pump_inbound pc ops rd 0 r acc rt = Some (Inr True, r, acc, rt)"
| "pump_inbound pc ops rd (Suc max_steps) r acc rt =
     (case drain_inbound pc ops rd r acc rt of
        None \<Rightarrow> None
      | Some (Inl e, r', acc', rt') \<Rightarrow> Some (Inl e, r', acc', rt')
      | Some (Inr d, r', acc', rt') \<Rightarrow>
          if \<not> made_progress d then Some (Inr False, r', acc', rt')
          else pump_inbound pc ops rd max_steps r' acc' rt')"

definition note_inbound_exit :: "'s route \<Rightarrow> 's route" where
  "note_inbound_exit rt =
     (if ic_seen_hello (rt_conn rt)
      then rt\<lparr>rt_obs := rt_obs rt @ [Waypoint Exit (ic_inbound_frames (rt_conn rt))]\<rparr> else rt)"

section \<open>The byte-stream specification of reassembly\<close>

text \<open>
  The accumulator is a window on the byte stream: what it holds is \<open>pending\<close>. The
  specification \<open>consume_bytes\<close> works on that byte list alone; the buffer, the write cursor
  and the compaction disappear.
\<close>

definition acc_ok :: "FrameAccumulator \<Rightarrow> bool" where
  "acc_ok acc \<longleftrightarrow> length (fa_buf acc) = MAX_FRAME_BYTES + 2 \<and> fa_valid acc \<le> MAX_FRAME_BYTES + 2"

definition pending :: "FrameAccumulator \<Rightarrow> bytes" where
  "pending acc = take (fa_valid acc) (fa_buf acc)"

definition prefix_len :: "bytes \<Rightarrow> nat" where
  "prefix_len bs = unat (u16_from_le_bytes (bs ! 0) (bs ! 1))"

function consume_bytes ::
  "postcard \<Rightarrow> 's PlaybackSink \<Rightarrow> u32 \<Rightarrow> bytes \<Rightarrow> 's route \<Rightarrow>
     ((io_error + u32) \<times> bytes \<times> 's route) option" where
  "consume_bytes pc ops n bs rt =
     (if length bs < 2 then Some (Inr n, bs, rt)
      else if MAX_FRAME_BYTES < prefix_len bs
      then Some (Inl (invalid_data ''inbound frame: length prefix exceeds MAX_FRAME_BYTES''), [], rt)
      else if length bs < 2 + prefix_len bs then Some (Inr n, bs, rt)
      else case route_frame ops n (decode_inbound pc (take (2 + prefix_len bs) bs)) rt of
             None \<Rightarrow> None
           | Some (Inl e, rt') \<Rightarrow> Some (Inl e, [], rt')
           | Some (Inr None, rt') \<Rightarrow> Some (Inr n, bs, rt')
           | Some (Inr (Some n'), rt') \<Rightarrow> consume_bytes pc ops n' (drop (2 + prefix_len bs) bs) rt')"
  by pat_completeness auto
termination
  by (relation "measure (\<lambda>(pc, ops, n, bs, rt). length bs)") auto

declare consume_bytes.simps [simp del]

lemma acc_ok_new: "acc_ok FrameAccumulator_new"
  by (simp add: acc_ok_def FrameAccumulator_new_def)

lemma acc_ok_reset [simp]: "acc_ok acc \<Longrightarrow> acc_ok (fa_reset acc)"
  by (simp add: acc_ok_def fa_reset_def)

lemma pending_new [simp]: "pending FrameAccumulator_new = []"
  by (simp add: pending_def FrameAccumulator_new_def)

lemma pending_reset [simp]: "pending (fa_reset acc) = []"
  by (simp add: pending_def fa_reset_def)

lemma length_pending: "acc_ok acc \<Longrightarrow> length (pending acc) = fa_valid acc"
  by (simp add: pending_def acc_ok_def)

lemma compact_facts:
  assumes "acc_ok acc" "k \<le> fa_valid acc"
  shows "acc_ok (fa_compact k acc)" "pending (fa_compact k acc) = drop k (pending acc)"
  using assms by (auto simp: acc_ok_def fa_compact_def splice_at_def pending_def drop_take)

lemma prefix_len_pending:
  "acc_ok acc \<Longrightarrow> 2 \<le> fa_valid acc \<Longrightarrow> prefix_len (pending acc) = fa_payload_len acc"
  by (simp add: prefix_len_def pending_def fa_payload_len_def)

text \<open>The result of an accumulator-level call, seen on the byte stream.\<close>

definition abs_result :: "('e \<times> FrameAccumulator \<times> 'r) option \<Rightarrow> ('e \<times> bytes \<times> 'r) option" where
  "abs_result = map_option (\<lambda>(r, acc, rt). (r, pending acc, rt))"

lemma abs_result_simps [simp]:
  "abs_result None = None" "abs_result (Some (r, acc, rt)) = Some (r, pending acc, rt)"
  by (simp_all add: abs_result_def)

lemma consume_loop_refines:
  assumes "acc_ok acc"
  shows "abs_result (consume_loop pc ops n acc rt) = consume_bytes pc ops n (pending acc) rt"
  using assms
proof (induction pc ops n acc rt rule: consume_loop.induct)
  case (1 pc ops n acc rt)
  let ?k = "2 + fa_payload_len acc"
  show ?case
  proof (cases "2 \<le> fa_valid acc \<and> fa_payload_len acc \<le> MAX_FRAME_BYTES \<and> ?k \<le> fa_valid acc")
    case False
    with 1(2) show ?thesis
      by (subst consume_loop.simps, subst consume_bytes.simps)
        (auto simp: Let_def length_pending prefix_len_pending)
  next
    case True
    then have frame: "take ?k (pending acc) = take ?k (fa_buf acc)"
      by (simp add: pending_def min_def)
    have IH: "abs_result (consume_loop pc ops n' (fa_compact ?k acc) rt')
        = consume_bytes pc ops n' (drop ?k (pending acc)) rt'"
      if "route_frame ops n (decode_inbound pc (take ?k (fa_buf acc))) rt = Some (Inr (Some n'), rt')" for n' rt'
      using 1(1) [OF _ refl _ refl _ that refl refl refl, simplified] True 1(2) compact_facts [of acc ?k] by simp
    show ?thesis
      using True 1(2) IH
      by (subst consume_loop.simps, subst consume_bytes.simps)
        (auto simp: Let_def length_pending prefix_len_pending frame [simplified] split: option.splits sum.splits)
  qed
qed

lemma consume_loop_acc_ok:
  "acc_ok acc \<Longrightarrow> consume_loop pc ops n acc rt = Some (r, acc', rt') \<Longrightarrow> acc_ok acc'"
proof (induction pc ops n acc rt rule: consume_loop.induct)
  case (1 pc ops n acc rt)
  then show ?case
    by (subst (asm) (2) consume_loop.simps)
      (auto simp: Let_def compact_facts split: if_splits option.splits sum.splits)
qed

section \<open>Fragmentation\<close>

text \<open>A stream head that is a complete frame of acceptable length.\<close>

definition frame_ready :: "bytes \<Rightarrow> bool" where
  "frame_ready bs \<longleftrightarrow> 2 \<le> length bs \<and> prefix_len bs \<le> MAX_FRAME_BYTES \<and> 2 + prefix_len bs \<le> length bs"

lemma prefix_len_append [simp]: "2 \<le> length bs \<Longrightarrow> prefix_len (bs @ cs) = prefix_len bs"
  by (auto simp: prefix_len_def nth_append)

lemma consume_bytes_stop:
  "\<not> frame_ready bs \<Longrightarrow> \<not> (2 \<le> length bs \<and> MAX_FRAME_BYTES < prefix_len bs) \<Longrightarrow>
     consume_bytes pc ops n bs rt = Some (Inr n, bs, rt)"
  by (subst consume_bytes.simps) (auto simp: frame_ready_def)

lemma consume_bytes_oversize:
  "2 \<le> length bs \<Longrightarrow> MAX_FRAME_BYTES < prefix_len bs \<Longrightarrow> consume_bytes pc ops n bs rt =
     Some (Inl (invalid_data ''inbound frame: length prefix exceeds MAX_FRAME_BYTES''), [], rt)"
  by (subst consume_bytes.simps) auto

lemma consume_bytes_ready:
  "frame_ready bs \<Longrightarrow> consume_bytes pc ops n bs rt =
     (case route_frame ops n (decode_inbound pc (take (2 + prefix_len bs) bs)) rt of
        None \<Rightarrow> None
      | Some (Inl e, rt') \<Rightarrow> Some (Inl e, [], rt')
      | Some (Inr None, rt') \<Rightarrow> Some (Inr n, bs, rt')
      | Some (Inr (Some n'), rt') \<Rightarrow> consume_bytes pc ops n' (drop (2 + prefix_len bs) bs) rt')"
  by (subst consume_bytes.simps) (auto simp: frame_ready_def)

lemma frame_ready_append:
  "frame_ready xs \<Longrightarrow> frame_ready (xs @ ys)"
  "frame_ready xs \<Longrightarrow> take (2 + prefix_len xs) (xs @ ys) = take (2 + prefix_len xs) xs"
  "frame_ready xs \<Longrightarrow> drop (2 + prefix_len xs) (xs @ ys) = drop (2 + prefix_len xs) xs @ ys"
  by (auto simp: frame_ready_def)

text \<open>
  Consuming a stream in two parts: a fault in the first part is the fault of the whole; a
  frame the sink refused is still at the head; otherwise the rest continues where the
  first part stopped.
\<close>

lemma consume_bytes_append:
  "consume_bytes pc ops n (xs @ ys) rt =
     (case consume_bytes pc ops n xs rt of
        None \<Rightarrow> None
      | Some (Inl e, rem, rt') \<Rightarrow> Some (Inl e, rem, rt')
      | Some (Inr m, rem, rt') \<Rightarrow>
          if frame_ready rem then Some (Inr m, rem @ ys, rt')
          else consume_bytes pc ops m (rem @ ys) rt')"
proof (induction pc ops n xs rt rule: consume_bytes.induct)
  case (1 pc ops n xs rt)
  show ?case
  proof (cases "frame_ready xs")
    case ready: True
    let ?k = "2 + prefix_len xs"
    have IH: "consume_bytes pc ops n' (drop ?k xs @ ys) rt' =
       (case consume_bytes pc ops n' (drop ?k xs) rt' of
          None \<Rightarrow> None
        | Some (Inl e, rem, rt') \<Rightarrow> Some (Inl e, rem, rt')
        | Some (Inr m, rem, rt') \<Rightarrow>
            if frame_ready rem then Some (Inr m, rem @ ys, rt')
            else consume_bytes pc ops m (rem @ ys) rt')"
      if "route_frame ops n (decode_inbound pc (take ?k xs)) rt = Some (Inr (Some n'), rt')" for n' rt'
      using 1 [OF _ _ _ that refl refl refl] ready by (simp add: frame_ready_def)
    have "prefix_len (xs @ ys) = prefix_len xs" using ready by (simp add: frame_ready_def)
    then show ?thesis
      using ready IH
      by (simp only: consume_bytes_ready frame_ready_append)
        (auto split: option.splits sum.splits)
  next
    case False
    then show ?thesis
      by (cases "2 \<le> length xs \<and> MAX_FRAME_BYTES < prefix_len xs")
        (simp_all add: consume_bytes_oversize consume_bytes_stop)
  qed
qed

section \<open>Invariants of the reassembly loop\<close>

text \<open>What one frame does, any loop over frames does: the induction is made once.\<close>

lemma consume_bytes_invariant:
  assumes "consume_bytes pc ops n bs rt = Some (r, rem, rt')" "P n bs rt"
    and fault: "\<And>n bs rt e rt'. P n bs rt \<Longrightarrow> frame_ready bs \<Longrightarrow>
      route_frame ops n (decode_inbound pc (take (2 + prefix_len bs) bs)) rt = Some (Inl e, rt') \<Longrightarrow> Q (Inl e) [] rt'"
    and oversize: "\<And>n bs rt. P n bs rt \<Longrightarrow> 2 \<le> length bs \<Longrightarrow> MAX_FRAME_BYTES < prefix_len bs \<Longrightarrow>
      Q (Inl (invalid_data ''inbound frame: length prefix exceeds MAX_FRAME_BYTES'')) [] rt"
    and held: "\<And>n bs rt rt'. P n bs rt \<Longrightarrow> frame_ready bs \<Longrightarrow>
      route_frame ops n (decode_inbound pc (take (2 + prefix_len bs) bs)) rt = Some (Inr None, rt') \<Longrightarrow> Q (Inr n) bs rt'"
    and stop: "\<And>n bs rt. P n bs rt \<Longrightarrow> \<not> frame_ready bs \<Longrightarrow>
      (2 \<le> length bs \<Longrightarrow> prefix_len bs \<le> MAX_FRAME_BYTES) \<Longrightarrow> Q (Inr n) bs rt"
    and step: "\<And>n bs rt n' rt'. P n bs rt \<Longrightarrow> frame_ready bs \<Longrightarrow>
      route_frame ops n (decode_inbound pc (take (2 + prefix_len bs) bs)) rt = Some (Inr (Some n'), rt') \<Longrightarrow>
      P n' (drop (2 + prefix_len bs) bs) rt'"
  shows "Q r rem rt'"
  using assms(1,2)
proof (induction pc\<equiv>pc ops\<equiv>ops n bs rt rule: consume_bytes.induct)
  case (1 n bs rt)
  show ?case
  proof (cases "frame_ready bs")
    case ready: True
    then have c: "\<not> length bs < 2" "\<not> MAX_FRAME_BYTES < prefix_len bs" "\<not> length bs < 2 + prefix_len bs"
      by (auto simp: frame_ready_def)
    show ?thesis
      using 1(2) fault [OF 1(3) ready] held [OF 1(3) ready] step [OF 1(3) ready]
        1(1) [OF c _ refl refl refl]
      by (auto simp: consume_bytes_ready [OF ready] split: option.splits sum.splits)
  next
    case False
    show ?thesis
      using 1(2) stop [OF 1(3) False] oversize [OF 1(3)] False
      by (cases "2 \<le> length bs \<and> MAX_FRAME_BYTES < prefix_len bs")
        (auto simp: consume_bytes_oversize consume_bytes_stop)
  qed
qed

section \<open>Handshake\<close>

lemma note_frame_simps [simp]:
  "rt_sink (note_frame rt) = rt_sink rt"
  "ic_seen_hello (rt_conn (note_frame rt)) = ic_seen_hello (rt_conn rt)"
  "t \<in> set (rt_obs rt) \<Longrightarrow> t \<in> set (rt_obs (note_frame (rt\<lparr>rt_sink := s\<rparr>)))"
  by (auto simp: note_frame_def Let_def)

lemma device_format_eq:
  "check_inbound_format DEVICE_PLAYBACK_FORMAT f = Match \<Longrightarrow> f = DEVICE_PLAYBACK_FORMAT"
  by (cases f) (simp add: check_inbound_format_def DEVICE_PLAYBACK_FORMAT_def split: if_splits)

section \<open>Every frame that left the accumulator reached the sink\<close>

text \<open>The PCM a sink banks for one frame: the payload of a well-formed Audio frame.\<close>

definition frame_pcm :: "postcard \<Rightarrow> bytes \<Rightarrow> bytes" where
  "frame_pcm pc frame =
     (case decode_inbound pc frame of
        Inr (InAudio _ _ _ pcm) \<Rightarrow> if is_valid_s16le_pcm pcm then pcm else []
      | _ \<Rightarrow> [])"

definition whole_frame :: "bytes \<Rightarrow> bool" where
  "whole_frame f \<longleftrightarrow> frame_ready f \<and> length f = 2 + prefix_len f"

lemma whole_frame_take: "frame_ready bs \<Longrightarrow> whole_frame (take (2 + prefix_len bs) bs)"
  by (auto simp: whole_frame_def frame_ready_def prefix_len_def)

context playback_sink
begin

lemma route_frame_total:
  assumes "ok (rt_sink rt)"
  shows "\<exists>r rt'. route_frame sink n (decode_inbound pc buf) rt = Some (r, rt') \<and> ok (rt_sink rt')"
proof (cases "decode_inbound pc buf")
  case (Inl e)
  then show ?thesis using assms by (cases e) (simp_all add: route_frame_def)
next
  case (Inr f)
  show ?thesis
  proof (cases f)
    case (InAudio sid idx ts pcm)
    then obtain a s' where "op_accept sink pcm (rt_sink rt) = Some (a, s')" "ok s'"
      using accept_total [OF assms decode_inbound_pcm_bound] Inr by blast
    then show ?thesis using InAudio Inr assms
      by (cases a) (simp_all add: route_frame_def)
  qed (use Inr assms in \<open>auto simp: route_frame_def Let_def end_of_audio_ok flush_playback_ok split: FormatCheck.splits\<close>)
qed

lemma consume_bytes_total:
  "ok (rt_sink rt) \<Longrightarrow> \<exists>r rem rt'. consume_bytes pc sink n bs rt = Some (r, rem, rt') \<and> ok (rt_sink rt')"
proof (induction bs arbitrary: n rt rule: length_induct)
  case (1 bs)
  show ?case
  proof (cases "frame_ready bs")
    case ready: True
    have "length (drop (2 + prefix_len bs) bs) < length bs" using ready by (auto simp: frame_ready_def)
    moreover obtain r rt' where "route_frame sink n (decode_inbound pc (take (2 + prefix_len bs) bs)) rt
        = Some (r, rt')" "ok (rt_sink rt')"
      using route_frame_total [OF 1(2)] by blast
    ultimately show ?thesis using 1(1)
      by (auto simp: consume_bytes_ready [OF ready] split: sum.splits option.splits)
  next
    case False
    then show ?thesis using 1(2)
      by (cases "2 \<le> length bs \<and> MAX_FRAME_BYTES < prefix_len bs")
        (auto simp: consume_bytes_oversize consume_bytes_stop)
  qed
qed

lemma consume_frames_total:
  assumes "acc_ok acc" "ok (rt_sink rt)"
  shows "\<exists>r acc' rt'. consume_frames pc sink acc rt = Some (r, acc', rt') \<and> acc_ok acc' \<and> ok (rt_sink rt')"
  using consume_bytes_total [OF assms(2), of pc 0 "pending acc"] consume_loop_acc_ok [OF assms(1)]
    consume_loop_refines [OF assms(1), of pc sink 0 rt]
  unfolding consume_frames_def by (fastforce simp: abs_result_def)

end

context banking_sink
begin

lemma route_frame_banked:
  assumes "ok (rt_sink rt)" "route_frame sink n (decode_inbound pc f) rt = Some (r, rt')"
  shows "banked (rt_sink rt') = banked (rt_sink rt) @
      (if \<exists>m. r = Inr (Some m) then frame_pcm pc f else [])"
proof (cases "decode_inbound pc f")
  case (Inl e)
  then show ?thesis using assms by (cases e) (auto simp: route_frame_def frame_pcm_def)
next
  case (Inr fr)
  show ?thesis
  proof (cases fr)
    case (InAudio sid idx ts pcm)
    then have "length pcm \<le> MAX_AUDIO_PAYLOAD" using Inr decode_inbound_pcm_bound by blast
    then show ?thesis using assms InAudio Inr accept_banked [OF assms(1), of pcm]
      by (auto simp: route_frame_def frame_pcm_def split: if_splits option.splits Accepted.splits)
  qed (use Inr assms end_of_audio_banked flush_banked in
      \<open>auto simp: route_frame_def frame_pcm_def Let_def split: FormatCheck.splits if_splits\<close>)
qed

lemma consume_bytes_banked:
  assumes "ok (rt_sink rt)" "consume_bytes pc sink n bs rt = Some (r, rem, rt')"
  shows "\<exists>fs suf. (\<forall>f\<in>set fs. whole_frame f) \<and> bs = concat fs @ suf \<and>
      banked (rt_sink rt') = banked (rt_sink rt) @ concat (map (frame_pcm pc) fs) \<and>
      rem = (case r of Inr _ \<Rightarrow> suf | Inl _ \<Rightarrow> [])"
proof -
  let ?P = "\<lambda>(n::u32) suf rt1. ok (rt_sink rt1) \<and> (\<exists>fs. (\<forall>f\<in>set fs. whole_frame f) \<and> bs = concat fs @ suf \<and>
      banked (rt_sink rt1) = banked (rt_sink rt) @ concat (map (frame_pcm pc) fs))"
  let ?Q = "\<lambda>r rem rt1. \<exists>fs suf. (\<forall>f\<in>set fs. whole_frame f) \<and> bs = concat fs @ suf \<and>
      banked (rt_sink rt1) = banked (rt_sink rt) @ concat (map (frame_pcm pc) fs) \<and>
      rem = (case r of Inr _ \<Rightarrow> suf | Inl _ \<Rightarrow> [])"
  have init: "?P n bs rt" using assms(1) by (auto intro!: exI [of _ "[]"])
  have same: "banked (rt_sink rt2) = banked (rt_sink rt1)"
    if "?P n b rt1" "route_frame sink n (decode_inbound pc f) rt1 = Some (r, rt2)" "\<nexists>m. r = Inr (Some m)"
    for n b rt1 f r rt2
    using that route_frame_banked by auto
  have step: "?P n' (drop (2 + prefix_len b) b) rt2"
    if P: "?P m b rt1" and ready: "frame_ready b"
      and r: "route_frame sink m (decode_inbound pc (take (2 + prefix_len b) b)) rt1 = Some (Inr (Some n'), rt2)"
    for m b rt1 n' rt2
  proof -
    let ?f = "take (2 + prefix_len b) b"
    obtain fs where fs: "\<forall>f\<in>set fs. whole_frame f" "bs = concat fs @ b"
      "banked (rt_sink rt1) = banked (rt_sink rt) @ concat (map (frame_pcm pc) fs)" using P by blast
    have "ok (rt_sink rt2)" using route_frame_total [of rt1 m pc ?f] P r by auto
    moreover have "banked (rt_sink rt2) = banked (rt_sink rt1) @ frame_pcm pc ?f"
      using route_frame_banked [OF _ r] P by auto
    ultimately show ?thesis using fs whole_frame_take [OF ready]
      by (intro conjI exI [of _ "fs @ [?f]"]) auto
  qed
  have weaken: "?Q r (case r of Inr _ \<Rightarrow> b | Inl _ \<Rightarrow> []) rt2"
    if "?P m b rt1" "banked (rt_sink rt2) = banked (rt_sink rt1)" for m b rt1 rt2 and r :: "io_error + u32"
    using that by (metis (no_types, lifting))
  show ?thesis
  proof (rule consume_bytes_invariant [where P = ?P and Q = ?Q, OF assms(2) init _ _ _ _ step], goal_cases)
    case (1 m b rt1 e rt2)
    then show ?case using weaken [OF 1(1) same [OF 1(1,3)], of "Inl e"] by simp
  next
    case (2 m b rt1)
    then show ?case using weaken [OF 2(1) refl, of "Inl _"] by simp
  next
    case (3 m b rt1 rt2)
    then show ?case using weaken [OF 3(1) same [OF 3(1,3)], of "Inr m"] by simp
  next
    case (4 m b rt1)
    then show ?case using weaken [OF 4(1) refl, of "Inr m"] by simp
  qed
qed

end

section \<open>Room, drain and pump\<close>

text \<open>
  Bytes on which the loop stops for want of more input: neither a complete frame nor an
  oversize prefix.
\<close>

definition stalled :: "bytes \<Rightarrow> bool" where
  "stalled bs \<longleftrightarrow> \<not> frame_ready bs \<and> (2 \<le> length bs \<longrightarrow> prefix_len bs \<le> MAX_FRAME_BYTES)"

lemma stalled_length: "stalled bs \<Longrightarrow> length bs < MAX_FRAME_BYTES + 2"
  by (auto simp: stalled_def frame_ready_def MAX_FRAME_BYTES_def)

lemma stalled_Nil [simp]: "stalled []"
  by (simp add: stalled_def frame_ready_def)

lemma consume_stalled: "stalled bs \<Longrightarrow> consume_bytes pc ops n bs rt = Some (Inr n, bs, rt)"
  by (intro consume_bytes_stop) (auto simp: stalled_def)

lemma consume_bytes_leaves:
  assumes "consume_bytes pc ops n bs rt = Some (Inr m, rem, rt')"
  shows "stalled rem \<or> frame_ready rem"
  using consume_bytes_invariant [where P = "\<lambda>_ _ _. True"
      and Q = "\<lambda>r rem rt. \<forall>m. r = Inr m \<longrightarrow> stalled rem \<or> frame_ready rem", OF assms]
  by (auto simp: stalled_def)

definition never_full :: "'s PlaybackSink \<Rightarrow> bool" where
  "never_full ops \<longleftrightarrow> (\<forall>pcm s a s'. op_accept ops pcm s = Some (a, s') \<longrightarrow> a = Enqueued)"

lemma route_frame_never_full:
  "never_full ops \<Longrightarrow> route_frame ops n d rt \<noteq> Some (Inr None, rt')"
  by (auto simp: route_frame_def never_full_def Let_def
      split: sum.splits InboundFrame.splits DecodeError.splits if_splits option.splits Accepted.splits
        FormatCheck.splits)

lemma consume_bytes_never_full:
  assumes "never_full ops" "consume_bytes pc ops n bs rt = Some (Inr m, rem, rt')"
  shows "stalled rem"
  using consume_bytes_invariant [where P = "\<lambda>_ _ _. True"
      and Q = "\<lambda>r rem rt. \<forall>m. r = Inr m \<longrightarrow> stalled rem", OF assms(2)]
  by (auto simp: stalled_def route_frame_never_full [OF assms(1)])

lemma full_not_stalled:
  assumes "acc_ok acc" "\<not> inbound_has_room acc"
  shows "\<not> stalled (pending acc)"
proof -
  have "length (pending acc) = MAX_FRAME_BYTES + 2"
    using assms by (simp add: length_pending) (simp add: acc_ok_def inbound_has_room_def)
  then show ?thesis using stalled_length [of "pending acc"] by auto
qed

lemma held_iff_ready:
  "acc_ok acc \<Longrightarrow> has_complete_frame_held acc \<longleftrightarrow>
     2 \<le> length (pending acc) \<and> 2 + prefix_len (pending acc) \<le> length (pending acc)"
  by (simp add: has_complete_frame_held_def length_pending prefix_len_pending)

text \<open>The frame counter is only counted: it does not steer the loop.\<close>

lemma route_frame_count:
  "route_frame ops n d rt =
     map_option (\<lambda>(r, rt'). (map_sum id (map_option ((+) n)) r, rt')) (route_frame ops 0 d rt)"
  by (simp add: route_frame_def Let_def
      split: sum.splits InboundFrame.splits DecodeError.splits option.splits Accepted.splits FormatCheck.splits)

lemma consume_bytes_count:
  "consume_bytes pc ops n bs rt =
     map_option (\<lambda>(r, x). (map_sum id ((+) n) r, x)) (consume_bytes pc ops 0 bs rt)"
proof (induction bs arbitrary: n rt rule: length_induct)
  case (1 bs)
  show ?case
  proof (cases "frame_ready bs")
    case ready: True
    let ?d = "drop (2 + prefix_len bs) bs"
    have lt: "length ?d < length bs" using ready by (auto simp: frame_ready_def)
    have "consume_bytes pc ops (n + k) ?d rt' =
        map_option (\<lambda>(r, x). (map_sum id ((+) n) r, x)) (consume_bytes pc ops k ?d rt')" for k rt'
      using 1 [rule_format, OF lt, of "n + k" rt'] 1 [rule_format, OF lt, of k rt']
      by (auto simp: option.map_comp o_def split_def intro!: option.map_cong0)
        (case_tac a, simp_all add: add.assoc)
    then show ?thesis
      by (auto simp: consume_bytes_ready [OF ready] route_frame_count [of ops n] id_def
          split: option.splits sum.splits)
  next
    case False
    then show ?thesis
      by (cases "2 \<le> length bs \<and> MAX_FRAME_BYTES < prefix_len bs")
        (auto simp: consume_bytes_oversize consume_bytes_stop)
  qed
qed

text \<open>
  A socket that delivers the chunks \<open>cs\<close> in order, each read returning what fits of the
  first one, and would block once they are gone.
\<close>

fun script_read :: "bytes list reader" where
  "script_read room [] = (ReadErr (IoError WouldBlockKind ''''), [])"
| "script_read room (c # cs) = (ReadOk (take room c), if length c \<le> room then cs else drop room c # cs)"

lemma fill_pending:
  assumes "acc_ok acc" "length bs \<le> MAX_FRAME_BYTES + 2 - fa_valid acc"
  shows "acc_ok (acc\<lparr>fa_buf := splice_at (fa_buf acc) (fa_valid acc) bs, fa_valid := fa_valid acc + length bs\<rparr>)"
    "pending (acc\<lparr>fa_buf := splice_at (fa_buf acc) (fa_valid acc) bs, fa_valid := fa_valid acc + length bs\<rparr>)
      = pending acc @ bs"
  using assms by (auto simp: acc_ok_def pending_def splice_at_def)

text \<open>\<open>consume_frames\<close> on an accumulator is \<open>consume_bytes\<close> on its pending bytes.\<close>

lemma consume_frames_view:
  assumes "acc_ok acc"
  shows "case consume_bytes pc ops 0 (pending acc) rt of
      None \<Rightarrow> consume_frames pc ops acc rt = None
    | Some (r, rem, rt') \<Rightarrow> \<exists>acc'. consume_frames pc ops acc rt = Some (r, acc', rt') \<and>
        acc_ok acc' \<and> pending acc' = rem"
  using consume_loop_refines [OF assms, of pc ops 0 rt, symmetric] consume_loop_acc_ok [OF assms]
  by (auto simp: consume_frames_def abs_result_def split: option.splits)

text \<open>What a pump call over the byte stream \<open>bs\<close> must have done.\<close>

definition pump_result ::
  "((io_error + u32) \<times> bytes \<times> 's route) option \<Rightarrow>
     ((io_error + bool) \<times> 'r \<times> FrameAccumulator \<times> 's route) option \<Rightarrow> bool" where
  "pump_result spec res =
     (case spec of
        None \<Rightarrow> res = None
      | Some (Inl e, _, rt') \<Rightarrow> \<exists>r' acc'. res = Some (Inl e, r', acc', rt') \<and> pending acc' = []
      | Some (Inr _, rem, rt') \<Rightarrow> \<exists>r' acc'. res = Some (Inr False, r', acc', rt') \<and> pending acc' = rem)"

lemma consume_bytes_Inl_rem: "consume_bytes pc ops n bs rt = Some (Inl e, rem, rt') \<Longrightarrow> rem = []"
  using consume_bytes_invariant [where P = "\<lambda>_ _ _. True"
      and Q = "\<lambda>r rem rt. (\<exists>e. r = Inl e) \<longrightarrow> rem = []"] by (metis (no_types, lifting) Inl_Inr_False)

lemma pump_result_count:
  "pump_result (consume_bytes pc ops n bs rt) res \<longleftrightarrow> pump_result (consume_bytes pc ops 0 bs rt) res"
  by (subst consume_bytes_count) (auto simp: pump_result_def split: option.splits sum.splits)

lemma script_read_Cons:
  assumes "0 < room" "c \<noteq> []" "[] \<notin> set cs"
  obtains ch cs' where "script_read room (c # cs) = (ReadOk ch, cs')" "ch \<noteq> []" "length ch \<le> room"
    "ch @ concat cs' = c @ concat cs" "[] \<notin> set cs'"
proof
  show "script_read room (c # cs) = (ReadOk (take room c), if length c \<le> room then cs else drop room c # cs)"
    by simp
qed (use assms in auto)

lemma drain_script_Nil:
  assumes "acc_ok acc" "stalled (pending acc)"
  shows "\<exists>acc'. drain_inbound pc ops script_read [] acc rt =
      Some (Inr \<lparr>do_bytes_read = 0, do_frames_routed = 0\<rparr>, [], acc', rt) \<and> pending acc' = pending acc"
  using consume_stalled [OF assms(2), of pc ops 0 rt] consume_frames_view [OF assms(1), of pc ops rt]
    stalled_length [OF assms(2)] assms(1)
  by (auto simp: drain_inbound_def drain_finish_def transient_kind_def acc_ok_def length_pending)

lemma drain_script_Cons:
  assumes "acc_ok acc" "stalled (pending acc)" "[] \<notin> set (c # cs)"
  obtains ch cs' acc1 where
    "drain_inbound pc ops script_read (c # cs) acc rt = drain_finish pc ops (length ch) cs' acc1 rt"
    "acc_ok acc1" "pending acc1 = pending acc @ ch" "ch \<noteq> []" "ch @ concat cs' = c @ concat cs" "[] \<notin> set cs'"
proof -
  have valid: "fa_valid acc < MAX_FRAME_BYTES + 2" "length (fa_buf acc) = MAX_FRAME_BYTES + 2"
    using stalled_length [OF assms(2)] assms(1) by (auto simp: acc_ok_def length_pending)
  let ?room = "MAX_FRAME_BYTES + 2 - fa_valid acc"
  have pre: "0 < ?room" "c \<noteq> []" "[] \<notin> set cs" using valid assms(3) by auto
  obtain ch cs' where rd: "script_read ?room (c # cs) = (ReadOk ch, cs')" "ch \<noteq> []" "length ch \<le> ?room"
    "ch @ concat cs' = c @ concat cs" "[] \<notin> set cs'"
    by (rule script_read_Cons [OF pre])
  define acc1 where "acc1 = acc\<lparr>fa_buf := splice_at (fa_buf acc) (fa_valid acc) ch,
      fa_valid := fa_valid acc + length ch\<rparr>"
  have "drain_inbound pc ops script_read (c # cs) acc rt = drain_finish pc ops (length ch) cs' acc1 rt"
    using valid rd by (cases ch) (simp_all add: drain_inbound_def acc1_def)
  moreover have "acc_ok acc1" "pending acc1 = pending acc @ ch"
    using fill_pending [OF assms(1) rd(3)] by (simp_all add: acc1_def)
  ultimately show ?thesis using that rd by blast
qed

lemma pump_fragmentation:
  assumes "never_full ops" "acc_ok acc" "stalled (pending acc)" "[] \<notin> set cs" "length (concat cs) < max_steps"
  shows "pump_result (consume_bytes pc ops 0 (pending acc @ concat cs) rt)
           (pump_inbound pc ops script_read max_steps cs acc rt)"
  using assms(2-)
proof (induction max_steps arbitrary: cs acc rt)
  case (Suc max_steps)
  show ?case
  proof (cases cs)
    case Nil
    then show ?thesis
      using consume_stalled [OF Suc.prems(2), of pc ops 0 rt] drain_script_Nil [OF Suc.prems(1,2), of pc ops rt]
      by (auto simp: pump_result_def made_progress_def)
  next
    case (Cons c cs0)
    obtain ch cs' acc1 where
      drain: "drain_inbound pc ops script_read cs acc rt = drain_finish pc ops (length ch) cs' acc1 rt"
      and acc1: "acc_ok acc1" "pending acc1 = pending acc @ ch" and ch: "ch \<noteq> []" "[] \<notin> set cs'"
      and cat: "ch @ concat cs' = c @ concat cs0"
      using drain_script_Cons [OF Suc.prems(1,2), of c cs0] Suc.prems(3) Cons by metis
    have steps: "length (concat cs') < max_steps"
      using Suc.prems(4) Cons ch(1) arg_cong [OF cat, of length] by (cases ch) simp_all
    have split: "pending acc @ concat cs = pending acc1 @ concat cs'"
      using acc1(2) cat Cons by simp
    show ?thesis
    proof (cases "consume_bytes pc ops 0 (pending acc1) rt")
      case None
      then show ?thesis unfolding split using consume_frames_view [OF acc1(1), of pc ops rt] drain
        by (simp add: consume_bytes_append pump_result_def drain_finish_def)
    next
      case (Some res)
      then obtain r rem rt' where res: "consume_bytes pc ops 0 (pending acc1) rt = Some (r, rem, rt')"
        by (cases res) auto
      then obtain acc' where cf: "consume_frames pc ops acc1 rt = Some (r, acc', rt')" "acc_ok acc'" "pending acc' = rem"
        using consume_frames_view [OF acc1(1), of pc ops rt] by auto
      show ?thesis
      proof (cases r)
        case (Inl e)
        then show ?thesis unfolding split using cf drain res consume_bytes_Inl_rem
          by (auto simp: consume_bytes_append pump_result_def drain_finish_def)
      next
        case (Inr m)
        then have st: "stalled rem" using consume_bytes_never_full [OF assms(1)] res by blast
        then have "\<not> frame_ready rem" by (simp add: stalled_def)
        then have spec: "consume_bytes pc ops 0 (pending acc @ concat cs) rt
            = consume_bytes pc ops m (rem @ concat cs') rt'"
          unfolding split using res Inr by (simp add: consume_bytes_append [of _ _ _ "pending acc1"])
        have "pump_inbound pc ops script_read (Suc max_steps) cs acc rt
            = pump_inbound pc ops script_read max_steps cs' acc' rt'"
          using cf drain Inr ch(1) by (simp add: drain_finish_def made_progress_def)
        then show ?thesis unfolding spec pump_result_count [of pc ops m]
          using Suc.IH [OF cf(2) _ ch(2) steps, of rt'] cf(3) st by simp
      qed
    qed
  qed
qed simp

section \<open>The sinks meet the contract\<close>

definition reader_ok :: "'r reader \<Rightarrow> bool" where
  "reader_ok rd \<longleftrightarrow> (\<forall>room r bs r'. rd room r = (ReadOk bs, r') \<longrightarrow> length bs \<le> room)"

lemma script_read_ok: "reader_ok script_read"
proof -
  have "length bs \<le> room" if "script_read room cs = (ReadOk bs, cs')" for room cs bs cs'
    using that by (cases cs) auto
  then show ?thesis by (simp add: reader_ok_def)
qed

context playback_sink
begin

lemma drain_finish_total:
  "acc_ok acc \<Longrightarrow> ok (rt_sink rt) \<Longrightarrow> \<exists>res r' acc' rt'.
     drain_finish pc sink k r acc rt = Some (res, r', acc', rt') \<and> acc_ok acc' \<and> ok (rt_sink rt')"
  using consume_frames_total [of acc rt pc] by (auto simp: drain_finish_def split: sum.splits)

lemma drain_inbound_total:
  assumes "reader_ok rd" "acc_ok acc" "ok (rt_sink rt)"
  shows "\<exists>res r' acc' rt'. drain_inbound pc sink rd r acc rt = Some (res, r', acc', rt') \<and>
    acc_ok acc' \<and> ok (rt_sink rt')"
proof -
  obtain x r' where rd: "rd (length (fa_buf acc) - fa_valid acc) r = (x, r')" by fastforce
  show ?thesis
  proof (cases x)
    case (ReadOk bs)
    then have "length bs \<le> MAX_FRAME_BYTES + 2 - fa_valid acc"
      using assms(1,2) rd unfolding reader_ok_def acc_ok_def by metis
    note filled = fill_pending(1) [OF assms(2) this]
    show ?thesis
      using ReadOk rd assms(2,3) drain_finish_total [OF assms(2,3), of pc 0 r]
        drain_finish_total [OF filled assms(3), of pc "length bs" r']
      by (cases bs) (simp_all add: drain_inbound_def)
  next
    case (ReadErr e)
    then show ?thesis
      using rd assms(2,3) drain_finish_total [OF assms(2,3), of pc 0 r] drain_finish_total [OF assms(2,3), of pc 0 r']
      by (simp add: drain_inbound_def)
  qed
qed

lemma pump_inbound_total:
  assumes "reader_ok rd"
  shows "acc_ok acc \<Longrightarrow> ok (rt_sink rt) \<Longrightarrow> \<exists>res r' acc' rt'.
    pump_inbound pc sink rd k r acc rt = Some (res, r', acc', rt') \<and> acc_ok acc' \<and> ok (rt_sink rt')"
proof (induction k arbitrary: r acc rt)
  case (Suc k)
  then obtain res r' acc' rt' where
    "drain_inbound pc sink rd r acc rt = Some (res, r', acc', rt')" "acc_ok acc'" "ok (rt_sink rt')"
    using drain_inbound_total [OF assms] by blast
  with Suc.IH show ?case by (auto split: sum.splits)
qed simp

end

lemma CountingSink_ops_simps [simp]:
  "op_accept CountingSink_ops = counting_accept" "op_end_of_audio CountingSink_ops = counting_end_of_audio"
  "op_flush_playback CountingSink_ops = counting_flush_playback" "op_stream_reset CountingSink_ops c = c"
  by (simp_all add: CountingSink_ops_def)

interpretation counting: playback_sink "\<lambda>c. True" CountingSink_ops
  by unfold_locales (auto simp: counting_accept_def)

lemma counting_never_full: "never_full CountingSink_ops"
  by (auto simp: never_full_def counting_accept_def split: if_splits)

text \<open>The state the \<open>expect\<close> of \<open>accept_at\<close> relies on.\<close>

definition fake_dac_ok :: "FakeDacSink \<Rightarrow> bool" where
  "fake_dac_ok d \<longleftrightarrow> (fd_playout_started d \<longleftrightarrow> fd_play_end d \<noteq> None)"

lemma fake_dac_accept_ok:
  assumes "fake_dac_ok d"
  shows "\<exists>a d'. fake_dac_accept_at now pcm d = Some (a, d') \<and> fake_dac_ok d'"
  using assms by (cases "fd_play_end d") (auto simp: fake_dac_ok_def fake_dac_accept_at_def Let_def)

interpretation fake_dac: playback_sink fake_dac_ok "FakeDacSink_ops now" for now
  by unfold_locales (auto simp: FakeDacSink_ops_def fake_dac_accept_ok)

lemma stall_counting_simps [simp]:
  "op_accept (stall_counting_ops inner) = stall_counting_accept inner"
  "op_end_of_audio (stall_counting_ops inner) s = (op_end_of_audio inner (fst s), snd s)"
  "op_flush_playback (stall_counting_ops inner) s = (op_flush_playback inner (fst s), snd s)"
  "op_stream_reset (stall_counting_ops inner) s = (op_stream_reset inner (fst s), snd s)"
  by (simp_all add: stall_counting_ops_def)

text \<open>Wrapping any banking sink gives a banking sink.\<close>

context banking_sink
begin

lemma stall_counting_banking:
  "banking_sink (\<lambda>s. ok (fst s)) (stall_counting_ops sink) (\<lambda>s. banked (fst s))"
proof (unfold_locales, goal_cases)
  case (1 s pcm)
  then obtain a s' where "op_accept sink pcm (fst s) = Some (a, s')" "ok s'"
    using accept_total by blast
  then show ?case by (simp add: stall_counting_accept_def)
next
  case (5 s pcm a s')
  then have "op_accept sink pcm (fst s) = Some (a, fst s')"
    by (auto simp: stall_counting_accept_def split: option.splits)
  then show ?case using 5 accept_banked by blast
qed (simp_all add: end_of_audio_ok flush_playback_ok stream_reset_ok end_of_audio_banked flush_banked)

end

interpretation i2s_stalls: banking_sink "\<lambda>s. i2s_ok (fst s)" "stall_counting_ops I2sStreamSink_ops"
  "\<lambda>s. i2s_banked (fst s)"
  by (rule i2s.stall_counting_banking)

section \<open>From the encoder to the ring\<close>

text \<open>The bytes the host puts on the wire for one frame, and for a run of Audio frames.\<close>

definition wire_frame :: "postcard \<Rightarrow> StreamFrame \<Rightarrow> bytes" where
  "wire_frame pc f = [of_nat (length (pc_to_vec pc f) mod 256), of_nat (length (pc_to_vec pc f) div 256)]
     @ pc_to_vec pc f"

definition audio_stream :: "postcard \<Rightarrow> AudioFrame list \<Rightarrow> bytes" where
  "audio_stream pc as = concat (map (\<lambda>a. wire_frame pc (FAudio a)) as)"

lemma wire_frame_is_encode:
  "encode_frame pc f buf = Inr (n, buf') \<Longrightarrow> take n buf' = wire_frame pc f"
  by (simp add: encode_frame_Inr(5) wire_frame_def)

lemma wire_frame_head:
  assumes "length (pc_to_vec pc f) \<le> MAX_FRAME_BYTES"
  shows "frame_ready (wire_frame pc f @ rest)" "2 + prefix_len (wire_frame pc f @ rest) = length (wire_frame pc f)"
    "strip_prefix (wire_frame pc f) = Inr (pc_to_vec pc f)"
proof -
  have "length (pc_to_vec pc f) div 256 < 256" using assms by (simp add: MAX_FRAME_BYTES_def)
  then have "prefix_len (wire_frame pc f @ rest) = length (pc_to_vec pc f)"
    by (simp add: prefix_len_def wire_frame_def unat_u16_from_le_bytes unat_of_nat)
  then show "frame_ready (wire_frame pc f @ rest)" "2 + prefix_len (wire_frame pc f @ rest) = length (wire_frame pc f)"
    using assms by (simp_all add: frame_ready_def wire_frame_def)
  show "strip_prefix (wire_frame pc f) = Inr (pc_to_vec pc f)"
    using strip_prefix_framed [OF assms, of "[]"] by (simp add: wire_frame_def)
qed

lemma strip_prefix_wire:
  assumes "length (pc_to_vec pc f) < 2 ^ 16"
  shows "strip_prefix (wire_frame pc f) =
    (if length (pc_to_vec pc f) \<le> MAX_FRAME_BYTES then Inr (pc_to_vec pc f)
     else Inl (OversizeFrame (length (pc_to_vec pc f))))"
proof -
  have "length (pc_to_vec pc f) div 256 < 256" using assms by simp
  then have "unat (u16_from_le_bytes (of_nat (length (pc_to_vec pc f) mod 256)) (of_nat (length (pc_to_vec pc f) div 256)))
      = length (pc_to_vec pc f)"
    by (simp add: unat_u16_from_le_bytes unat_of_nat)
  then show ?thesis by (simp add: strip_prefix_def wire_frame_def)
qed

lemma consume_wire_frame:
  assumes "postcard_ok pc" "frame_fits f" "length (pc_to_vec pc f) \<le> MAX_FRAME_BYTES"
    "route_frame ops n (Inr (inbound_view f)) rt = Some (Inr (Some n'), rt')"
  shows "consume_bytes pc ops n (wire_frame pc f @ rest) rt = consume_bytes pc ops n' rest rt'"
  unfolding consume_bytes_ready [OF wire_frame_head(1) [OF assms(3)]] wire_frame_head(2) [OF assms(3)]
  using assms(4) decode_inbound_payload [OF assms(1,2) wire_frame_head(3) [OF assms(3)]] by simp

definition audio_sendable :: "postcard \<Rightarrow> AudioFrame \<Rightarrow> bool" where
  "audio_sendable pc a \<longleftrightarrow> frame_fits (FAudio a) \<and> length (pc_to_vec pc (FAudio a)) \<le> MAX_FRAME_BYTES \<and>
     is_valid_s16le_pcm (af_pcm a)"

lemma audio_stream_banked:
  assumes "postcard_ok pc"
  shows "\<lbrakk>\<forall>a\<in>set as. audio_sendable pc a; ic_seen_hello (rt_conn rt); i2s_ok (rt_sink rt);
     snd (rt_sink rt) = Some ring; ring_used ring + length (concat (map af_pcm as)) \<le> capacity ring\<rbrakk> \<Longrightarrow>
   \<exists>rt' ring'. consume_bytes pc I2sStreamSink_ops n (audio_stream pc as) rt
        = Some (Inr (n + of_nat (length as)), [], rt') \<and> snd (rt_sink rt') = Some ring' \<and> ring_ok ring' \<and>
      ring_contents ring' = ring_contents ring @ concat (map af_pcm as)"
proof (induction as arbitrary: n rt ring)
  case Nil
  then show ?case by (auto simp: audio_stream_def consume_stalled i2s_ok_def)
next
  case (Cons a as)
  obtain sk where sink: "rt_sink rt = (sk, Some ring)" and ok: "ring_ok ring" "MAX_AUDIO_PAYLOAD \<le> capacity ring"
    using Cons.prems(3,4) by (cases "rt_sink rt") (auto simp: i2s_ok_def)
  have a: "frame_fits (FAudio a)" "length (pc_to_vec pc (FAudio a)) \<le> MAX_FRAME_BYTES"
    "is_valid_s16le_pcm (af_pcm a)" "length (af_pcm a) \<le> MAX_AUDIO_PAYLOAD"
    using Cons.prems(1) by (auto simp: audio_sendable_def)
  obtain ac sk' ring' where acc: "i2s_accept (af_pcm a) (sk, Some ring) = Some (ac, (sk', Some ring'))"
    "ring_ok ring'" "capacity ring' = capacity ring"
    "ring_contents ring' = ring_contents ring @ (if ac = Enqueued \<and> is_valid_s16le_pcm (af_pcm a) then af_pcm a else [])"
    "ac = Full \<longleftrightarrow> is_valid_s16le_pcm (af_pcm a) \<and> capacity ring < ring_used ring + length (af_pcm a)"
    by (rule i2s_accept_cases [OF ok a(4)])
  have enq: "ac = Enqueued" using acc(5) Cons.prems(5) by (cases ac) auto
  let ?rt = "note_frame (rt\<lparr>rt_sink := (sk', Some ring')\<rparr>)"
  have "route_frame I2sStreamSink_ops n (Inr (inbound_view (FAudio a))) rt = Some (Inr (Some (n + 1)), ?rt)"
    using sink acc(1) enq Cons.prems(2) by (simp add: route_frame_def)
  note head = consume_wire_frame [OF assms a(1,2) this]
  have cont: "ring_contents ring' = ring_contents ring @ af_pcm a" using acc(4) enq a(3) by simp
  have "ring_used ring' = ring_used ring + length (af_pcm a)"
    using arg_cong [OF cont, of length] by simp
  then have "\<exists>rt' ring''. consume_bytes pc I2sStreamSink_ops (n + 1) (audio_stream pc as) ?rt
        = Some (Inr (n + 1 + of_nat (length as)), [], rt') \<and> snd (rt_sink rt') = Some ring'' \<and> ring_ok ring'' \<and>
      ring_contents ring'' = ring_contents ring' @ concat (map af_pcm as)"
    using Cons.prems ok acc(2,3) by (intro Cons.IH) (auto simp: i2s_ok_def)
  then show ?case using cont head
    by (simp add: audio_stream_def add.assoc)
qed

section \<open>The greeting comes first\<close>

text \<open>The Hello the device accepts: the protocol version, and the device's own playback format.\<close>

definition hello_accepted :: "postcard \<Rightarrow> bytes \<Rightarrow> bool" where
  "hello_accepted pc f \<longleftrightarrow> decode_inbound pc f =
     Inr (InHello AUDIO_PROTOCOL_VERSION (pf_sample_rate_hz DEVICE_PLAYBACK_FORMAT)
       (pf_bits_per_sample DEVICE_PLAYBACK_FORMAT) (pf_channels DEVICE_PLAYBACK_FORMAT)
       (pf_codec DEVICE_PLAYBACK_FORMAT))"

definition bystanders :: "postcard \<Rightarrow> bytes list \<Rightarrow> bool" where
  "bystanders pc fs \<longleftrightarrow> (\<forall>f\<in>set fs. whole_frame f \<and> (\<exists>t. decode_inbound pc f = Inr (InOther t)))"

text \<open>
  The stream opens with frames of kinds the device ignores, and then such a Hello; nothing is
  said of what follows it.
\<close>

definition greeted :: "postcard \<Rightarrow> bytes \<Rightarrow> bool" where
  "greeted pc bs \<longleftrightarrow> (\<exists>fs h rest. bs = concat fs @ h @ rest \<and> bystanders pc fs \<and>
     whole_frame h \<and> hello_accepted pc h)"

text \<open>What the routed frames of a connection look like, by its handshake flag.\<close>

definition greet_inv :: "postcard \<Rightarrow> bool \<Rightarrow> bytes \<Rightarrow> bool" where
  "greet_inv pc seen bs \<longleftrightarrow>
     (if seen then greeted pc bs else (\<exists>fs. bs = concat fs \<and> bystanders pc fs))"

lemma greet_inv_append: "greet_inv pc True bs \<Longrightarrow> greet_inv pc True (bs @ cs)"
  unfolding greet_inv_def greeted_def by (metis append.assoc)

lemma device_format_fields:
  "check_inbound_format DEVICE_PLAYBACK_FORMAT \<lparr>pf_sample_rate_hz = s, pf_bits_per_sample = b,
     pf_channels = c, pf_codec = k\<rparr> = Match \<Longrightarrow>
   s = pf_sample_rate_hz DEVICE_PLAYBACK_FORMAT \<and> b = pf_bits_per_sample DEVICE_PLAYBACK_FORMAT \<and>
   c = pf_channels DEVICE_PLAYBACK_FORMAT \<and> k = pf_codec DEVICE_PLAYBACK_FORMAT"
  by (metis PlaybackFormat.select_convs device_format_eq)

lemma route_frame_greet_inv:
  assumes "route_frame ops n (decode_inbound pc f) rt = Some (r, rt')" "whole_frame f"
    and "greet_inv pc (ic_seen_hello (rt_conn rt)) bs"
  shows "r = Inr (Some n') \<Longrightarrow> greet_inv pc (ic_seen_hello (rt_conn rt')) (bs @ f)"
    "r = Inr None \<Longrightarrow> rt_conn rt' = rt_conn rt"
    "rt_sink rt' \<noteq> rt_sink rt \<Longrightarrow> ic_seen_hello (rt_conn rt)"
    "r = Inr x \<Longrightarrow> ic_seen_hello (rt_conn rt) \<Longrightarrow> ic_seen_hello (rt_conn rt')"
proof -
  show "rt_sink rt' \<noteq> rt_sink rt \<Longrightarrow> ic_seen_hello (rt_conn rt)"
    using assms(1)
    by (auto simp: route_frame_def Let_def
        split: sum.splits InboundFrame.splits DecodeError.splits if_splits option.splits Accepted.splits FormatCheck.splits)
  show "r = Inr None \<Longrightarrow> rt_conn rt' = rt_conn rt"
    using assms(1)
    by (auto simp: route_frame_def Let_def
        split: sum.splits InboundFrame.splits DecodeError.splits if_splits option.splits Accepted.splits FormatCheck.splits)
  show keep: "r = Inr x \<Longrightarrow> ic_seen_hello (rt_conn rt) \<Longrightarrow> ic_seen_hello (rt_conn rt')" for x
    using assms(1)
    by (auto simp: route_frame_def Let_def
        split: sum.splits InboundFrame.splits DecodeError.splits if_splits option.splits Accepted.splits FormatCheck.splits)
  assume r: "r = Inr (Some n')"
  show "greet_inv pc (ic_seen_hello (rt_conn rt')) (bs @ f)"
  proof (cases "ic_seen_hello (rt_conn rt)")
    case True
    then show ?thesis using keep [OF r] assms(3) greet_inv_append by simp
  next
    case False
    then obtain fs where fs: "bs = concat fs" "bystanders pc fs" using assms(3) by (auto simp: greet_inv_def)
    have "(\<exists>t. decode_inbound pc f = Inr (InOther t)) \<and> \<not> ic_seen_hello (rt_conn rt') \<or>
        hello_accepted pc f \<and> ic_seen_hello (rt_conn rt')"
      using assms(1) r False
      by (auto simp: route_frame_def hello_accepted_def Let_def dest!: device_format_fields
          split: sum.splits InboundFrame.splits DecodeError.splits if_splits option.splits Accepted.splits FormatCheck.splits)
    then show ?thesis
    proof (elim disjE conjE)
      assume o: "\<exists>t. decode_inbound pc f = Inr (InOther t)" "\<not> ic_seen_hello (rt_conn rt')"
      then have "bystanders pc (fs @ [f])" "bs @ f = concat (fs @ [f])"
        using fs assms(2) by (auto simp: bystanders_def)
      then show ?thesis using o(2) unfolding greet_inv_def by metis
    next
      assume "hello_accepted pc f" "ic_seen_hello (rt_conn rt')"
      then show ?thesis using fs assms(2) unfolding greet_inv_def greeted_def by (metis append_Nil2)
    qed
  qed
qed

lemma consume_bytes_greet_inv:
  assumes "consume_bytes pc ops n bs rt = Some (r, rem, rt')" "greet_inv pc (ic_seen_hello (rt_conn rt)) past"
  shows "\<exists>routed rest. bs = routed @ rest \<and>
    (\<forall>m. r = Inr m \<longrightarrow> rest = rem \<and> greet_inv pc (ic_seen_hello (rt_conn rt')) (past @ routed)) \<and>
    (rt_sink rt' \<noteq> rt_sink rt \<longrightarrow> greeted pc (past @ routed))"
proof -
  let ?P = "\<lambda>(n::u32) b rt1. \<exists>routed. bs = routed @ b \<and> greet_inv pc (ic_seen_hello (rt_conn rt1)) (past @ routed) \<and>
    (rt_sink rt1 \<noteq> rt_sink rt \<longrightarrow> ic_seen_hello (rt_conn rt1))"
  let ?Q = "\<lambda>r rem rt'. \<exists>routed rest. bs = routed @ rest \<and>
    (\<forall>m. r = Inr m \<longrightarrow> rest = rem \<and> greet_inv pc (ic_seen_hello (rt_conn rt')) (past @ routed)) \<and>
    (rt_sink rt' \<noteq> rt_sink rt \<longrightarrow> greeted pc (past @ routed))"
  note op = greet_inv_def
  show ?thesis
  proof (rule consume_bytes_invariant [where P = ?P and Q = ?Q, OF assms(1)], goal_cases)
    case 1
    then show ?case using assms(2) by (intro exI [of _ "[]"]) simp
  next
    case (2 n b rt1 e rt2)
    then obtain routed where r: "bs = routed @ b" "greet_inv pc (ic_seen_hello (rt_conn rt1)) (past @ routed)"
      "rt_sink rt1 \<noteq> rt_sink rt \<longrightarrow> ic_seen_hello (rt_conn rt1)" by blast
    then show ?case using route_frame_greet_inv(3) [OF 2(3) whole_frame_take [OF 2(2)] r(2)]
      by - (rule exI [of _ routed], rule exI [of _ b], auto simp: op)
  next
    case (3 n b rt1)
    then show ?case by (auto simp: op)
  next
    case (4 n b rt1 rt2)
    then obtain routed where r: "bs = routed @ b" "greet_inv pc (ic_seen_hello (rt_conn rt1)) (past @ routed)"
      "rt_sink rt1 \<noteq> rt_sink rt \<longrightarrow> ic_seen_hello (rt_conn rt1)" by blast
    then show ?case using route_frame_greet_inv(2,3) [OF 4(3) whole_frame_take [OF 4(2)] r(2)]
      by - (rule exI [of _ routed], rule exI [of _ b], auto simp: op)
  next
    case (5 n b rt1)
    then show ?case by (auto simp: op)
  next
    case (6 n b rt1 n' rt2)
    let ?f = "take (2 + prefix_len b) b"
    obtain routed where r: "bs = routed @ b" "greet_inv pc (ic_seen_hello (rt_conn rt1)) (past @ routed)"
      "rt_sink rt1 \<noteq> rt_sink rt \<longrightarrow> ic_seen_hello (rt_conn rt1)" using 6(1) by blast
    note step = route_frame_greet_inv [OF 6(3) whole_frame_take [OF 6(2)] r(2)]
    have "bs = (routed @ ?f) @ drop (2 + prefix_len b) b" using r(1) by (metis append.assoc append_take_drop_id)
    moreover have "greet_inv pc (ic_seen_hello (rt_conn rt2)) (past @ routed @ ?f)" using step(1) by simp
    moreover have "rt_sink rt2 \<noteq> rt_sink rt \<longrightarrow> ic_seen_hello (rt_conn rt2)"
      using step(3,4) r(3) by (metis)
    ultimately show ?case by blast
  qed
qed

text \<open>
  One connection: drains of its socket, between which the other threads that share the sink
  may change it. \<open>got\<close> is what the socket has delivered.
\<close>

definition reads_logged :: "'r reader \<Rightarrow> ('r \<Rightarrow> bytes) \<Rightarrow> bool" where
  "reads_logged rd got \<longleftrightarrow>
     (\<forall>room r bs r'. rd room r = (ReadOk bs, r') \<longrightarrow> length bs \<le> room \<and> got r' = got r @ bs) \<and>
     (\<forall>room r e r'. rd room r = (ReadErr e, r') \<longrightarrow> got r' = got r)"

inductive inbound_step ::
  "postcard \<Rightarrow> 's PlaybackSink \<Rightarrow> 'r reader \<Rightarrow> 'r \<times> FrameAccumulator \<times> 's route \<Rightarrow>
     'r \<times> FrameAccumulator \<times> 's route \<Rightarrow> bool"
  for pc ops rd where
  drained: "drain_inbound pc ops rd r acc rt = Some (Inr d, r', acc', rt') \<Longrightarrow>
     inbound_step pc ops rd (r, acc, rt) (r', acc', rt')"
| others: "inbound_step pc ops rd (r, acc, rt) (r, acc, rt\<lparr>rt_sink := s\<rparr>)"

lemma greeted_append: "greeted pc bs \<Longrightarrow> greeted pc (bs @ cs)"
  unfolding greeted_def by (metis append.assoc)

lemma drain_finish_greet:
  assumes "drain_finish pc ops k r acc rt = Some (res, r', acc', rt')" "acc_ok acc"
    and "greet_inv pc (ic_seen_hello (rt_conn rt)) past" "got r = g0 @ past @ pending acc"
  shows "(\<forall>d. res = Inr d \<longrightarrow> acc_ok acc' \<and>
      (\<exists>past'. got r' = g0 @ past' @ pending acc' \<and> greet_inv pc (ic_seen_hello (rt_conn rt')) past')) \<and>
    (rt_sink rt' \<noteq> rt_sink rt \<longrightarrow> (\<exists>bs. got r' = g0 @ bs \<and> greeted pc bs))"
proof -
  obtain x rem where c: "consume_bytes pc ops 0 (pending acc) rt = Some (x, rem, rt')" "acc_ok acc'" "pending acc' = rem"
    and r: "r' = r" "(\<exists>d. res = Inr d) \<longleftrightarrow> (\<exists>m. x = Inr m)"
    using assms(1) consume_frames_view [OF assms(2), of pc ops rt]
    by (auto simp: drain_finish_def split: option.splits sum.splits)
  obtain routed rest where v: "pending acc = routed @ rest"
    "\<And>m. x = Inr m \<Longrightarrow> rest = rem \<and> greet_inv pc (ic_seen_hello (rt_conn rt')) (past @ routed)"
    "rt_sink rt' \<noteq> rt_sink rt \<Longrightarrow> greeted pc (past @ routed)"
    using consume_bytes_greet_inv [OF c(1) assms(3)] by blast
  have g: "got r' = g0 @ (past @ routed) @ rest" using assms(4) r(1) v(1) by simp
  have "\<exists>past'. got r' = g0 @ past' @ pending acc' \<and> greet_inv pc (ic_seen_hello (rt_conn rt')) past'"
    if "res = Inr d" for d
    using that r(2) v(2) c(3) g by blast
  moreover have "\<exists>bs. got r' = g0 @ bs \<and> greeted pc bs" if "rt_sink rt' \<noteq> rt_sink rt"
    using greeted_append [OF v(3) [OF that], of rest] g by (metis append.assoc)
  ultimately show ?thesis using c(2) by blast
qed

lemma drain_inbound_greet:
  assumes log: "reads_logged rd got" and drain: "drain_inbound pc ops rd r acc rt = Some (res, r', acc', rt')"
    and acc: "acc_ok acc" and inv: "greet_inv pc (ic_seen_hello (rt_conn rt)) past" "got r = g0 @ past @ pending acc"
  shows "(\<forall>d. res = Inr d \<longrightarrow> acc_ok acc' \<and>
      (\<exists>past'. got r' = g0 @ past' @ pending acc' \<and> greet_inv pc (ic_seen_hello (rt_conn rt')) past')) \<and>
    (rt_sink rt' \<noteq> rt_sink rt \<longrightarrow> (\<exists>bs. got r' = g0 @ bs \<and> greeted pc bs))"
proof (cases "length (fa_buf acc) \<le> fa_valid acc")
  case True
  then show ?thesis using drain drain_finish_greet [where got = got, OF _ acc inv] by (simp add: drain_inbound_def)
next
  case room: False
  obtain x r1 where rd: "rd (length (fa_buf acc) - fa_valid acc) r = (x, r1)" by fastforce
  show ?thesis
  proof (cases x)
    case (ReadErr e)
    then have "got r1 = g0 @ past @ pending acc" using log rd inv(2) by (auto simp: reads_logged_def)
    then show ?thesis using drain room rd ReadErr drain_finish_greet [where got = got, OF _ acc inv(1)]
      by (auto simp: drain_inbound_def split: if_splits)
  next
    case (ReadOk bs)
    then have got: "length bs \<le> length (fa_buf acc) - fa_valid acc" "got r1 = got r @ bs"
      using log rd by (auto simp: reads_logged_def)
    let ?acc = "acc\<lparr>fa_buf := splice_at (fa_buf acc) (fa_valid acc) bs, fa_valid := fa_valid acc + length bs\<rparr>"
    have fill: "acc_ok ?acc" "pending ?acc = pending acc @ bs"
      using fill_pending [OF acc, of bs] got(1) acc by (simp_all add: acc_ok_def)
    then have "got r1 = g0 @ past @ pending ?acc" using got(2) inv(2) by simp
    then show ?thesis using drain room rd ReadOk drain_finish_greet [where got = got, OF _ fill(1) inv(1)]
      by (cases bs) (auto simp: drain_inbound_def)
  qed
qed

lemma inbound_steps_greet:
  assumes log: "reads_logged rd got" and steps: "(inbound_step pc ops rd)\<^sup>*\<^sup>* (r0, acc0, rt0) s"
    and start: "acc_ok acc0" "pending acc0 = []" "\<not> ic_seen_hello (rt_conn rt0)"
  shows "case s of (r, acc, rt) \<Rightarrow> acc_ok acc \<and>
    (\<exists>past. got r = got r0 @ past @ pending acc \<and> greet_inv pc (ic_seen_hello (rt_conn rt)) past)"
  using steps
proof (induction rule: rtranclp_induct)
  case base
  then show ?case using start by (auto simp: greet_inv_def bystanders_def intro!: exI [of _ "[]"])
next
  case (step s s')
  from step(2,3) show ?case
  proof (induction rule: inbound_step.induct)
    case (drained r acc rt d r' acc' rt')
    then show ?case using drain_inbound_greet [OF log drained(1), where ?g0.0 = "got r0"] by auto
  qed simp
qed

end
