(* ===== verification/Stream_Send.thy ===== *)
theory Stream_Send
  imports Wire
begin

text \<open>
  The outbound frame writers of \<^verbatim>\<open>firmware/crates/audio-pipeline/src/stream_send.rs\<close>: the
  blocking write loop \<open>write_frame_classified_at\<close> with its two budgets, and the resumable
  cursor \<open>FrameWriteState\<close> that the event loop steps one write attempt at a time.

  The writer, the writability wait and the clock are functions of an environment state
  \<open>'e\<close>, so that a run is a function of how the socket and the clock behave.
\<close>

section \<open>Outcomes and environment\<close>

definition WRITE_TIMEOUT_MS :: nat where
  "WRITE_TIMEOUT_MS = 750"

definition FRAME_WALL_CLOCK_MAX_MS :: nat where
  "FRAME_WALL_CLOCK_MAX_MS = 1000"

definition MAX_ZERO_PROGRESS_READY :: nat where
  "MAX_ZERO_PROGRESS_READY = 1024"

datatype SendOutcome = Sent | BackpressureAligned

datatype Writable = Ready | TimedOut | Fault io_error

datatype WaitStep = StepReady | Progressed | Stalled | StepFault io_error

record 'e send_env =
  env_write :: "bytes \<Rightarrow> 'e \<Rightarrow> (io_error + nat) \<times> 'e"
  env_wait :: "instant \<Rightarrow> 'e \<Rightarrow> Writable \<times> 'e"
  env_now :: "'e \<Rightarrow> instant \<times> 'e"

section \<open>The blocking write loop\<close>

text \<open>The variables of the loop. The counters stay below the frame length and the spin cap.\<close>

record send_vars =
  sv_written :: nat
  sv_resume_cycles :: nat
  sv_resume_pending :: bool
  sv_zero_progress_ready :: nat
  sv_deadline :: instant
  sv_written_at_last_wait :: nat

definition armed_deadline :: "instant \<Rightarrow> instant \<Rightarrow> instant" where
  "armed_deadline t frame_ceiling = min (t + from_millis WRITE_TIMEOUT_MS) frame_ceiling"

definition classify_no_progress :: "nat \<Rightarrow> io_error + SendOutcome" where
  "classify_no_progress written =
     (if written = 0 then Inr BackpressureAligned
      else Inl (IoError TimedOutKind ''send_frame_bp: peer accepted a prefix then made no progress''))"

definition wait_for_writable ::
  "'e send_env \<Rightarrow> instant \<Rightarrow> send_vars \<Rightarrow> 'e \<Rightarrow> WaitStep \<times> send_vars \<times> 'e" where
  "wait_for_writable env frame_ceiling v e =
     (let (w, e1) = env_wait env (sv_deadline v) e in
      case w of
        Ready \<Rightarrow> (StepReady, v, e1)
      | TimedOut \<Rightarrow>
          if sv_written_at_last_wait v < sv_written v
          then let (t, e2) = env_now env e1
               in (Progressed, v\<lparr>sv_written_at_last_wait := sv_written v,
                                 sv_deadline := armed_deadline t frame_ceiling\<rparr>, e2)
          else (Stalled, v, e1)
      | Fault err \<Rightarrow> (StepFault err, v, e1))"

text \<open>The accepting arm: count the resume, re-arm the per-wait budget unless the frame is done.\<close>

definition accept_progress ::
  "'e send_env \<Rightarrow> instant \<Rightarrow> nat \<Rightarrow> nat \<Rightarrow> send_vars \<Rightarrow> 'e \<Rightarrow> send_vars \<times> 'e" where
  "accept_progress env frame_ceiling n m v e =
     (let v1 = v\<lparr>sv_written := sv_written v + m, sv_zero_progress_ready := 0,
                 sv_resume_cycles := sv_resume_cycles v + (if sv_resume_pending v then 1 else 0),
                 sv_resume_pending := False\<rparr>
      in if sv_written v1 < n
         then let (t, e1) = env_now env e in (v1\<lparr>sv_deadline := armed_deadline t frame_ceiling\<rparr>, e1)
         else (v1, e))"

text \<open>The three arms of the match on the result of \<open>write\<close>: the two no-byte arms are one.\<close>

datatype write_arm = Took nat | NoByte | Dead io_error

definition write_arm_of :: "io_error + nat \<Rightarrow> write_arm" where
  "write_arm_of r =
     (case r of
        Inr m \<Rightarrow> if m = 0 then NoByte else Took m
      | Inl err \<Rightarrow> if transient_kind (kind err) then NoByte else Dead err)"

function send_loop ::
  "'e send_env \<Rightarrow> instant \<Rightarrow> bytes \<Rightarrow> send_vars \<Rightarrow> 'e \<Rightarrow> (io_error + SendOutcome) \<times> nat \<times> 'e" where
  "send_loop env frame_ceiling frame v e =
     (if length frame \<le> sv_written v then (Inr Sent, sv_resume_cycles v, e)
      else
        let (t, e1) = env_now env e in
        if frame_ceiling \<le> t then (classify_no_progress (sv_written v), sv_resume_cycles v, e1)
        else if MAX_ZERO_PROGRESS_READY \<le> sv_zero_progress_ready v
        then (classify_no_progress (sv_written v), sv_resume_cycles v, e1)
        else
          let (r, e2) = env_write env (drop (sv_written v) frame) e1 in
          case write_arm_of r of
            Took m \<Rightarrow>
              (let (v', e3) = accept_progress env frame_ceiling (length frame) m v e2
               in send_loop env frame_ceiling frame v' e3)
          | Dead err \<Rightarrow> (Inl err, sv_resume_cycles v, e2)
          | NoByte \<Rightarrow>
              (case wait_for_writable env frame_ceiling v e2 of
                  (StepReady, v', e3) \<Rightarrow>
                    send_loop env frame_ceiling frame
                      (v'\<lparr>sv_zero_progress_ready := sv_zero_progress_ready v' + 1, sv_resume_pending := True\<rparr>) e3
                | (Progressed, v', e3) \<Rightarrow>
                    send_loop env frame_ceiling frame
                      (v'\<lparr>sv_zero_progress_ready := 0, sv_resume_pending := True\<rparr>) e3
                | (Stalled, v', e3) \<Rightarrow> (classify_no_progress (sv_written v'), sv_resume_cycles v', e3)
                | (StepFault err, v', e3) \<Rightarrow> (Inl err, sv_resume_cycles v', e3)))"
  by pat_completeness auto

text \<open>
  The loop ends: an accepting write shortens the tail, a timed-out wait may follow progress
  only once per cursor position, and at most \<open>MAX_ZERO_PROGRESS_READY\<close> waits in a row may
  answer \<open>Ready\<close> without progress.
\<close>

lemma took_pos: "write_arm_of r = Took m \<Longrightarrow> 0 < m"
  by (auto simp: write_arm_of_def split: sum.splits if_splits)

lemma accept_progress_written:
  "accept_progress env c n m v e = (v', e') \<Longrightarrow> sv_written v' = sv_written v + m"
  by (auto simp: accept_progress_def Let_def split: prod.splits if_splits)

lemma wait_for_writable_vars:
  assumes "wait_for_writable env c v e = (w, v', e')"
  shows "sv_written v' = sv_written v" "sv_zero_progress_ready v' = sv_zero_progress_ready v"
    "sv_resume_cycles v' = sv_resume_cycles v" "sv_resume_pending v' = sv_resume_pending v"
    "w = StepReady \<Longrightarrow> v' = v"
    "w = Progressed \<Longrightarrow> sv_written_at_last_wait v < sv_written v \<and> sv_written_at_last_wait v' = sv_written v"
  using assms by (auto simp: wait_for_writable_def Let_def split: prod.splits Writable.splits if_splits)

termination send_loop
proof (relation "measures [\<lambda>(env, c, frame, v, e). length frame - sv_written v,
    \<lambda>(env, c, frame, v, e). if sv_written_at_last_wait v < sv_written v then 1 else 0,
    \<lambda>(env, c, frame, v, e). MAX_ZERO_PROGRESS_READY - sv_zero_progress_ready v]", goal_cases)
  case 2
  then show ?case
    by (auto simp: accept_progress_def Let_def dest!: took_pos split: prod.splits if_splits)
qed (auto dest: wait_for_writable_vars [OF sym] simp: wait_for_writable_vars [OF sym])

declare send_loop.simps [simp del]

definition write_frame_classified_at ::
  "postcard \<Rightarrow> 'e send_env \<Rightarrow> StreamFrame \<Rightarrow> bytes \<Rightarrow> instant \<Rightarrow> 'e \<Rightarrow>
     (io_error + SendOutcome) \<times> nat \<times> 'e" where
  "write_frame_classified_at pc env frame buf frame_ceiling e =
     (case encode_frame pc frame buf of
        Inl _ \<Rightarrow> (Inl (IoError OtherKind ''encode_frame failed''), 0, e)
      | Inr (n, buf') \<Rightarrow>
          let (t, e1) = env_now env e
          in send_loop env frame_ceiling (take n buf')
               \<lparr>sv_written = 0, sv_resume_cycles = 0, sv_resume_pending = False, sv_zero_progress_ready = 0,
                sv_deadline = armed_deadline t frame_ceiling, sv_written_at_last_wait = 0\<rparr> e1)"

definition write_frame_classified ::
  "postcard \<Rightarrow> 'e send_env \<Rightarrow> StreamFrame \<Rightarrow> bytes \<Rightarrow> 'e \<Rightarrow> (io_error + SendOutcome) \<times> nat \<times> 'e" where
  "write_frame_classified pc env frame buf e =
     (let (t, e1) = env_now env e
      in write_frame_classified_at pc env frame buf (t + from_millis FRAME_WALL_CLOCK_MAX_MS) e1)"

section \<open>The resumable cursor\<close>

datatype StepOutcome = WroteWhole | WrotePartial | WouldBlock

definition SPIN_GUARD_THRESHOLD :: nat where
  "SPIN_GUARD_THRESHOLD = 8"

record FrameWriteState =
  fw_n :: nat
  fw_written :: nat
  fw_resume_pending :: bool
  fw_resume_cycles :: nat
  fw_written_at_budget :: nat
  fw_frame_ceiling :: instant
  fw_budget_deadline :: instant
  fw_write_attempts :: nat
  fw_would_blocks :: nat
  fw_consecutive_no_progress :: nat
  fw_began_at :: instant

text \<open>On success, the state, the caller's buffer with the encoded frame, and the environment.\<close>

definition begin_at ::
  "postcard \<Rightarrow> 'e send_env \<Rightarrow> StreamFrame \<Rightarrow> bytes \<Rightarrow> instant \<Rightarrow> 'e \<Rightarrow>
     (io_error + FrameWriteState \<times> bytes) \<times> 'e" where
  "begin_at pc env frame buf frame_ceiling e =
     (case encode_frame pc frame buf of
        Inl _ \<Rightarrow> (Inl (IoError OtherKind ''encode_frame failed''), e)
      | Inr (n, buf') \<Rightarrow>
          let (started, e1) = env_now env e
          in (Inr (\<lparr>fw_n = n, fw_written = 0, fw_resume_pending = False, fw_resume_cycles = 0,
                    fw_written_at_budget = 0, fw_frame_ceiling = frame_ceiling,
                    fw_budget_deadline = armed_deadline started frame_ceiling, fw_write_attempts = 0,
                    fw_would_blocks = 0, fw_consecutive_no_progress = 0, fw_began_at = started\<rparr>, buf'), e1))"

definition begin_frame ::
  "postcard \<Rightarrow> 'e send_env \<Rightarrow> StreamFrame \<Rightarrow> bytes \<Rightarrow> 'e \<Rightarrow> (io_error + FrameWriteState \<times> bytes) \<times> 'e" where
  "begin_frame pc env frame buf e =
     (let (t, e1) = env_now env e
      in begin_at pc env frame buf (t + from_millis FRAME_WALL_CLOCK_MAX_MS) e1)"

definition spin_guard_tripped :: "FrameWriteState \<Rightarrow> bool" where
  "spin_guard_tripped w \<longleftrightarrow> SPIN_GUARD_THRESHOLD \<le> fw_consecutive_no_progress w"

definition reset_spin_guard :: "FrameWriteState \<Rightarrow> FrameWriteState" where
  "reset_spin_guard w = w\<lparr>fw_consecutive_no_progress := 0\<rparr>"

definition step_writable ::
  "'e send_env \<Rightarrow> bytes \<Rightarrow> FrameWriteState \<Rightarrow> 'e \<Rightarrow> (io_error + StepOutcome) \<times> FrameWriteState \<times> 'e" where
  "step_writable env buf w e =
     (let w0 = w\<lparr>fw_write_attempts := fw_write_attempts w + 1\<rparr>;
          (r, e1) = env_write env (drop (fw_written w) (take (fw_n w) buf)) e in
      case write_arm_of r of
        NoByte \<Rightarrow>
          (Inr WouldBlock,
           w0\<lparr>fw_would_blocks := fw_would_blocks w0 + 1,
              fw_consecutive_no_progress := fw_consecutive_no_progress w0 + 1, fw_resume_pending := True\<rparr>, e1)
      | Took m \<Rightarrow>
          let w1 = w0\<lparr>fw_consecutive_no_progress := 0, fw_written := fw_written w0 + m,
                      fw_resume_cycles := fw_resume_cycles w0 + (if fw_resume_pending w0 then 1 else 0),
                      fw_resume_pending := False\<rparr> in
          if fw_written w1 < fw_n w1
          then let (t, e2) = env_now env e1
               in (Inr WrotePartial,
                   w1\<lparr>fw_written_at_budget := fw_written w1,
                      fw_budget_deadline := armed_deadline t (fw_frame_ceiling w1)\<rparr>, e2)
          else (Inr WroteWhole, w1, e1)
      | Dead err \<Rightarrow> (Inl err, w0, e1))"

definition fw_classify_no_progress :: "FrameWriteState \<Rightarrow> io_error + SendOutcome" where
  "fw_classify_no_progress w =
     (if fw_written w = 0 then Inr BackpressureAligned
      else Inl (IoError TimedOutKind ''[written=''))"

definition check_deadlines ::
  "instant \<Rightarrow> FrameWriteState \<Rightarrow> (io_error + SendOutcome) option \<times> FrameWriteState" where
  "check_deadlines t w =
     (if fw_frame_ceiling w \<le> t then (Some (fw_classify_no_progress w), w)
      else if fw_budget_deadline w \<le> t then
        (if fw_written_at_budget w < fw_written w
         then (None, w\<lparr>fw_written_at_budget := fw_written w,
                       fw_budget_deadline := armed_deadline t (fw_frame_ceiling w)\<rparr>)
         else (Some (fw_classify_no_progress w), w))
      else (None, w))"

definition next_deadline :: "FrameWriteState \<Rightarrow> instant" where
  "next_deadline w = min (fw_budget_deadline w) (fw_frame_ceiling w)"

section \<open>What the writer promises\<close>

text \<open>
  The contract of \<open>std::io::Write\<close> the framing rests on, with \<open>accepted\<close> the bytes the
  writer has taken so far: a write takes a prefix of what it is given and reports its length, a
  failed write takes nothing, and neither a wait nor a reading of the clock takes bytes.
  \<open>counts_waits\<close> says that \<open>waits\<close> is the number of writability waits run so far.
\<close>

definition writer_ok :: "'e send_env \<Rightarrow> ('e \<Rightarrow> bytes) \<Rightarrow> bool" where
  "writer_ok env accepted \<longleftrightarrow>
     (\<forall>bs e r e'. env_write env bs e = (r, e') \<longrightarrow>
        (case r of Inr m \<Rightarrow> m \<le> length bs \<and> accepted e' = accepted e @ take m bs
         | Inl _ \<Rightarrow> accepted e' = accepted e)) \<and>
     (\<forall>d e w e'. env_wait env d e = (w, e') \<longrightarrow> accepted e' = accepted e) \<and>
     (\<forall>e t e'. env_now env e = (t, e') \<longrightarrow> accepted e' = accepted e)"

definition counts_waits :: "'e send_env \<Rightarrow> ('e \<Rightarrow> nat) \<Rightarrow> bool" where
  "counts_waits env waits \<longleftrightarrow>
     (\<forall>bs e r e'. env_write env bs e = (r, e') \<longrightarrow> waits e' = waits e) \<and>
     (\<forall>d e w e'. env_wait env d e = (w, e') \<longrightarrow> waits e' = waits e + 1) \<and>
     (\<forall>e t e'. env_now env e = (t, e') \<longrightarrow> waits e' = waits e)"

lemma writer_ok_now: "writer_ok env acc \<Longrightarrow> env_now env e = (t, e') \<Longrightarrow> acc e' = acc e"
  unfolding writer_ok_def by blast

lemma writer_ok_write:
  assumes "writer_ok env acc" "env_write env bs e = (r, e')"
  shows "write_arm_of r = Took m \<Longrightarrow> m \<le> length bs \<and> acc e' = acc e @ take m bs"
    "write_arm_of r = NoByte \<Longrightarrow> acc e' = acc e" "write_arm_of r = Dead err \<Longrightarrow> acc e' = acc e"
proof -
  have *: "case r of Inr m \<Rightarrow> m \<le> length bs \<and> acc e' = acc e @ take m bs | Inl _ \<Rightarrow> acc e' = acc e"
    using assms unfolding writer_ok_def by blast
  then show "write_arm_of r = Took m \<Longrightarrow> m \<le> length bs \<and> acc e' = acc e @ take m bs"
    "write_arm_of r = NoByte \<Longrightarrow> acc e' = acc e" "write_arm_of r = Dead err \<Longrightarrow> acc e' = acc e"
    by (auto simp: write_arm_of_def split: sum.splits if_splits)
qed

lemma counts_waitsD:
  assumes "counts_waits env ws"
  shows "env_now env e = (t, e') \<Longrightarrow> ws e' = ws e" "env_write env bs e = (r, e') \<Longrightarrow> ws e' = ws e"
    "env_wait env d e = (w, e') \<Longrightarrow> ws e' = ws e + 1"
  using assms unfolding counts_waits_def by blast+

lemma wait_for_writable_env:
  assumes "wait_for_writable env c v e = (w, v', e')"
  obtains x e1 where "env_wait env (sv_deadline v) e = (x, e1)" "e' = e1 \<or> (\<exists>t. env_now env e1 = (t, e'))"
proof -
  obtain x e1 where "env_wait env (sv_deadline v) e = (x, e1)" by fastforce
  then show ?thesis using that assms
    by (auto simp: wait_for_writable_def Let_def split: prod.splits Writable.splits if_splits)
qed

lemma writer_ok_wait_for:
  assumes "wait_for_writable env c v e = (w, v', e')"
  shows "writer_ok env acc \<Longrightarrow> acc e' = acc e" "counts_waits env ws \<Longrightarrow> ws e' = ws e + 1"
proof -
  obtain x e1 where x: "env_wait env (sv_deadline v) e = (x, e1)" "e' = e1 \<or> (\<exists>t. env_now env e1 = (t, e'))"
    by (rule wait_for_writable_env [OF assms])
  show "writer_ok env acc \<Longrightarrow> acc e' = acc e" using x unfolding writer_ok_def by metis
  show "counts_waits env ws \<Longrightarrow> ws e' = ws e + 1" using x unfolding counts_waits_def by metis
qed

lemma writer_ok_accept:
  assumes "accept_progress env c n m v e = (v', e')"
  shows "writer_ok env acc \<Longrightarrow> acc e' = acc e" "counts_waits env ws \<Longrightarrow> ws e' = ws e"
    "sv_written v' = sv_written v + m" "\<not> sv_resume_pending v'"
    "sv_resume_cycles v' = sv_resume_cycles v + (if sv_resume_pending v then 1 else 0)"
  using assms writer_ok_now [of env acc] counts_waitsD(1) [of env ws]
  by (auto simp: accept_progress_def Let_def split: prod.splits if_splits)

section \<open>The blocking loop keeps the stream framed\<close>

text \<open>
  What a run of the loop from cursor \<open>sv_written v\<close> must have done: it delivered the frame
  bytes from the cursor up to some \<open>w\<close>, in order and once each; \<open>Sent\<close> exactly when that is
  the whole frame, \<open>BackpressureAligned\<close> only at the frame boundary; and every counted
  resume had its own wait.
\<close>

definition send_spec ::
  "'e send_env \<Rightarrow> ('e \<Rightarrow> bytes) \<Rightarrow> ('e \<Rightarrow> nat) \<Rightarrow> bytes \<Rightarrow> send_vars \<Rightarrow> 'e \<Rightarrow>
     (io_error + SendOutcome) \<times> nat \<times> 'e \<Rightarrow> bool" where
  "send_spec env acc ws frame v e res =
     (case res of (r, k, e') \<Rightarrow> \<exists>w. sv_written v \<le> w \<and> w \<le> length frame \<and>
        acc e' = acc e @ take (w - sv_written v) (drop (sv_written v) frame) \<and>
        (r = Inr Sent \<longleftrightarrow> w = length frame) \<and> (r = Inr BackpressureAligned \<longrightarrow> w = 0) \<and>
        (counts_waits env ws \<longrightarrow>
           k + ws e \<le> sv_resume_cycles v + (if sv_resume_pending v then 1 else 0) + ws e'))"

lemma send_spec_stop:
  assumes "sv_written v < length frame" "acc e' = acc e" "counts_waits env ws \<Longrightarrow> ws e \<le> ws e'"
  shows "send_spec env acc ws frame v e (classify_no_progress (sv_written v), sv_resume_cycles v, e')"
    "send_spec env acc ws frame v e (Inl err, sv_resume_cycles v, e')"
  using assms by (auto simp: send_spec_def classify_no_progress_def intro!: exI [of _ "sv_written v"])

lemma send_spec_step:
  assumes "send_spec env acc ws frame v1 e1 res" "sv_written v1 = sv_written v + m"
    "acc e1 = acc e @ take m (drop (sv_written v) frame)"
    "counts_waits env ws \<Longrightarrow> sv_resume_cycles v1 + (if sv_resume_pending v1 then 1 else 0) + ws e
       \<le> sv_resume_cycles v + (if sv_resume_pending v then 1 else 0) + ws e1"
  shows "send_spec env acc ws frame v e res"
proof -
  obtain r k e' where res: "res = (r, k, e')" by (cases res)
  with assms(1) obtain w where w: "sv_written v1 \<le> w" "w \<le> length frame"
    "acc e' = acc e1 @ take (w - sv_written v1) (drop (sv_written v1) frame)"
    "r = Inr Sent \<longleftrightarrow> w = length frame" "r = Inr BackpressureAligned \<longrightarrow> w = 0"
    "counts_waits env ws \<Longrightarrow> k + ws e1 \<le> sv_resume_cycles v1 + (if sv_resume_pending v1 then 1 else 0) + ws e'"
    by (auto simp: send_spec_def)
  have "w - sv_written v = m + (w - sv_written v1)" using w(1) assms(2) by simp
  then have "acc e' = acc e @ take (w - sv_written v) (drop (sv_written v) frame)"
    using w(3) assms(2,3) by (simp add: take_add add.commute)
  moreover have "counts_waits env ws \<longrightarrow>
      k + ws e \<le> sv_resume_cycles v + (if sv_resume_pending v then 1 else 0) + ws e'"
    using w(6) assms(4) by linarith
  ultimately show ?thesis using w(1,2,4,5) assms(2) unfolding send_spec_def res by (auto intro!: exI [of _ w])
qed

text \<open>One turn of the loop that did not end at a deadline, by the arm of the write.\<close>

lemma send_turn_took:
  assumes ok: "writer_ok env acc" and lt: "sv_written v < length frame"
    and t: "env_now env e = (t, e1)" and r: "env_write env (drop (sv_written v) frame) e1 = (r, e2)"
    and took: "write_arm_of r = Took m" and a: "accept_progress env c (length frame) m v e2 = (v', e3)"
    and IH: "sv_written v' \<le> length frame \<Longrightarrow> send_spec env acc ws frame v' e3 (send_loop env c frame v' e3)"
  shows "send_spec env acc ws frame v e (send_loop env c frame v' e3)"
proof -
  have m: "m \<le> length frame - sv_written v" "acc e2 = acc e1 @ take m (drop (sv_written v) frame)"
    using writer_ok_write(1) [OF ok r took] by auto
  note A = writer_ok_accept [OF a]
  have "counts_waits env ws \<Longrightarrow> ws e3 = ws e"
    using A(2) [of ws] counts_waitsD(1) [of env ws, OF _ t] counts_waitsD(2) [of env ws, OF _ r] by simp
  then show ?thesis
    using A(3-) A(1) [OF ok] m lt writer_ok_now [OF ok t] by (intro send_spec_step [OF IH, where m = m]) auto
qed

lemma send_turn_wait:
  assumes ok: "writer_ok env acc"
    and t: "env_now env e = (t, e1)" and r: "env_write env (drop (sv_written v) frame) e1 = (r, e2)"
    and none: "write_arm_of r = NoByte" and w: "wait_for_writable env c v e2 = (w, v', e3)"
  shows "acc e3 = acc e" "counts_waits env ws \<Longrightarrow> ws e3 = ws e + 1"
  using writer_ok_wait_for(1) [OF w ok] writer_ok_wait_for(2) [OF w, of ws] writer_ok_now [OF ok t]
    writer_ok_write(2) [OF ok r none] counts_waitsD(1) [of env ws, OF _ t] counts_waitsD(2) [of env ws, OF _ r] by auto

lemma send_loop_spec:
  assumes "writer_ok env acc" "sv_written v \<le> length frame"
  shows "send_spec env acc ws frame v e (send_loop env c frame v e)"
  using assms(2)
proof (induction env\<equiv>env c frame v e rule: send_loop.induct)
  case (1 c frame v e)
  show ?case
  proof (cases "length frame \<le> sv_written v")
    case True
    then show ?thesis using 1(4) by (subst send_loop.simps) (auto simp: send_spec_def)
  next
    case lt: False
    obtain t e1 where t: "env_now env e = (t, e1)" by fastforce
    obtain r e2 where r: "env_write env (drop (sv_written v) frame) e1 = (r, e2)" by fastforce
    note now = writer_ok_now [OF assms(1) t] and cnt = counts_waitsD(1) [of env ws, OF _ t] counts_waitsD(2) [of env ws, OF _ r]
    show ?thesis
    proof (cases "c \<le> t \<or> MAX_ZERO_PROGRESS_READY \<le> sv_zero_progress_ready v")
      case True
      then show ?thesis using t lt now cnt(1) by (subst send_loop.simps) (auto intro: send_spec_stop)
    next
      case go: False
      note IH = 1(1-3) [OF lt t [symmetric] refl _ _ r [symmetric] refl]
      show ?thesis
      proof (cases "write_arm_of r")
        case (Took m)
        obtain v' e3 where a: "accept_progress env c (length frame) m v e2 = (v', e3)" by fastforce
        have "send_spec env acc ws frame v e (send_loop env c frame v' e3)"
          using IH(1) [OF _ _ Took a [symmetric] refl] go lt
          by (intro send_turn_took [OF assms(1) _ t r Took a]) auto
        then show ?thesis using go t r Took a lt by (subst send_loop.simps) simp
      next
        case (Dead err)
        then show ?thesis using go t r lt now cnt writer_ok_write(3) [OF assms(1) r]
          by (subst send_loop.simps) (auto intro: send_spec_stop)
      next
        case NoByte
        obtain w v' e3 where w: "wait_for_writable env c v e2 = (w, v', e3)" by (metis prod_cases3)
        note W = wait_for_writable_vars [OF w] and e3 = send_turn_wait(1) [OF assms(1) t r NoByte w] send_turn_wait(2) [OF assms(1) t r NoByte w, of ws]
        note loop = send_loop.simps [of env c frame v e, simplified t r NoByte w Let_def prod.case]
        show ?thesis
        proof (cases w)
          case StepReady
          then have "send_spec env acc ws frame v e (send_loop env c frame
              (v\<lparr>sv_zero_progress_ready := sv_zero_progress_ready v + 1, sv_resume_pending := True\<rparr>) e3)"
            using send_spec_step [OF IH(2) [OF _ _ NoByte w [symmetric] StepReady refl], of v 0 e]
              go lt W(5) e3 by simp
          then show ?thesis unfolding loop using go lt StepReady W(5) by simp
        next
          case Progressed
          then have "send_spec env acc ws frame v e (send_loop env c frame
              (v'\<lparr>sv_zero_progress_ready := 0, sv_resume_pending := True\<rparr>) e3)"
            using send_spec_step [OF IH(3) [OF _ _ NoByte w [symmetric] Progressed refl], of v 0 e]
              go lt W(1,3) e3 by simp
          then show ?thesis unfolding loop using go lt Progressed by simp
        next
          case Stalled
          then show ?thesis unfolding loop
            using go lt W(1,3) e3 send_spec_stop(1) [of v frame acc e3 e env ws] by simp
        next
          case (StepFault err)
          then show ?thesis unfolding loop
            using go lt W(1,3) e3 send_spec_stop(2) [of v frame acc e3 e env ws] by simp
        qed
      qed
    qed
  qed
qed

text \<open>What a call of the writer has put on the wire.\<close>

lemma write_frame_spec:
  assumes "writer_ok env acc" "encode_frame pc frame buf = Inr (n, buf')"
    and "write_frame_classified_at pc env frame buf frame_ceiling e = (r, cycles, e')"
  shows "\<exists>w. w \<le> n \<and> acc e' = acc e @ take w (take n buf') \<and>
    (r = Inr Sent \<longleftrightarrow> w = n) \<and> (r = Inr BackpressureAligned \<longrightarrow> w = 0) \<and>
    (counts_waits env ws \<longrightarrow> cycles + ws e \<le> ws e')"
proof -
  obtain t e1 where t: "env_now env e = (t, e1)" by fastforce
  define v where "v = \<lparr>sv_written = 0, sv_resume_cycles = 0, sv_resume_pending = False, sv_zero_progress_ready = 0,
    sv_deadline = armed_deadline t frame_ceiling, sv_written_at_last_wait = 0\<rparr>"
  have "send_loop env frame_ceiling (take n buf') v e1 = (r, cycles, e')"
    using assms(2,3) t by (simp add: write_frame_classified_at_def v_def)
  then have "send_spec env acc ws (take n buf') v e1 (r, cycles, e')"
    using send_loop_spec [OF assms(1), of v "take n buf'" ws e1 frame_ceiling] by (simp add: v_def)
  moreover have "length (take n buf') = n" using encode_frame_Inr(2,3) [OF assms(2)] by simp
  ultimately show ?thesis
    using writer_ok_now [OF assms(1) t] counts_waitsD(1) [of env ws, OF _ t] by (auto simp: send_spec_def v_def)
qed

text \<open>Whatever every operation of the environment keeps, a call of the writer keeps.\<close>

definition env_keeps :: "'e send_env \<Rightarrow> ('e \<Rightarrow> 'e \<Rightarrow> bool) \<Rightarrow> bool" where
  "env_keeps env R \<longleftrightarrow> reflp R \<and> transp R \<and>
     (\<forall>bs e r e'. env_write env bs e = (r, e') \<longrightarrow> R e e') \<and>
     (\<forall>d e w e'. env_wait env d e = (w, e') \<longrightarrow> R e e') \<and>
     (\<forall>e t e'. env_now env e = (t, e') \<longrightarrow> R e e')"

lemma env_keepsD:
  assumes "env_keeps env R"
  shows "R e e" "R e e1 \<Longrightarrow> R e1 e2 \<Longrightarrow> R e e2" "env_write env bs e = (r, e') \<Longrightarrow> R e e'"
    "env_wait env d e = (w, e') \<Longrightarrow> R e e'" "env_now env e = (t, e') \<Longrightarrow> R e e'"
  using assms unfolding env_keeps_def by (blast dest: reflpD transpD)+

lemma send_parts_keep:
  assumes "env_keeps env R"
  shows "wait_for_writable env c v e = (w, v', e') \<Longrightarrow> R e e'"
    "accept_progress env c n m v e = (v', e') \<Longrightarrow> R e e'"
proof -
  show "R e e'" if "wait_for_writable env c v e = (w, v', e')"
  proof (rule wait_for_writable_env [OF that])
    fix x e1 assume "env_wait env (sv_deadline v) e = (x, e1)" "e' = e1 \<or> (\<exists>t. env_now env e1 = (t, e'))"
    then show ?thesis using env_keepsD [OF assms] by metis
  qed
  show "accept_progress env c n m v e = (v', e') \<Longrightarrow> R e e'"
    using env_keepsD [OF assms] by (auto simp: accept_progress_def Let_def split: prod.splits if_splits)
qed

lemma send_loop_keeps:
  assumes K: "env_keeps env R"
  shows "send_loop env c frame v e = (r, k, e') \<Longrightarrow> R e e'"
proof (induction env\<equiv>env c frame v e rule: send_loop.induct)
  case (1 c frame v e)
  note R = env_keepsD [OF K]
  obtain t e1 where t: "env_now env e = (t, e1)" by fastforce
  obtain x e2 where x: "env_write env (drop (sv_written v) frame) e1 = (x, e2)" by fastforce
  have e1: "R e e1" by (rule R(5) [OF t])
  then have e2: "R e e2" by (rule R(2) [OF _ R(3) [OF x]])
  show ?case
  proof (cases "length frame \<le> sv_written v \<or> c \<le> t \<or> MAX_ZERO_PROGRESS_READY \<le> sv_zero_progress_ready v")
    case True
    then show ?thesis using 1(4) t e1 R(1) by (subst (asm) send_loop.simps) (auto split: if_splits)
  next
    case go: False
    note IH = 1(1-3) [OF _ t [symmetric] refl _ _ x [symmetric] refl] and
      loop = 1(4) [unfolded send_loop.simps [of env c frame v e] t x Let_def prod.case]
    show ?thesis
    proof (cases "write_arm_of x")
      case (Took m)
      obtain v' e3 where a: "accept_progress env c (length frame) m v e2 = (v', e3)" by fastforce
      have "R e3 e'" using IH(1) [OF _ _ _ Took a [symmetric] refl] loop go Took a by simp
      then show ?thesis by (rule R(2) [OF R(2) [OF e2 send_parts_keep(2) [OF K a]]])
    next
      case (Dead err)
      then show ?thesis using loop go e2 by simp
    next
      case NoByte
      obtain w v' e3 where w: "wait_for_writable env c v e2 = (w, v', e3)" by (metis prod_cases3)
      have "R e3 e'"
        using IH(2,3) [OF _ _ _ NoByte w [symmetric] _ refl] loop go NoByte w R(1) by (cases w) auto
      then show ?thesis by (rule R(2) [OF R(2) [OF e2 send_parts_keep(1) [OF K w]]])
    qed
  qed
qed

lemma write_frame_keeps:
  assumes "env_keeps env R" "write_frame_classified pc env frame buf e = (r, cycles, e')"
  shows "R e e'"
proof -
  note R = env_keepsD [OF assms(1)]
  obtain t e1 where t: "env_now env e = (t, e1)" by fastforce
  obtain u e2 where u: "env_now env e1 = (u, e2)" by fastforce
  have e2: "R e e1" "R e e2" using R(5) [OF t] R(2) [OF R(5) [OF t] R(5) [OF u]] by auto
  have "R e2 e'" if "send_loop env c frame' v e2 = (r, cycles, e')" for c frame' v
    by (rule send_loop_keeps [OF assms(1) that])
  then show ?thesis using assms(2) t u e2(1) R(2) [OF e2(2)]
    by (auto simp: write_frame_classified_def write_frame_classified_at_def split: sum.splits)
qed

section \<open>The cursor as a state machine\<close>

text \<open>
  The event loop's use of a frame in flight: a write attempt that does not fault, a
  deadline check that does not give up, the end of a spin-guard backoff.
\<close>

inductive fw_step :: "'e send_env \<Rightarrow> bytes \<Rightarrow> FrameWriteState \<times> 'e \<Rightarrow> FrameWriteState \<times> 'e \<Rightarrow> bool"
  for env buf where
  attempt: "fw_written w < fw_n w \<Longrightarrow> step_writable env buf w e = (Inr out, w', e') \<Longrightarrow>
     fw_step env buf (w, e) (w', e')"
| deadline: "check_deadlines t w = (None, w') \<Longrightarrow> fw_step env buf (w, e) (w', e)"
| unguard: "fw_step env buf (w, e) (reset_spin_guard w, e)"

inductive_cases fw_stepE: "fw_step env buf s s'"

definition fw_inv :: "('e \<Rightarrow> bytes) \<Rightarrow> bytes \<Rightarrow> bytes \<Rightarrow> instant \<Rightarrow> FrameWriteState \<times> 'e \<Rightarrow> bool" where
  "fw_inv acc base frame c s =
     (case s of (w, e) \<Rightarrow> fw_n w = length frame \<and> fw_written w \<le> length frame \<and>
        acc e = base @ take (fw_written w) frame \<and> fw_frame_ceiling w = c \<and>
        (fw_written w < length frame \<longrightarrow> fw_written_at_budget w = fw_written w) \<and>
        fw_budget_deadline w \<le> c)"

lemma armed_deadline_le: "armed_deadline t c \<le> c"
  by (simp add: armed_deadline_def)

lemma begin_at_inv:
  assumes "writer_ok env acc" "begin_at pc env frame buf c e = (Inr (w, buf'), e')"
  shows "fw_inv acc (acc e) (take (fw_n w) buf') c (w, e')"
proof -
  obtain n where n: "encode_frame pc frame buf = Inr (n, buf')"
    using assms(2) by (auto simp: begin_at_def Let_def split: sum.splits prod.splits)
  then show ?thesis
    using assms(2) writer_ok_now [OF assms(1)] encode_frame_Inr(2,3) [OF n]
    by (auto simp: begin_at_def fw_inv_def armed_deadline_le Let_def split: prod.splits)
qed

lemma step_writable_inv:
  assumes ok: "writer_ok env acc" and frame: "take (fw_n w) buf = frame"
    and inv: "fw_inv acc base frame c (w, e)"
    and lt: "fw_written w < fw_n w" and st: "step_writable env buf w e = (Inr out, w', e')"
  shows "fw_n w' = fw_n w \<and> fw_inv acc base frame c (w', e') \<and>
    (out = WroteWhole \<longleftrightarrow> fw_written w' = fw_n w) \<and> (out = WouldBlock \<longrightarrow> fw_written w' = fw_written w)"
proof -
  have len: "length frame = fw_n w" using inv by (simp add: fw_inv_def)
  obtain r e1 where r: "env_write env (drop (fw_written w) frame) e = (r, e1)" by fastforce
  note wr = writer_ok_write [OF ok r]
  show ?thesis
  proof (cases "write_arm_of r")
    case (Took m)
    have "acc e1 = base @ take (fw_written w + m) frame" "fw_written w + m \<le> fw_n w"
      using wr(1) [OF Took] inv len lt by (auto simp: fw_inv_def take_add)
    then show ?thesis
      using st r Took inv len frame writer_ok_now [OF ok] armed_deadline_le
      by (auto simp: step_writable_def fw_inv_def Let_def split: prod.splits if_splits)
  next
    case NoByte
    then show ?thesis using st r wr(2) inv len lt frame by (auto simp: step_writable_def fw_inv_def Let_def)
  next
    case (Dead err)
    then show ?thesis using st r frame by (simp add: step_writable_def Let_def)
  qed
qed

lemma fw_step_inv:
  assumes "writer_ok env acc" "take n buf = frame" "fw_step env buf s s'"
    "fw_inv acc base frame c s" "fw_n (fst s) = n"
  shows "fw_inv acc base frame c s' \<and> fw_n (fst s') = n"
  using assms(3-)
proof (cases rule: fw_step.cases)
  case (attempt w e out w' e')
  then have "take (fw_n w) buf = frame" "fw_inv acc base frame c (w, e)" "fw_n w = n"
    using assms(2,4,5) by auto
  with step_writable_inv [OF assms(1) this(1,2) attempt(3,4)] attempt show ?thesis by simp
next
  case (deadline t w w' e)
  then show ?thesis using assms(4,5) armed_deadline_le [of t c]
    by (auto simp: check_deadlines_def fw_inv_def split: if_splits)
next
  case (unguard w e)
  then show ?thesis using assms(4,5) by (simp add: reset_spin_guard_def fw_inv_def)
qed

lemma fw_steps_inv:
  assumes "writer_ok env acc" "take n buf = frame" "(fw_step env buf)\<^sup>*\<^sup>* s s'"
    "fw_inv acc base frame c s" "fw_n (fst s) = n"
  shows "fw_inv acc base frame c s' \<and> fw_n (fst s') = n"
  using assms(3)
  by (induction rule: rtranclp_induct) (use assms(4,5) fw_step_inv [OF assms(1,2)] in auto)

lemma check_deadlines_exact:
  assumes "fw_inv acc base frame c (w, e)" "fw_written w < length frame"
  shows "check_deadlines t w =
    (if next_deadline w \<le> t then (Some (fw_classify_no_progress w), w) else (None, w))"
  using assms by (auto simp: check_deadlines_def fw_inv_def next_deadline_def min_def)

text \<open>Refused attempts in a row trip the guard at the threshold; an accepted byte clears it.\<close>

lemma step_no_progress:
  assumes "step_writable env buf w e = (Inr out, w', e')"
  shows "fw_consecutive_no_progress w' = (if out = WouldBlock then fw_consecutive_no_progress w + 1 else 0)"
    "fw_write_attempts w' = fw_write_attempts w + 1"
    "fw_would_blocks w' = fw_would_blocks w + (if out = WouldBlock then 1 else 0)"
  using assms by (auto simp: step_writable_def Let_def split: prod.splits write_arm.splits if_splits)

section \<open>A scripted socket\<close>

text \<open>
  An executable environment for concrete runs: per attempt the script says how many bytes
  the socket takes (\<open>0\<close> is a would-block); waits answer \<open>Ready\<close> until the script is empty and
  then time out; the clock advances by one millisecond at every reading.
\<close>

record script_env =
  se_takes :: "nat list"
  se_accepted :: bytes
  se_waits :: nat
  se_clock :: nat

definition script_send :: "script_env send_env" where
  "script_send =
     \<lparr>env_write = (\<lambda>bs e. case se_takes e of
          [] \<Rightarrow> (Inl (IoError WouldBlockKind ''''), e)
        | k # ks \<Rightarrow> (if k = 0 then (Inl (IoError WouldBlockKind ''''), e\<lparr>se_takes := ks\<rparr>)
                    else (Inr (min k (length bs)),
                          e\<lparr>se_takes := ks, se_accepted := se_accepted e @ take (min k (length bs)) bs\<rparr>))),
      env_wait = (\<lambda>d e. (if se_takes e = [] then TimedOut else Ready, e\<lparr>se_waits := se_waits e + 1\<rparr>)),
      env_now = (\<lambda>e. (se_clock e, e\<lparr>se_clock := se_clock e + 1000000\<rparr>))\<rparr>"

definition script_start :: "nat list \<Rightarrow> script_env" where
  "script_start ks = \<lparr>se_takes = ks, se_accepted = [], se_waits = 0, se_clock = 0\<rparr>"

lemma script_send_ok: "writer_ok script_send se_accepted" "counts_waits script_send se_waits"
  by (auto simp: writer_ok_def counts_waits_def script_send_def split: list.splits if_splits)

end
