(* ===== verification/Net_Poll.thy ===== *)
theory Net_Poll
  imports Stream_Send
begin

text \<open>
  The poll seam of the streamer's event loop, \<^verbatim>\<open>firmware/crates/pod-streamer/src/netpoll.rs\<close> and
  \<^verbatim>\<open>link.rs\<close>: directions to wait on, the TLS substitution rule, the classification of a wake,
  the wait for writability and the timeout arithmetic. The \<open>poll\<close> system call and the clock
  are parameters. Durations and instants are nanoseconds.

  The lemmas show that a de-armed direction is never polled, that a wake never outlasts the
  tick or (by more than the one-millisecond resolution) the next deadline, and that the
  writability wait never answers \<open>Ready\<close> past its deadline.
\<close>

section \<open>Directions\<close>

record PollInterest =
  pi_read :: bool
  pi_write :: bool

definition NONE :: PollInterest where "NONE = \<lparr>pi_read = False, pi_write = False\<rparr>"
definition READ :: PollInterest where "READ = \<lparr>pi_read = True, pi_write = False\<rparr>"
definition WRITE :: PollInterest where "WRITE = \<lparr>pi_read = False, pi_write = True\<rparr>"
definition BOTH :: PollInterest where "BOTH = \<lparr>pi_read = True, pi_write = True\<rparr>"

datatype Want = WantRead | WantWrite | WantNone

record PollPlan =
  plan_interest :: PollInterest
  plan_substituted :: nat

definition plan_poll_interest :: "bool \<Rightarrow> bool \<Rightarrow> Want \<Rightarrow> Want \<Rightarrow> PollPlan" where
  "plan_poll_interest readable writable read_want write_want =
     (let plan = \<lparr>plan_interest = NONE, plan_substituted = 0\<rparr>;
          plan = (if readable then
                    (if read_want = WantWrite
                     then plan\<lparr>plan_interest := (plan_interest plan)\<lparr>pi_write := True\<rparr>,
                               plan_substituted := plan_substituted plan + 1\<rparr>
                     else plan\<lparr>plan_interest := (plan_interest plan)\<lparr>pi_read := True\<rparr>\<rparr>)
                  else plan)
      in if writable then
           (if write_want = WantRead
            then plan\<lparr>plan_interest := (plan_interest plan)\<lparr>pi_read := True\<rparr>,
                      plan_substituted := plan_substituted plan + 1\<rparr>
            else plan\<lparr>plan_interest := (plan_interest plan)\<lparr>pi_write := True\<rparr>\<rparr>)
         else plan)"

text \<open>The bare socket polls what the caller armed.\<close>

definition tcp_poll_interest :: "bool \<Rightarrow> bool \<Rightarrow> PollInterest" where
  "tcp_poll_interest readable writable = \<lparr>pi_read = readable, pi_write = writable\<rparr>"

section \<open>Wakes\<close>

definition IDLE_TICK :: nat where "IDLE_TICK = from_millis 10"
definition INBOUND_STEPS_PER_WAKE :: nat where "INBOUND_STEPS_PER_WAKE = 8"
definition OUTBOUND_FRAMES_PER_WAKE :: nat where "OUTBOUND_FRAMES_PER_WAKE = 16"

datatype Readiness = PollReady bool bool | PollTimedOut | PollFault io_error

fun rd_readable :: "Readiness \<Rightarrow> bool" where
  "rd_readable (PollReady readable _) = readable"
| "rd_readable _ = False"

fun rd_writable :: "Readiness \<Rightarrow> bool" where
  "rd_writable (PollReady _ writable) = writable"
| "rd_writable _ = False"

definition classify_wake :: "bool \<Rightarrow> bool \<Rightarrow> u32 option \<Rightarrow> Readiness" where
  "classify_wake readable writable fault =
     (case fault of
        Some _ \<Rightarrow> PollFault (IoError OtherKind ''poll reported socket fault (revents='')
      | None \<Rightarrow> if readable \<or> writable then PollReady readable writable else PollTimedOut)"

text \<open>\<open>NetPoll::readiness\<close>: a failed poll call is a fault.\<close>

definition fold_errno :: "io_error + Readiness \<Rightarrow> Readiness" where
  "fold_errno r = (case r of Inr readiness \<Rightarrow> readiness | Inl e \<Rightarrow> PollFault e)"

definition poll_writable ::
  "(PollInterest \<Rightarrow> nat \<Rightarrow> 'e \<Rightarrow> Readiness \<times> 'e) \<Rightarrow> ('e \<Rightarrow> instant \<times> 'e) \<Rightarrow> instant \<Rightarrow> 'e \<Rightarrow> Writable \<times> 'e" where
  "poll_writable readiness now deadline e =
     (let (t, e1) = now e; (r, e2) = readiness WRITE (deadline - t) e1 in
      case r of
        PollFault err \<Rightarrow> (Fault err, e2)
      | PollReady _ writable \<Rightarrow>
          (if writable then let (u, e3) = now e2 in (if deadline \<le> u then TimedOut else Ready, e3)
           else (TimedOut, e2))
      | PollTimedOut \<Rightarrow> (TimedOut, e2))"

section \<open>Timeouts\<close>

definition timeout_to_next_deadline :: "instant \<Rightarrow> instant list \<Rightarrow> nat" where
  "timeout_to_next_deadline now deadlines =
     (let target = foldl min (now + IDLE_TICK) deadlines;
          ms = min (max 1 (as_millis (target - now))) (as_millis IDLE_TICK)
      in from_millis ms)"

definition poll_timeout :: "instant \<Rightarrow> instant option \<Rightarrow> bool \<Rightarrow> nat" where
  "poll_timeout now deadline work_pending =
     (if work_pending then 0
      else timeout_to_next_deadline now (case deadline of None \<Rightarrow> [] | Some d \<Rightarrow> [d]))"

section \<open>Laws\<close>

lemma plan_only_armed:
  "pi_read (plan_interest (plan_poll_interest r w rw ww)) \<longleftrightarrow> r \<and> rw \<noteq> WantWrite \<or> w \<and> ww = WantRead"
  "pi_write (plan_interest (plan_poll_interest r w rw ww)) \<longleftrightarrow> w \<and> ww \<noteq> WantRead \<or> r \<and> rw = WantWrite"
  "plan_substituted (plan_poll_interest r w rw ww) =
     (if r \<and> rw = WantWrite then 1 else 0) + (if w \<and> ww = WantRead then 1 else 0)"
  by (auto simp: plan_poll_interest_def NONE_def Let_def)

lemma idle_tick_ns: "IDLE_TICK = 10000000" "as_millis IDLE_TICK = 10"
  by (simp_all add: IDLE_TICK_def from_millis_def as_millis_def)

lemma poll_timeout_bounds:
  "poll_timeout now d work \<le> IDLE_TICK" "\<not> work \<Longrightarrow> from_millis 1 \<le> poll_timeout now d work"
  by (auto simp: poll_timeout_def timeout_to_next_deadline_def Let_def idle_tick_ns from_millis_def as_millis_def
      min_le_iff_disj)

lemma poll_timeout_deadline:
  "poll_timeout now (Some d) work \<le> max (d - now) (from_millis 1)"
proof -
  have "from_millis (as_millis n) \<le> n" for n by (simp add: from_millis_def as_millis_def)
  then have "from_millis (as_millis (min (now + IDLE_TICK) d - now)) \<le> d - now"
    by (rule le_trans) simp
  then show ?thesis
    by (auto simp: poll_timeout_def timeout_to_next_deadline_def Let_def from_millis_def min_def max_def)
qed

lemma poll_writable_Ready:
  assumes "poll_writable readiness now deadline e = (Ready, e')"
  obtains t e1 b e2 u where "now e = (t, e1)" "readiness WRITE (deadline - t) e1 = (PollReady b True, e2)"
    "now e2 = (u, e')" "u < deadline"
  using assms that
  by (auto simp: poll_writable_def Let_def split: prod.splits Readiness.splits if_splits)

end
