(* ===== verification/Capture_Ring.thy ===== *)
theory Capture_Ring
  imports Wire
begin

text \<open>
  The capture side: the ring-index arithmetic and the waveform statistics of
  \<^verbatim>\<open>firmware/crates/audio-pipeline/src/ring.rs\<close>, the writer of the capture ring
  (\<open>append_channel\<close> of \<^verbatim>\<open>firmware/devices/reachy-pod/src/alsa_capture.rs\<close>) and the reader and
  dating rule of \<^verbatim>\<open>firmware/crates/pod-streamer/src/segment.rs\<close>.

  Absolute sample indices and microsecond timestamps are \<open>u64\<close> counters that start at zero
  and advance at 16 kHz and 1 MHz; they are \<open>nat\<close> here. The \<open>i32\<close>/\<open>i64\<close> accumulators of the
  statistics are \<open>int\<close>; \<open>accum_bounds\<close> shows that they stay far inside their width.
\<close>

section \<open>Constants and state\<close>

definition RING_SECONDS :: nat where
  "RING_SECONDS = 2"

definition SAMPLE_RATE_HZ :: nat where
  "SAMPLE_RATE_HZ = 16000"

definition RING_CAPACITY_SAMPLES :: nat where
  "RING_CAPACITY_SAMPLES = RING_SECONDS * SAMPLE_RATE_HZ"

definition PREROLL_SAMPLES :: nat where
  "PREROLL_SAMPLES = SAMPLE_RATE_HZ"

record CaptureRing =
  cr_samples :: "i16 list"
  cr_write_head :: nat
  cr_anchor_sample :: nat
  cr_anchor_ts_us :: nat

definition new_ring :: CaptureRing where
  "new_ring = \<lparr>cr_samples = replicate RING_CAPACITY_SAMPLES 0, cr_write_head = 0,
     cr_anchor_sample = 0, cr_anchor_ts_us = 0\<rparr>"

section \<open>Index arithmetic\<close>

record RingIndex =
  ri_cap :: nat

definition RingIndex_new :: "nat \<Rightarrow> RingIndex option" where
  "RingIndex_new cap = (if cap = 0 then None else Some \<lparr>ri_cap = cap\<rparr>)"

definition slot :: "RingIndex \<Rightarrow> nat \<Rightarrow> nat" where
  "slot ri sample_index = sample_index mod ri_cap ri"

definition held :: "RingIndex \<Rightarrow> nat \<Rightarrow> nat" where
  "held ri write_head = min write_head (ri_cap ri)"

definition oldest :: "RingIndex \<Rightarrow> nat \<Rightarrow> nat" where
  "oldest ri write_head = write_head - held ri write_head"

definition is_valid :: "RingIndex \<Rightarrow> nat \<Rightarrow> nat \<Rightarrow> bool" where
  "is_valid ri write_head sample_index \<longleftrightarrow> oldest ri write_head \<le> sample_index \<and> sample_index < write_head"

definition preroll_cursor :: "RingIndex \<Rightarrow> nat \<Rightarrow> nat \<Rightarrow> nat" where
  "preroll_cursor ri write_head preroll_samples = max (write_head - preroll_samples) (oldest ri write_head)"

definition is_overrun :: "RingIndex \<Rightarrow> nat \<Rightarrow> nat \<Rightarrow> bool" where
  "is_overrun ri write_head cursor \<longleftrightarrow> cursor + ri_cap ri < write_head"

definition ri_available :: "RingIndex \<Rightarrow> nat \<Rightarrow> nat \<Rightarrow> nat" where
  "ri_available ri write_head cursor = write_head - cursor"

definition is_continuous :: "nat \<Rightarrow> nat \<Rightarrow> nat \<Rightarrow> bool" where
  "is_continuous last_index frame_samples got_index \<longleftrightarrow> last_index + frame_samples = got_index"

section \<open>Writer and reader\<close>

definition CHANNELS :: nat where
  "CHANNELS = 2"

fun chunks_exact :: "nat \<Rightarrow> 'a list \<Rightarrow> 'a list list" where
  "chunks_exact n xs =
     (if n = 0 \<or> length xs < n then [] else take n xs # chunks_exact n (drop n xs))"

declare chunks_exact.simps [simp del]

definition put_sample :: "RingIndex \<Rightarrow> CaptureRing \<Rightarrow> i16 \<Rightarrow> CaptureRing" where
  "put_sample ridx ring x =
     ring\<lparr>cr_samples := (cr_samples ring)[slot ridx (cr_write_head ring) := x],
          cr_write_head := cr_write_head ring + 1\<rparr>"

definition append_channel :: "i16 list \<Rightarrow> nat \<Rightarrow> nat \<Rightarrow> CaptureRing \<Rightarrow> CaptureRing option" where
  "append_channel interleaved channel now_us ring =
     (if CHANNELS \<le> channel then None
      else
        let ridx = \<lparr>ri_cap = RING_CAPACITY_SAMPLES\<rparr>;
            ring1 = foldl (\<lambda>r frame. put_sample ridx r (frame ! channel)) ring (chunks_exact CHANNELS interleaved)
        in Some (if interleaved \<noteq> []
                 then ring1\<lparr>cr_anchor_sample := cr_write_head ring1 - 1, cr_anchor_ts_us := now_us\<rparr>
                 else ring1))"

text \<open>\<open>None\<close>: a push beyond the capacity of the payload vector, which the code \<open>expect\<close>s away.\<close>

fun push_pcm_samples :: "CaptureRing \<Rightarrow> RingIndex \<Rightarrow> nat \<Rightarrow> nat \<Rightarrow> bytes \<Rightarrow> bytes option" where
  "push_pcm_samples ring ridx first_index 0 pcm = Some pcm"
| "push_pcm_samples ring ridx first_index (Suc count) pcm =
     (if MAX_AUDIO_PAYLOAD < length pcm + 2 then None
      else push_pcm_samples ring ridx (first_index + 1) count
             (pcm @ i16_to_le_bytes (cr_samples ring ! slot ridx first_index)))"

definition frame_ts_us :: "nat \<Rightarrow> nat \<Rightarrow> nat \<Rightarrow> nat" where
  "frame_ts_us anchor_sample anchor_ts_us first_index =
     (if first_index \<le> anchor_sample
      then anchor_ts_us - (anchor_sample - first_index) * 1000000 div SAMPLE_RATE_HZ
      else anchor_ts_us + (first_index - anchor_sample) * 1000000 div SAMPLE_RATE_HZ)"

section \<open>Window statistics\<close>

definition ZERO_ABS_THRESHOLD :: int where "ZERO_ABS_THRESHOLD = 16"
definition STUCK_SPREAD_FLOOR :: int where "STUCK_SPREAD_FLOOR = 32"
definition SATURATION_ABS :: int where "SATURATION_ABS = 32700"

record WaveformAccum =
  wa_samples :: nat
  wa_min :: int
  wa_max :: int
  wa_sq_sum :: int
  wa_lag1_sum :: int
  wa_saturated :: nat
  wa_prev :: int

definition WaveformAccum_new :: WaveformAccum where
  "WaveformAccum_new = \<lparr>wa_samples = 0, wa_min = 2 ^ 31 - 1, wa_max = - (2 ^ 31), wa_sq_sum = 0,
     wa_lag1_sum = 0, wa_saturated = 0, wa_prev = 0\<rparr>"

definition wa_push :: "WaveformAccum \<Rightarrow> i16 \<Rightarrow> WaveformAccum" where
  "wa_push a sample =
     (let v = sint sample in
      a\<lparr>wa_min := min (wa_min a) v, wa_max := max (wa_max a) v, wa_sq_sum := wa_sq_sum a + v * v,
        wa_saturated := (if SATURATION_ABS \<le> \<bar>v\<bar> then wa_saturated a + 1 else wa_saturated a),
        wa_lag1_sum := (if 0 < wa_samples a then wa_lag1_sum a + v * wa_prev a else wa_lag1_sum a),
        wa_prev := v, wa_samples := wa_samples a + 1\<rparr>)"

text \<open>The integer part of \<open>finish\<close> and the accessors that \<open>defect\<close> gates on.\<close>

definition wa_window :: "i16 list \<Rightarrow> WaveformAccum" where
  "wa_window samples = foldl wa_push WaveformAccum_new samples"

definition ws_min :: "WaveformAccum \<Rightarrow> int" where
  "ws_min a = (if wa_samples a = 0 then 0 else wa_min a)"

definition ws_max :: "WaveformAccum \<Rightarrow> int" where
  "ws_max a = (if wa_samples a = 0 then 0 else wa_max a)"

definition max_abs :: "WaveformAccum \<Rightarrow> int" where
  "max_abs a = max \<bar>ws_max a\<bar> \<bar>ws_min a\<bar>"

definition spread :: "WaveformAccum \<Rightarrow> int" where
  "spread a = ws_max a - ws_min a"

section \<open>The ring holds the last samples captured\<close>

lemma is_valid_iff: "is_valid ri wh i \<longleftrightarrow> i < wh \<and> \<not> is_overrun ri wh i"
  by (auto simp: is_valid_def oldest_def held_def is_overrun_def min_def)

lemma slot_distinct:
  assumes "i < j" "j - i < ri_cap ri"
  shows "slot ri i \<noteq> slot ri j"
proof
  assume "slot ri i = slot ri j"
  then have "(j - i) mod ri_cap ri = 0"
    using assms(1) unfolding slot_def by (metis less_imp_le mod_eq_dvd_iff_nat dvd_imp_mod_0)
  then show False using assms by simp
qed

text \<open>\<open>H\<close> is the whole capture since the start, of which the ring holds the last \<open>cap\<close> samples.\<close>

definition capture_ok :: "RingIndex \<Rightarrow> i16 list \<Rightarrow> CaptureRing \<Rightarrow> bool" where
  "capture_ok ri H ring \<longleftrightarrow> 0 < ri_cap ri \<and> length (cr_samples ring) = ri_cap ri \<and>
     cr_write_head ring = length H \<and>
     (\<forall>i. is_valid ri (length H) i \<longrightarrow> cr_samples ring ! slot ri i = H ! i)"

lemma capture_ok_new: "capture_ok \<lparr>ri_cap = RING_CAPACITY_SAMPLES\<rparr> [] new_ring"
  by (simp add: capture_ok_def new_ring_def is_valid_def RING_CAPACITY_SAMPLES_def RING_SECONDS_def
      SAMPLE_RATE_HZ_def)

lemma capture_ok_put:
  assumes "capture_ok ri H ring"
  shows "capture_ok ri (H @ [x]) (put_sample ri ring x)"
proof -
  have cap: "0 < ri_cap ri" "length (cr_samples ring) = ri_cap ri" "cr_write_head ring = length H"
    using assms by (auto simp: capture_ok_def)
  have "(cr_samples ring)[slot ri (length H) := x] ! slot ri i = (H @ [x]) ! i"
    if v: "is_valid ri (Suc (length H)) i" for i
  proof (cases "i = length H")
    case True
    then show ?thesis using cap by (simp add: slot_def)
  next
    case False
    then have i: "i < length H" "length H - i < ri_cap ri"
      using v by (auto simp: is_valid_iff is_overrun_def)
    then have "cr_samples ring ! slot ri i = H ! i"
      using assms by (auto simp: capture_ok_def is_valid_iff is_overrun_def)
    then show ?thesis using slot_distinct [OF i] i by (simp add: nth_append)
  qed
  then show ?thesis using cap by (simp add: capture_ok_def put_sample_def)
qed

lemma capture_ok_foldl:
  "capture_ok ri H ring \<Longrightarrow> capture_ok ri (H @ map f xs) (foldl (\<lambda>r x. put_sample ri r (f x)) ring xs)"
proof (induction xs arbitrary: H ring)
  case (Cons x xs)
  from Cons.IH [OF capture_ok_put [OF Cons.prems, of "f x"]] show ?case by simp
qed simp

lemma push_pcm_samples_spec:
  assumes "capture_ok ri H ring"
  shows "\<lbrakk>first + count \<le> length H; \<not> is_overrun ri (length H) first;
      length pcm + 2 * count \<le> MAX_AUDIO_PAYLOAD\<rbrakk> \<Longrightarrow>
    push_pcm_samples ring ri first count pcm =
      Some (pcm @ concat (map i16_to_le_bytes (take count (drop first H))))"
proof (induction count arbitrary: first pcm)
  case (Suc count)
  have "cr_samples ring ! slot ri first = H ! first"
    using assms Suc.prems by (auto simp: capture_ok_def is_valid_iff)
  moreover have "drop first H = H ! first # drop (Suc first) H"
    using Suc.prems(1) by (simp add: Cons_nth_drop_Suc)
  ultimately show ?case
    using Suc.IH [of "Suc first" "pcm @ i16_to_le_bytes (H ! first)"] Suc.prems
    by (auto simp: is_overrun_def i16_to_le_bytes_def)
qed simp

section \<open>Dating\<close>

lemma frame_ts_us_mono:
  assumes "i \<le> j"
  shows "frame_ts_us a t i \<le> frame_ts_us a t j"
proof -
  have "(a - j) * 1000000 div SAMPLE_RATE_HZ \<le> (a - i) * 1000000 div SAMPLE_RATE_HZ"
    using assms by (intro div_le_mono mult_le_mono1 diff_le_mono2)
  moreover have "(i - a) * 1000000 div SAMPLE_RATE_HZ \<le> (j - a) * 1000000 div SAMPLE_RATE_HZ"
    using assms by (intro div_le_mono mult_le_mono1 diff_le_mono)
  ultimately show ?thesis
    using assms unfolding frame_ts_us_def by (auto intro: diff_le_mono2 le_trans [OF diff_le_self])
qed

lemma frame_span:
  "(d + AUDIO_SAMPLES_PER_FRAME) * 1000000 div SAMPLE_RATE_HZ = d * 1000000 div SAMPLE_RATE_HZ + 20000"
proof -
  have "(d + AUDIO_SAMPLES_PER_FRAME) * 1000000 = d * 1000000 + SAMPLE_RATE_HZ * 20000"
    by (simp add: AUDIO_SAMPLES_PER_FRAME_def SAMPLE_RATE_HZ_def)
  then show ?thesis by (simp add: SAMPLE_RATE_HZ_def)
qed

lemma frame_ts_us_step:
  assumes "i + AUDIO_SAMPLES_PER_FRAME \<le> a \<and> (a - i) * 1000000 div SAMPLE_RATE_HZ \<le> t \<or> a \<le> i"
  shows "frame_ts_us a t (i + AUDIO_SAMPLES_PER_FRAME) = frame_ts_us a t i + 20000"
proof (cases "a \<le> i")
  case True
  then have "i + AUDIO_SAMPLES_PER_FRAME - a = (i - a) + AUDIO_SAMPLES_PER_FRAME" by simp
  then show ?thesis using True frame_span [of "i - a"]
    by (cases "i = a") (simp_all add: frame_ts_us_def AUDIO_SAMPLES_PER_FRAME_def)
next
  case False
  then have "a - i = (a - (i + AUDIO_SAMPLES_PER_FRAME)) + AUDIO_SAMPLES_PER_FRAME"
    and "(a - i) * 1000000 div SAMPLE_RATE_HZ \<le> t" "i + AUDIO_SAMPLES_PER_FRAME \<le> a"
    using assms by auto
  then show ?thesis using False frame_span [of "a - (i + AUDIO_SAMPLES_PER_FRAME)"]
    by (simp add: frame_ts_us_def)
qed

section \<open>The statistics are those of the window\<close>

lemma wa_window_snoc [simp]: "wa_window (xs @ [x]) = wa_push (wa_window xs) x"
  by (simp add: wa_window_def)

lemma wa_window_simps [simp]:
  "wa_window [] = WaveformAccum_new" "wa_window [x] = wa_push WaveformAccum_new x"
  by (simp_all add: wa_window_def)

lemma sint_i16_bounds: "- 32768 \<le> sint (x :: i16)" "sint (x :: i16) \<le> 32767"
  using sint_greater_eq [of x] sint_less [of x] by simp_all

lemma wa_window_sums:
  "wa_samples (wa_window xs) = length xs" "wa_sq_sum (wa_window xs) = (\<Sum>x\<leftarrow>xs. sint x * sint x)"
  "wa_saturated (wa_window xs) = length (filter (\<lambda>x. SATURATION_ABS \<le> \<bar>sint x\<bar>) xs)"
  "xs \<noteq> [] \<Longrightarrow> wa_prev (wa_window xs) = sint (last xs)"
  by (induction xs rule: rev_induct) (auto simp: WaveformAccum_new_def wa_push_def Let_def)

lemma zip_tl_snoc:
  "xs \<noteq> [] \<Longrightarrow> zip (xs @ [x]) (tl (xs @ [x])) = zip xs (tl xs) @ [(last xs, x)]"
proof (induction xs)
  case (Cons a xs)
  then show ?case by (cases xs) auto
qed simp

lemma wa_window_lag1:
  "wa_lag1_sum (wa_window xs) = (\<Sum>(x, y)\<leftarrow>zip xs (tl xs). sint y * sint x)"
proof (induction xs rule: rev_induct)
  case (snoc x xs)
  then show ?case
    by (cases "xs = []") (simp_all add: wa_push_def Let_def wa_window_sums zip_tl_snoc WaveformAccum_new_def
        del: zip_append1 tl_append2 tl_append)
qed (simp add: WaveformAccum_new_def)

lemma wa_window_extremes:
  "xs \<noteq> [] \<Longrightarrow> wa_min (wa_window xs) = Min (sint ` set xs) \<and> wa_max (wa_window xs) = Max (sint ` set xs)"
proof (induction xs rule: rev_induct)
  case (snoc x xs)
  then show ?case
    using sint_i16_bounds [of x]
    by (cases "xs = []") (simp_all add: wa_push_def Let_def WaveformAccum_new_def min.commute max.commute)
qed simp

text \<open>The lag-1 sum never exceeds the energy, so the normalised value lies in \<open>[-1, 1]\<close>.\<close>

lemma two_abs_mult_le: "2 * \<bar>x * y\<bar> \<le> x * x + y * (y :: int)"
proof -
  have "0 \<le> (\<bar>x\<bar> - \<bar>y\<bar>) * (\<bar>x\<bar> - \<bar>y\<bar>)" by simp
  then show ?thesis by (simp add: algebra_simps abs_mult)
qed

lemma wa_window_cauchy:
  "2 * \<bar>wa_lag1_sum (wa_window xs)\<bar> + wa_prev (wa_window xs) * wa_prev (wa_window xs) \<le> 2 * wa_sq_sum (wa_window xs)"
proof (induction xs rule: rev_induct)
  case (snoc x xs)
  let ?a = "wa_window xs"
  have "\<bar>wa_lag1_sum ?a + sint x * wa_prev ?a\<bar> \<le> \<bar>wa_lag1_sum ?a\<bar> + \<bar>sint x * wa_prev ?a\<bar>"
    by (rule abs_triangle_ineq)
  with snoc two_abs_mult_le [of "sint x" "wa_prev ?a"] zero_le_square [of "wa_prev ?a"] zero_le_square [of "sint x"]
  show ?case by (auto simp: wa_push_def Let_def)
qed (simp add: WaveformAccum_new_def)

lemma accum_bounds:
  "0 \<le> wa_sq_sum (wa_window xs)" "wa_sq_sum (wa_window xs) \<le> int (length xs) * 2 ^ 30"
  "\<bar>wa_lag1_sum (wa_window xs)\<bar> \<le> wa_sq_sum (wa_window xs)"
proof -
  have sq: "sint x * sint x \<le> 2 ^ 30" "0 \<le> sint x * sint x" for x :: i16
  proof -
    have "\<bar>sint x\<bar> \<le> 32768" using sint_i16_bounds [of x] by linarith
    then have "\<bar>sint x\<bar> * \<bar>sint x\<bar> \<le> 32768 * 32768" by (intro mult_mono) auto
    then show "sint x * sint x \<le> 2 ^ 30" "0 \<le> sint x * sint x" by (simp_all add: abs_mult_self_eq)
  qed
  show 0: "0 \<le> wa_sq_sum (wa_window xs)"
    unfolding wa_window_sums by (intro sum_list_nonneg) (auto simp: sq)
  show "wa_sq_sum (wa_window xs) \<le> int (length xs) * 2 ^ 30"
  proof (induction xs rule: rev_induct)
    case (snoc x xs)
    then show ?case using sq(1) [of x] by (simp add: wa_push_def Let_def algebra_simps)
  qed (simp add: WaveformAccum_new_def)
  show "\<bar>wa_lag1_sum (wa_window xs)\<bar> \<le> wa_sq_sum (wa_window xs)"
    using wa_window_cauchy [of xs] zero_le_square [of "wa_prev (wa_window xs)"] by linarith
qed

end
