(* ===== verification/Pace.thy ===== *)
theory Pace
  imports Capture_Ring
begin

text \<open>
  The real-time pacing of \<^verbatim>\<open>firmware/crates/audio-pipeline/src/pace.rs\<close>: the emit schedule of
  the catch-up drain and the absolute schedule. Instants are monotonic microseconds,
  \<open>nat\<close> here: the \<open>u64\<close> counters of the code overflow after half a million years.

  The lemmas bound what any sequence of emissions that respects the schedule can release:
  at most \<open>MAX_PACE_LAG_PERIODS + 1\<close> frames at one instant, and over any stretch of a segment
  no more than the paced rate plus that burst.
\<close>

section \<open>Schedule\<close>

definition CATCH_UP_PACE_MULTIPLIER :: nat where
  "CATCH_UP_PACE_MULTIPLIER = 4"

definition AUDIO_FRAME_PERIOD_US :: nat where
  "AUDIO_FRAME_PERIOD_US = AUDIO_SAMPLES_PER_FRAME * 1000000 div SAMPLE_RATE_HZ"

definition CATCH_UP_PACED_FRAME_US :: nat where
  "CATCH_UP_PACED_FRAME_US = AUDIO_FRAME_PERIOD_US div CATCH_UP_PACE_MULTIPLIER"

definition MAX_PACE_LAG_PERIODS :: nat where
  "MAX_PACE_LAG_PERIODS = 4"

definition pace_allows :: "nat option \<Rightarrow> nat \<Rightarrow> bool" where
  "pace_allows schedule now_us = (case schedule of None \<Rightarrow> True | Some earliest \<Rightarrow> earliest \<le> now_us)"

definition pace_wait_us :: "nat option \<Rightarrow> nat \<Rightarrow> nat option" where
  "pace_wait_us schedule now_us =
     (case schedule of
        None \<Rightarrow> None
      | Some earliest \<Rightarrow> if now_us < earliest then Some (earliest - now_us) else None)"

record PaceAdvance =
  next_schedule_us :: nat
  resynced :: bool

definition advance_pace_us :: "nat option \<Rightarrow> nat \<Rightarrow> PaceAdvance" where
  "advance_pace_us schedule now_us =
     (let (base, res) =
        (case schedule of
           Some earliest \<Rightarrow>
             let lag_floor = now_us - MAX_PACE_LAG_PERIODS * CATCH_UP_PACED_FRAME_US
             in (max earliest lag_floor, earliest < lag_floor)
         | None \<Rightarrow> (now_us, False))
      in \<lparr>next_schedule_us = base + CATCH_UP_PACED_FRAME_US, resynced = res\<rparr>)"

definition paced_drain_us :: "nat \<Rightarrow> nat" where
  "paced_drain_us frames = frames * CATCH_UP_PACED_FRAME_US"

definition absolute_frames_due :: "nat \<Rightarrow> nat \<Rightarrow> nat \<Rightarrow> nat \<Rightarrow> nat \<Rightarrow> nat option" where
  "absolute_frames_due now_us start_us interval_us committed total_frames =
     (if interval_us = 0 then None
      else Some (max (min ((now_us - start_us) div interval_us) total_frames) (committed + 1)))"

section \<open>Emissions\<close>

text \<open>
  The instants of a segment's emissions: each one is allowed by the schedule the previous
  one left, and the clock does not run backwards.
\<close>

fun paced_run :: "nat option \<Rightarrow> nat list \<Rightarrow> bool" where
  "paced_run schedule [] = True"
| "paced_run schedule (t # ts) \<longleftrightarrow>
     pace_allows schedule t \<and> (\<forall>u \<in> set ts. t \<le> u) \<and>
     paced_run (Some (next_schedule_us (advance_pace_us schedule t))) ts"

lemma paced_frame_us: "CATCH_UP_PACED_FRAME_US = 5000"
  by (simp add: CATCH_UP_PACED_FRAME_US_def AUDIO_FRAME_PERIOD_US_def AUDIO_SAMPLES_PER_FRAME_def
      SAMPLE_RATE_HZ_def CATCH_UP_PACE_MULTIPLIER_def)

lemma next_schedule_bounds:
  "s + 5000 \<le> next_schedule_us (advance_pace_us (Some s) t)"
  "t \<le> next_schedule_us (advance_pace_us (Some s) t) + 15000"
  "next_schedule_us (advance_pace_us None t) = t + 5000"
  by (auto simp: advance_pace_us_def Let_def paced_frame_us MAX_PACE_LAG_PERIODS_def)

text \<open>From a standing schedule \<open>s\<close>, the \<open>k\<close>-th further emission is at \<open>s + k\<close> periods or later.\<close>

lemma paced_run_nth:
  "paced_run (Some s) ts \<Longrightarrow> k < length ts \<Longrightarrow> s + k * 5000 \<le> ts ! k"
proof (induction ts arbitrary: s k)
  case (Cons t ts)
  show ?case
  proof (cases k)
    case 0
    then show ?thesis using Cons.prems by (simp add: pace_allows_def)
  next
    case (Suc j)
    then have "next_schedule_us (advance_pace_us (Some s) t) + j * 5000 \<le> ts ! j"
      using Cons by simp
    then show ?thesis using Suc next_schedule_bounds(1) [of s t] by simp
  qed
qed simp

lemma paced_run_from_start:
  assumes "paced_run None ts" "k < length ts"
  shows "hd ts + k * CATCH_UP_PACED_FRAME_US \<le> ts ! k"
proof (cases ts)
  case (Cons t us)
  show ?thesis
  proof (cases k)
    case (Suc j)
    then show ?thesis using paced_run_nth [of "t + 5000" us j] assms Cons
      by (simp add: next_schedule_bounds(3) paced_frame_us)
  qed (simp add: Cons)
qed (use assms in simp)

lemma paced_run_drop:
  "paced_run s ts \<Longrightarrow> i < length ts \<Longrightarrow> \<exists>s'. paced_run s' (drop i ts)"
proof (induction ts arbitrary: s i)
  case (Cons t ts)
  show ?case
  proof (cases i)
    case (Suc j)
    then show ?thesis using Cons by auto
  qed (use Cons.prems in auto)
qed simp

lemma paced_run_window:
  assumes "paced_run s ts" "i \<le> j" "j < length ts"
  shows "(j - i) * CATCH_UP_PACED_FRAME_US \<le>
    ts ! j - ts ! i + MAX_PACE_LAG_PERIODS * CATCH_UP_PACED_FRAME_US"
proof (cases "i = j")
  case False
  obtain s' where run: "paced_run s' (drop i ts)"
    using paced_run_drop [OF assms(1), of i] assms(2,3) by auto
  have cons: "drop i ts = ts ! i # drop (Suc i) ts"
    using assms(2,3) by (simp add: Cons_nth_drop_Suc)
  let ?n = "next_schedule_us (advance_pace_us s' (ts ! i))"
  have "paced_run (Some ?n) (drop (Suc i) ts)" using run cons by simp
  then have "?n + (j - Suc i) * 5000 \<le> drop (Suc i) ts ! (j - Suc i)"
    using False assms(2,3) by (intro paced_run_nth) auto
  moreover have "drop (Suc i) ts ! (j - Suc i) = ts ! j" using False assms(2,3) by simp
  moreover have "ts ! i \<le> ?n + 15000"
    using next_schedule_bounds(2,3) [of "ts ! i"] by (cases s') auto
  moreover have "(j - i) * 5000 = (j - Suc i) * 5000 + 5000" using False assms(2) by (simp add: diff_mult_distrib)
  ultimately show ?thesis by (simp add: paced_frame_us MAX_PACE_LAG_PERIODS_def)
qed simp

end
