(* ===== verification/Segment.thy ===== *)
theory Segment
  imports Inbound Net_Poll Pace "HOL-Library.Sublist"
begin

text \<open>
  The per-segment event loop, \<open>run_segment\<close> of \<^verbatim>\<open>firmware/crates/pod-streamer/src/segment.rs\<close>: one
  gated utterance from the pre-roll cursor to its \<open>SegmentEnd\<close>, with the poll, the channel
  drain, the inbound pump, the outbound selector with its pace gate, and the write watchdog.

  The loop runs as long as the gate is open, so it is modelled as a machine that takes one
  turn of one of its loops per step: the phase says which block of the loop body is next,
  and each phase has one definition, composed by \<open>seg_step\<close>. Socket, clocks, poll, channel,
  VAD flag and the capture thread behind the ring lock are the environment, a parameter; each of its
  operations returns the environment after the call, so they may interleave in any order.

  The invariant says what the peer can see at every step: whole frames of this segment in
  capture order, without gap or repetition, and a prefix of the one in flight.
\<close>

section \<open>Messages, events and exits\<close>

datatype StreamerMsg = VadOpened nat | VadClosed | TelemetryMsg Telemetry

datatype try_recv_result = Received StreamerMsg | ChannelEmpty | ChannelDisconnected

definition SPIN_BACKOFF_MS :: nat where "SPIN_BACKOFF_MS = 10"
definition PENDING_TELEMETRY_CAP :: nat where "PENDING_TELEMETRY_CAP = 8"
definition PRODUCTION_OBS_PERIOD_US :: nat where "PRODUCTION_OBS_PERIOD_US = 1000000"

datatype ObsEvent = SegmentOpen | PrerollDrained | WriteBlocked | Production | TelemetryDropped nat

datatype OutboundKind = OutAudio u32 | OutTelemetry | OutSegmentEnd

datatype SegmentExit = Completed | SegmentDroppedSocketKept | SocketLost

section \<open>Dependencies and variables\<close>

text \<open>
  \<open>SegmentDeps\<close>: the seams of the loop. The ring lock yields the ring as the capture thread
  left it, \<open>None\<close> for a ring that is not initialised.
\<close>

record ('s, 'e) SegmentDeps =
  sd_pc :: postcard
  sd_send :: "'e send_env"
  sd_read :: "'e reader"
  sd_poll_interest :: "bool \<Rightarrow> bool \<Rightarrow> 'e \<Rightarrow> PollInterest"
  sd_buffers_plaintext :: bool
  sd_readiness :: "PollInterest \<Rightarrow> nat \<Rightarrow> 'e \<Rightarrow> Readiness \<times> 'e"
  sd_try_recv :: "'e \<Rightarrow> try_recv_result \<times> 'e"
  sd_vad_closed_flag :: "'e \<Rightarrow> bool \<times> 'e"
  sd_ring :: "'e \<Rightarrow> CaptureRing option \<times> 'e"
  sd_ridx :: RingIndex
  sd_now_us :: "'e \<Rightarrow> nat \<times> 'e"
  sd_sink :: "'s PlaybackSink"
  sd_segment_id :: u32

record 's SegmentVars =
  sg_read_cursor :: nat
  sg_frames_sent :: u32
  sg_samples_sent :: u64
  sg_pace_resyncs :: u32
  sg_vad_closed :: bool
  sg_outbound :: "(FrameWriteState \<times> OutboundKind) option"
  sg_segment_end :: "EndReason option"
  sg_channel_lost :: bool
  sg_write_blocked :: bool
  sg_work_pending :: bool
  sg_audio_pace_schedule :: "nat option"
  sg_pace_deadline :: "instant option"
  sg_spin_backoff_deadline :: "instant option"
  sg_pending_telemetry :: "Telemetry list"
  sg_preroll_drain_logged :: bool
  sg_first_write_blocked_logged :: bool
  sg_last_periodic_wp_us :: nat
  sg_accum :: FrameAccumulator
  sg_route :: "'s route"
  sg_outbound_buf :: bytes
  sg_obs :: "ObsEvent list"
  sg_inbound_armed :: bool
  sg_ready :: Readiness
  sg_inbound_work :: bool
  sg_outbound_work :: bool
  sg_frames_this_wake :: nat

text \<open>The blocks of the loop body, and how a step ends: \<open>Panicked\<close> is a panic of the thread.\<close>

datatype SegPhase = AtPoll | AtChannel | AtInbound | AtOutbound | AtWatchdog

datatype 's seg_result = Running SegPhase "'s SegmentVars" | Exited SegmentExit "'s SegmentVars" | Panicked

definition emit :: "ObsEvent \<Rightarrow> 's SegmentVars \<Rightarrow> 's SegmentVars" where
  "emit ev s = s\<lparr>sg_obs := sg_obs s @ [ev]\<rparr>"

definition segment_open ::
  "('s, 'e) SegmentDeps \<Rightarrow> nat \<Rightarrow> FrameAccumulator \<Rightarrow> 's route \<Rightarrow> bytes \<Rightarrow> 'e \<Rightarrow> 's seg_result \<times> 'e" where
  "segment_open deps read_cursor accum route buf e =
     (let (seg_start_us, e1) = sd_now_us deps e in
      (Running AtPoll (emit SegmentOpen
        \<lparr>sg_read_cursor = read_cursor, sg_frames_sent = 0, sg_samples_sent = 0, sg_pace_resyncs = 0,
         sg_vad_closed = False, sg_outbound = None, sg_segment_end = None, sg_channel_lost = False,
         sg_write_blocked = False, sg_work_pending = True, sg_audio_pace_schedule = None,
         sg_pace_deadline = None, sg_spin_backoff_deadline = None, sg_pending_telemetry = [],
         sg_preroll_drain_logged = False, sg_first_write_blocked_logged = False,
         sg_last_periodic_wp_us = seg_start_us, sg_accum = accum, sg_route = route, sg_outbound_buf = buf,
         sg_obs = [], sg_inbound_armed = False, sg_ready = PollTimedOut, sg_inbound_work = False,
         sg_outbound_work = False, sg_frames_this_wake = 0\<rparr>), e1))"

section \<open>The poll\<close>

definition min_deadline :: "instant option list \<Rightarrow> instant option" where
  "min_deadline ds = (case [d. Some d \<leftarrow> ds] of [] \<Rightarrow> None | x # xs \<Rightarrow> Some (foldl min x xs))"

definition seg_poll :: "('s, 'e) SegmentDeps \<Rightarrow> 's SegmentVars \<Rightarrow> 'e \<Rightarrow> 's seg_result \<times> 'e" where
  "seg_poll deps s e =
     (let (now_us, e1) = sd_now_us deps e;
          s1 = (if PRODUCTION_OBS_PERIOD_US \<le> now_us - sg_last_periodic_wp_us s
                then emit Production (s\<lparr>sg_last_periodic_wp_us := now_us\<rparr>) else s);
          inbound_armed = inbound_has_room (sg_accum s1);
          (now, e2) = env_now (sd_send deps) e1;
          s2 = (case sg_spin_backoff_deadline s1 of
                  Some d \<Rightarrow>
                    if d \<le> now
                    then s1\<lparr>sg_spin_backoff_deadline := None,
                            sg_outbound := map_option (\<lambda>(w, k). (reset_spin_guard w, k)) (sg_outbound s1)\<rparr>
                    else s1
                | None \<Rightarrow> s1);
          interest = sd_poll_interest deps inbound_armed
                       (sg_write_blocked s2 \<and> sg_spin_backoff_deadline s2 = None) e2;
          write_deadline = (if sg_write_blocked s2 then map_option (next_deadline \<circ> fst) (sg_outbound s2) else None);
          deadline = min_deadline [write_deadline, sg_pace_deadline s2, sg_spin_backoff_deadline s2];
          timeout = poll_timeout now deadline (sg_work_pending s2);
          (ready, e3) = sd_readiness deps interest timeout e2;
          s3 = s2\<lparr>sg_pace_deadline := None, sg_inbound_armed := inbound_armed, sg_ready := ready\<rparr>
      in case ready of PollFault _ \<Rightarrow> (Exited SocketLost s3, e3) | _ \<Rightarrow> (Running AtChannel s3, e3))"

section \<open>The channel drain\<close>

text \<open>One turn of the \<open>while\<close> loop.\<close>

definition seg_channel :: "('s, 'e) SegmentDeps \<Rightarrow> 's SegmentVars \<Rightarrow> 'e \<Rightarrow> 's seg_result \<times> 'e" where
  "seg_channel deps s e =
     (if sg_channel_lost s then (Running AtInbound s, e)
      else
        let (r, e1) = sd_try_recv deps e in
        case r of
          Received (TelemetryMsg tel) \<Rightarrow>
            let s1 = (if PENDING_TELEMETRY_CAP \<le> length (sg_pending_telemetry s)
                      then emit (TelemetryDropped PENDING_TELEMETRY_CAP)
                             (s\<lparr>sg_pending_telemetry := tl (sg_pending_telemetry s)\<rparr>)
                      else s)
            in (Running AtChannel (s1\<lparr>sg_pending_telemetry := sg_pending_telemetry s1 @ [tel]\<rparr>), e1)
        | Received VadClosed \<Rightarrow> (Running AtChannel (s\<lparr>sg_vad_closed := True\<rparr>), e1)
        | Received (VadOpened _) \<Rightarrow> (Running AtChannel s, e1)
        | ChannelEmpty \<Rightarrow> (Running AtInbound s, e1)
        | ChannelDisconnected \<Rightarrow>
            (Running AtInbound
               (s\<lparr>sg_channel_lost := True,
                  sg_segment_end := (if sg_segment_end s = None then Some InternalError else sg_segment_end s)\<rparr>), e1))"

section \<open>The inbound pump\<close>

definition load_vad_flag :: "('s, 'e) SegmentDeps \<Rightarrow> 's SegmentVars \<Rightarrow> 'e \<Rightarrow> 's SegmentVars \<times> 'e" where
  "load_vad_flag deps s e =
     (if sg_vad_closed s then (s, e)
      else let (closed, e1) = sd_vad_closed_flag deps e
           in (if closed then s\<lparr>sg_vad_closed := True\<rparr> else s, e1))"

definition enter_outbound :: "bool \<Rightarrow> 's SegmentVars \<Rightarrow> 's seg_result" where
  "enter_outbound inbound_work s =
     Running AtOutbound
       (s\<lparr>sg_inbound_work := inbound_work,
          sg_write_blocked := (if rd_writable (sg_ready s) then False else sg_write_blocked s),
          sg_outbound_work := False, sg_frames_this_wake := 0\<rparr>)"

definition seg_inbound :: "('s, 'e) SegmentDeps \<Rightarrow> 's SegmentVars \<Rightarrow> 'e \<Rightarrow> 's seg_result \<times> 'e" where
  "seg_inbound deps s e =
     (let (s1, e1) = load_vad_flag deps s e in
      if rd_readable (sg_ready s1) \<or> \<not> sg_inbound_armed s1 \<or> sd_buffers_plaintext deps
      then (case pump_inbound (sd_pc deps) (sd_sink deps) (sd_read deps) INBOUND_STEPS_PER_WAKE e1
                   (sg_accum s1) (sg_route s1) of
              None \<Rightarrow> (Panicked, e1)
            | Some (Inr hit_cap, e2, accum', route') \<Rightarrow>
                (enter_outbound hit_cap (s1\<lparr>sg_accum := accum', sg_route := route'\<rparr>), e2)
            | Some (Inl _, e2, accum', route') \<Rightarrow>
                (Exited SocketLost (s1\<lparr>sg_accum := accum', sg_route := note_inbound_exit route'\<rparr>), e2))
      else (enter_outbound False s1, e1))"

section \<open>The outbound selector\<close>

text \<open>How a selection ends: a frame is in flight, the loop turns again, it breaks, or the segment ends.\<close>

datatype 's selected = Built "'s SegmentVars" | Again "'s SegmentVars" | Break "'s SegmentVars"
  | Leave SegmentExit "'s SegmentVars" | SelectPanic

definition put_in_flight ::
  "('s, 'e) SegmentDeps \<Rightarrow> StreamFrame \<Rightarrow> OutboundKind \<Rightarrow> SegmentExit \<Rightarrow> ('s SegmentVars \<Rightarrow> 's SegmentVars) \<Rightarrow>
     's SegmentVars \<Rightarrow> 'e \<Rightarrow> 's selected \<times> 'e" where
  "put_in_flight deps frame knd on_error on_ok s e =
     (case begin_frame (sd_pc deps) (sd_send deps) frame (sg_outbound_buf s) e of
        (Inr (w, buf'), e1) \<Rightarrow> (Built ((on_ok s)\<lparr>sg_outbound := Some (w, knd), sg_outbound_buf := buf'\<rparr>), e1)
      | (Inl _, e1) \<Rightarrow> (Leave on_error s, e1))"

definition select_end :: "('s, 'e) SegmentDeps \<Rightarrow> EndReason \<Rightarrow> 's SegmentVars \<Rightarrow> 'e \<Rightarrow> 's selected \<times> 'e" where
  "select_end deps reason s e =
     (let (now_us, e1) = sd_now_us deps e in
      put_in_flight deps
        (FSegmentEnd \<lparr>se_segment_id = sd_segment_id deps, se_device_ts_us = of_nat now_us,
           se_frames_sent = sg_frames_sent s, se_samples_sent = sg_samples_sent s, se_reason = reason\<rparr>)
        OutSegmentEnd SocketLost id s e1)"

definition audio_frame :: "('s, 'e) SegmentDeps \<Rightarrow> nat \<Rightarrow> nat \<Rightarrow> bytes \<Rightarrow> StreamFrame" where
  "audio_frame deps first_index ts pcm =
     FAudio \<lparr>af_segment_id = sd_segment_id deps, af_first_sample_index = of_nat first_index,
             af_device_ts_us = of_nat ts, af_pcm = pcm\<rparr>"

definition select_full ::
  "('s, 'e) SegmentDeps \<Rightarrow> nat \<Rightarrow> nat \<Rightarrow> 's SegmentVars \<Rightarrow> 'e \<Rightarrow> 's selected \<times> 'e" where
  "select_full deps anchor_sample anchor_ts_us s e =
     (let (now_us, e1) = sd_now_us deps e in
      case pace_wait_us (sg_audio_pace_schedule s) now_us of
        Some wait_us \<Rightarrow>
          let (t, e2) = env_now (sd_send deps) e1
          in (Break (s\<lparr>sg_pace_deadline := Some (t + wait_us * 1000)\<rparr>), e2)
      | None \<Rightarrow>
          let adv = advance_pace_us (sg_audio_pace_schedule s) now_us;
              s1 = s\<lparr>sg_pace_resyncs := (if resynced adv then saturating_inc (sg_pace_resyncs s) else sg_pace_resyncs s),
                     sg_audio_pace_schedule := Some (next_schedule_us adv)\<rparr>;
              first = sg_read_cursor s1;
              ts = frame_ts_us anchor_sample anchor_ts_us first;
              (locked, e2) = sd_ring deps e1
          in case locked of
               None \<Rightarrow> (SelectPanic, e2)
             | Some ring \<Rightarrow>
                 if is_overrun (sd_ridx deps) (cr_write_head ring) first
                 then (Again (s1\<lparr>sg_segment_end := Some Overrun\<rparr>), e2)
                 else (case push_pcm_samples ring (sd_ridx deps) first AUDIO_SAMPLES_PER_FRAME [] of
                         None \<Rightarrow> (SelectPanic, e2)
                       | Some pcm \<Rightarrow>
                           put_in_flight deps (audio_frame deps first ts pcm)
                             (OutAudio (of_nat AUDIO_SAMPLES_PER_FRAME)) SegmentDroppedSocketKept
                             (\<lambda>s. s\<lparr>sg_read_cursor := sg_read_cursor s + AUDIO_SAMPLES_PER_FRAME\<rparr>) s1 e2))"

definition select_partial :: "('s, 'e) SegmentDeps \<Rightarrow> nat \<Rightarrow> 's SegmentVars \<Rightarrow> 'e \<Rightarrow> 's selected \<times> 'e" where
  "select_partial deps partial s e =
     (if 0 < partial then
        let first = sg_read_cursor s; (locked, e1) = sd_ring deps e in
        case locked of
          None \<Rightarrow> (SelectPanic, e1)
        | Some ring \<Rightarrow>
            if is_overrun (sd_ridx deps) (cr_write_head ring) first
            then (Again (s\<lparr>sg_segment_end := Some Overrun\<rparr>), e1)
            else
              let ts = frame_ts_us (cr_anchor_sample ring) (cr_anchor_ts_us ring) first in
              (case push_pcm_samples ring (sd_ridx deps) first partial [] of
                 None \<Rightarrow> (SelectPanic, e1)
               | Some pcm \<Rightarrow>
                   put_in_flight deps (audio_frame deps first ts pcm) (OutAudio (of_nat partial))
                     SegmentDroppedSocketKept
                     (\<lambda>s. s\<lparr>sg_read_cursor := sg_read_cursor s + partial, sg_segment_end := Some VadRelease\<rparr>) s e1)
      else (Again (s\<lparr>sg_segment_end := Some VadRelease\<rparr>), e))"

definition select_audio :: "('s, 'e) SegmentDeps \<Rightarrow> 's SegmentVars \<Rightarrow> 'e \<Rightarrow> 's selected \<times> 'e" where
  "select_audio deps s e =
     (let (locked, e1) = sd_ring deps e in
      case locked of
        None \<Rightarrow> (SelectPanic, e1)
      | Some ring \<Rightarrow>
          if is_overrun (sd_ridx deps) (cr_write_head ring) (sg_read_cursor s)
          then (Again (s\<lparr>sg_segment_end := Some Overrun\<rparr>), e1)
          else
            let avail = ri_available (sd_ridx deps) (cr_write_head ring) (sg_read_cursor s) in
            if AUDIO_SAMPLES_PER_FRAME \<le> avail
            then select_full deps (cr_anchor_sample ring) (cr_anchor_ts_us ring) s e1
            else if sg_vad_closed s then select_partial deps avail s e1
            else (Break (if sg_preroll_drain_logged s then s
                         else emit PrerollDrained (s\<lparr>sg_preroll_drain_logged := True\<rparr>)), e1))"

definition select_frame :: "('s, 'e) SegmentDeps \<Rightarrow> 's SegmentVars \<Rightarrow> 'e \<Rightarrow> 's selected \<times> 'e" where
  "select_frame deps s e =
     (case sg_segment_end s of
        Some reason \<Rightarrow> select_end deps reason s e
      | None \<Rightarrow>
          (case sg_pending_telemetry s of
             tel # rest \<Rightarrow>
               put_in_flight deps (FTelemetry tel) OutTelemetry SegmentDroppedSocketKept id
                 (s\<lparr>sg_pending_telemetry := rest\<rparr>) e
           | [] \<Rightarrow> select_audio deps s e))"

section \<open>The outbound pump\<close>

definition frame_done :: "OutboundKind \<Rightarrow> 's SegmentVars \<Rightarrow> 's seg_result" where
  "frame_done knd s =
     (case knd of
        OutAudio samples \<Rightarrow>
          Running AtOutbound (s\<lparr>sg_frames_sent := sg_frames_sent s + 1,
            sg_samples_sent := sg_samples_sent s + ucast samples, sg_outbound := None,
            sg_frames_this_wake := sg_frames_this_wake s + 1\<rparr>)
      | OutTelemetry \<Rightarrow>
          Running AtOutbound (s\<lparr>sg_outbound := None, sg_frames_this_wake := sg_frames_this_wake s + 1\<rparr>)
      | OutSegmentEnd \<Rightarrow>
          Exited (if sg_channel_lost s then SegmentDroppedSocketKept else Completed) s)"

definition write_attempt :: "('s, 'e) SegmentDeps \<Rightarrow> 's SegmentVars \<Rightarrow> 'e \<Rightarrow> 's seg_result \<times> 'e" where
  "write_attempt deps s e =
     (if sg_write_blocked s then (Running AtWatchdog s, e)
      else
        case sg_outbound s of
          None \<Rightarrow> (Panicked, e)
        | Some (w, knd) \<Rightarrow>
            (case step_writable (sd_send deps) (sg_outbound_buf s) w e of
               (Inr WroteWhole, w', e1) \<Rightarrow> (frame_done knd (s\<lparr>sg_outbound := Some (w', knd)\<rparr>), e1)
             | (Inr WrotePartial, w', e1) \<Rightarrow> (Running AtOutbound (s\<lparr>sg_outbound := Some (w', knd)\<rparr>), e1)
             | (Inr WouldBlock, w', e1) \<Rightarrow>
                 let s1 = s\<lparr>sg_outbound := Some (w', knd)\<rparr>;
                     s2 = (if sg_first_write_blocked_logged s1 then s1
                           else emit WriteBlocked (s1\<lparr>sg_first_write_blocked_logged := True\<rparr>));
                     s3 = s2\<lparr>sg_write_blocked := True\<rparr>
                 in if spin_guard_tripped w' \<and> sg_spin_backoff_deadline s3 = None
                    then let (t, e2) = env_now (sd_send deps) e1
                         in (Running AtWatchdog (s3\<lparr>sg_spin_backoff_deadline := Some (t + from_millis SPIN_BACKOFF_MS)\<rparr>), e2)
                    else (Running AtWatchdog s3, e1)
             | (Inl _, w', e1) \<Rightarrow> (Exited SocketLost (s\<lparr>sg_outbound := Some (w', knd)\<rparr>), e1)))"

text \<open>One turn of the \<open>'outbound\<close> loop.\<close>

definition seg_outbound :: "('s, 'e) SegmentDeps \<Rightarrow> 's SegmentVars \<Rightarrow> 'e \<Rightarrow> 's seg_result \<times> 'e" where
  "seg_outbound deps s e =
     (if OUTBOUND_FRAMES_PER_WAKE \<le> sg_frames_this_wake s
      then (Running AtWatchdog (s\<lparr>sg_outbound_work := True\<rparr>), e)
      else
        let (sel, e1) = (if sg_outbound s = None then select_frame deps s e else (Built s, e)) in
        case sel of
          Built s1 \<Rightarrow> write_attempt deps s1 e1
        | Again s1 \<Rightarrow> (Running AtOutbound s1, e1)
        | Break s1 \<Rightarrow> (Running AtWatchdog s1, e1)
        | Leave exit s1 \<Rightarrow> (Exited exit s1, e1)
        | SelectPanic \<Rightarrow> (Panicked, e1))"

section \<open>The watchdog and the loop\<close>

definition end_wake :: "'s SegmentVars \<Rightarrow> 's seg_result" where
  "end_wake s = Running AtPoll (s\<lparr>sg_work_pending := sg_inbound_work s \<or> sg_outbound_work s\<rparr>)"

definition seg_watchdog :: "('s, 'e) SegmentDeps \<Rightarrow> 's SegmentVars \<Rightarrow> 'e \<Rightarrow> 's seg_result \<times> 'e" where
  "seg_watchdog deps s e =
     (case sg_outbound s of
        None \<Rightarrow> (end_wake s, e)
      | Some (w, knd) \<Rightarrow>
          let (t, e1) = env_now (sd_send deps) e; (verdict, w') = check_deadlines t w;
              s1 = s\<lparr>sg_outbound := Some (w', knd)\<rparr>
          in case verdict of
               None \<Rightarrow> (end_wake s1, e1)
             | Some (Inr BackpressureAligned) \<Rightarrow> (Exited SegmentDroppedSocketKept s1, e1)
             | Some (Inr Sent) \<Rightarrow> (Panicked, e1)
             | Some (Inl _) \<Rightarrow> (Exited SocketLost s1, e1))"

fun seg_step :: "('s, 'e) SegmentDeps \<Rightarrow> 's seg_result \<times> 'e \<Rightarrow> 's seg_result \<times> 'e" where
  "seg_step deps (Running AtPoll s, e) = seg_poll deps s e"
| "seg_step deps (Running AtChannel s, e) = seg_channel deps s e"
| "seg_step deps (Running AtInbound s, e) = seg_inbound deps s e"
| "seg_step deps (Running AtOutbound s, e) = seg_outbound deps s e"
| "seg_step deps (Running AtWatchdog s, e) = seg_watchdog deps s e"
| "seg_step deps (Exited x s, e) = (Exited x s, e)"
| "seg_step deps (Panicked, e) = (Panicked, e)"

text \<open>The first \<open>n\<close> turns of \<open>run_segment\<close>.\<close>

definition run_segment ::
  "('s, 'e) SegmentDeps \<Rightarrow> nat \<Rightarrow> nat \<Rightarrow> FrameAccumulator \<Rightarrow> 's route \<Rightarrow> bytes \<Rightarrow> 'e \<Rightarrow> 's seg_result \<times> 'e" where
  "run_segment deps n read_cursor accum route buf e =
     (seg_step deps ^^ n) (segment_open deps read_cursor accum route buf e)"

section \<open>What the environment promises\<close>

text \<open>
  \<open>wire\<close> is what the socket has taken so far, \<open>hist\<close> every sample captured so far. Only a
  write adds to the wire, the capture only grows, and the lock yields a ring that holds the
  capture's last samples.
\<close>

definition quiet_env :: "('e \<Rightarrow> bytes) \<Rightarrow> ('e \<Rightarrow> i16 list) \<Rightarrow> 'e \<Rightarrow> 'e \<Rightarrow> bool" where
  "quiet_env wire hist e e' \<longleftrightarrow> wire e' = wire e \<and> prefix (hist e) (hist e')"

definition seg_env_ok :: "('s, 'e) SegmentDeps \<Rightarrow> ('e \<Rightarrow> bytes) \<Rightarrow> ('e \<Rightarrow> i16 list) \<Rightarrow> bool" where
  "seg_env_ok deps wire hist \<longleftrightarrow>
     writer_ok (sd_send deps) wire \<and> reader_ok (sd_read deps) \<and>
     (\<forall>bs e r e'. env_write (sd_send deps) bs e = (r, e') \<longrightarrow> prefix (hist e) (hist e')) \<and>
     (\<forall>e t e'. env_now (sd_send deps) e = (t, e') \<longrightarrow> quiet_env wire hist e e') \<and>
     (\<forall>n e r e'. sd_read deps n e = (r, e') \<longrightarrow> quiet_env wire hist e e') \<and>
     (\<forall>i t e r e'. sd_readiness deps i t e = (r, e') \<longrightarrow> quiet_env wire hist e e') \<and>
     (\<forall>e r e'. sd_try_recv deps e = (r, e') \<longrightarrow> quiet_env wire hist e e') \<and>
     (\<forall>e r e'. sd_vad_closed_flag deps e = (r, e') \<longrightarrow> quiet_env wire hist e e') \<and>
     (\<forall>e r e'. sd_now_us deps e = (r, e') \<longrightarrow> quiet_env wire hist e e') \<and>
     (\<forall>e r e'. sd_ring deps e = (r, e') \<longrightarrow> quiet_env wire hist e e' \<and>
        (\<exists>ring. r = Some ring \<and> capture_ok (sd_ridx deps) (hist e') ring))"

lemma seg_env_okD:
  assumes "seg_env_ok deps wire hist"
  shows "writer_ok (sd_send deps) wire" "reader_ok (sd_read deps)"
    "env_write (sd_send deps) bs e = (wr, e') \<Longrightarrow> prefix (hist e) (hist e')"
    "env_now (sd_send deps) e = (t, e') \<Longrightarrow> quiet_env wire hist e e'"
    "sd_read deps n e = (rd, e') \<Longrightarrow> quiet_env wire hist e e'"
    "sd_readiness deps i d e = (rn, e') \<Longrightarrow> quiet_env wire hist e e'"
    "sd_try_recv deps e = (rr, e') \<Longrightarrow> quiet_env wire hist e e'"
    "sd_vad_closed_flag deps e = (b, e') \<Longrightarrow> quiet_env wire hist e e'"
    "sd_now_us deps e = (u, e') \<Longrightarrow> quiet_env wire hist e e'"
    "sd_ring deps e = (r, e') \<Longrightarrow> quiet_env wire hist e e' \<and>
       (\<exists>ring. r = Some ring \<and> capture_ok (sd_ridx deps) (hist e') ring)"
  using assms unfolding seg_env_ok_def by (elim conjE, (blast | metis))+

lemma quiet_env_refl [simp]: "quiet_env wire hist e e"
  by (simp add: quiet_env_def)

lemma quiet_env_trans: "quiet_env wire hist e e' \<Longrightarrow> quiet_env wire hist e' e'' \<Longrightarrow> quiet_env wire hist e e''"
  unfolding quiet_env_def by (metis prefix_order.trans)

section \<open>What the peer sees\<close>

text \<open>
  \<open>audio_of\<close>: an Audio frame of this segment with the \<open>n\<close> captured samples from index \<open>c\<close>.
  \<open>seg_frames fs k c\<close>: the frames \<open>fs\<close> carry \<open>k\<close> Audio frames, which between them hold the
  capture from \<open>c0\<close> up to \<open>c\<close> without gap or overlap; telemetry may stand anywhere.
\<close>

definition samples_pcm :: "i16 list \<Rightarrow> nat \<Rightarrow> nat \<Rightarrow> bytes" where
  "samples_pcm H c n = concat (map i16_to_le_bytes (take n (drop c H)))"

definition audio_of :: "u32 \<Rightarrow> i16 list \<Rightarrow> nat \<Rightarrow> nat \<Rightarrow> StreamFrame \<Rightarrow> bool" where
  "audio_of sid H c n f \<longleftrightarrow> 0 < n \<and> n \<le> AUDIO_SAMPLES_PER_FRAME \<and> c + n \<le> length H \<and>
     (\<exists>ts. f = FAudio \<lparr>af_segment_id = sid, af_first_sample_index = of_nat c, af_device_ts_us = ts,
                       af_pcm = samples_pcm H c n\<rparr>)"

inductive seg_frames :: "u32 \<Rightarrow> i16 list \<Rightarrow> nat \<Rightarrow> StreamFrame list \<Rightarrow> nat \<Rightarrow> nat \<Rightarrow> bool" for sid H c0 where
  none: "seg_frames sid H c0 [] 0 c0"
| audio: "seg_frames sid H c0 fs k c \<Longrightarrow> audio_of sid H c n f \<Longrightarrow> seg_frames sid H c0 (fs @ [f]) (k + 1) (c + n)"
| telemetry: "seg_frames sid H c0 fs k c \<Longrightarrow> seg_frames sid H c0 (fs @ [FTelemetry t]) k c"

definition end_frame :: "u32 \<Rightarrow> u64 \<Rightarrow> nat \<Rightarrow> nat \<Rightarrow> EndReason \<Rightarrow> StreamFrame" where
  "end_frame sid ts frames samples reason =
     FSegmentEnd \<lparr>se_segment_id = sid, se_device_ts_us = ts, se_frames_sent = of_nat frames,
       se_samples_sent = of_nat samples, se_reason = reason\<rparr>"

definition wire_frames :: "postcard \<Rightarrow> StreamFrame list \<Rightarrow> bytes" where
  "wire_frames pc fs = concat (map (wire_frame pc) fs)"

lemma wire_frames_simps [simp]:
  "wire_frames pc [] = []" "wire_frames pc (fs @ gs) = wire_frames pc fs @ wire_frames pc gs"
  "wire_frames pc [f] = wire_frame pc f"
  by (simp_all add: wire_frames_def)

lemma samples_pcm_prefix: "prefix H H' \<Longrightarrow> c + n \<le> length H \<Longrightarrow> samples_pcm H' c n = samples_pcm H c n"
  by (auto simp: samples_pcm_def prefix_def)

lemma audio_of_prefix: "prefix H H' \<Longrightarrow> audio_of sid H c n f \<Longrightarrow> audio_of sid H' c n f"
  by (auto simp: audio_of_def samples_pcm_prefix dest: prefix_length_le)

lemma seg_frames_prefix:
  assumes "seg_frames sid H c0 fs k c" "prefix H H'"
  shows "seg_frames sid H' c0 fs k c"
  using assms(1)
proof (induction rule: seg_frames.induct)
  case (audio fs k c n f)
  show ?case by (rule seg_frames.audio [OF audio.IH audio_of_prefix [OF assms(2) audio.hyps(2)]])
qed (auto intro: seg_frames.intros)

lemma seg_frames_ge: "seg_frames sid H c0 fs k c \<Longrightarrow> c0 \<le> c"
  by (induction rule: seg_frames.induct) auto

lemma seg_frames_bound: "seg_frames sid H c0 fs k c \<Longrightarrow> c0 \<le> length H \<Longrightarrow> c \<le> length H"
  by (induction rule: seg_frames.induct) (auto simp: audio_of_def)

text \<open>The audio of the frames, put together, is the capture from the first cursor on.\<close>

fun frame_samples :: "StreamFrame \<Rightarrow> bytes" where
  "frame_samples (FAudio a) = af_pcm a"
| "frame_samples _ = []"

lemma samples_pcm_append: "samples_pcm H c (m + n) = samples_pcm H c m @ samples_pcm H (c + m) n"
  by (simp add: samples_pcm_def take_add add.commute)

lemma seg_frames_pcm:
  "seg_frames sid H c0 fs k c \<Longrightarrow> concat (map frame_samples fs) = samples_pcm H c0 (c - c0)"
proof (induction rule: seg_frames.induct)
  case (audio fs k c n f)
  have "c0 \<le> c" using audio(1) by (rule seg_frames_ge)
  then have "samples_pcm H c0 (c + n - c0) = samples_pcm H c0 (c - c0) @ samples_pcm H c n"
    using samples_pcm_append [of H c0 "c - c0" n] by simp
  then show ?case using audio by (auto simp: audio_of_def)
qed (simp_all add: samples_pcm_def)

section \<open>The invariant\<close>

text \<open>What the frame in flight is, after \<open>k\<close> Audio frames that end at cursor \<open>c\<close>.\<close>

definition carries ::
  "u32 \<Rightarrow> i16 list \<Rightarrow> nat \<Rightarrow> nat \<Rightarrow> nat \<Rightarrow> nat \<Rightarrow> OutboundKind \<Rightarrow> StreamFrame \<Rightarrow> bool" where
  "carries sid H c0 k c cursor knd f =
     (case knd of
        OutAudio n \<Rightarrow> audio_of sid H c (unat n) f \<and> cursor = c + unat n
      | OutTelemetry \<Rightarrow> (\<exists>t. f = FTelemetry t) \<and> cursor = c
      | OutSegmentEnd \<Rightarrow> (\<exists>ts reason. f = end_frame sid ts k (c - c0) reason) \<and> cursor = c)"

definition in_flight ::
  "('s, 'e) SegmentDeps \<Rightarrow> ('e \<Rightarrow> bytes) \<Rightarrow> ('e \<Rightarrow> i16 list) \<Rightarrow> bytes \<Rightarrow> nat \<Rightarrow> nat \<Rightarrow> nat \<Rightarrow> 's SegmentVars \<Rightarrow> 'e \<Rightarrow> bool" where
  "in_flight deps wire hist sent c0 k c s e =
     (case sg_outbound s of
        None \<Rightarrow> wire e = sent \<and> sg_read_cursor s = c
      | Some (w, knd) \<Rightarrow>
          (\<exists>f ceiling. take (fw_n w) (sg_outbound_buf s) = wire_frame (sd_pc deps) f \<and>
             fw_inv wire sent (wire_frame (sd_pc deps) f) ceiling (w, e) \<and> fw_written w < fw_n w \<and>
             carries (sd_segment_id deps) (hist e) c0 k c (sg_read_cursor s) knd f))"

definition seg_inv ::
  "('s, 'e) SegmentDeps \<Rightarrow> ('s \<Rightarrow> bool) \<Rightarrow> ('e \<Rightarrow> bytes) \<Rightarrow> ('e \<Rightarrow> i16 list) \<Rightarrow> bytes \<Rightarrow> nat \<Rightarrow> 's SegmentVars \<Rightarrow> 'e \<Rightarrow> bool" where
  "seg_inv deps ok wire hist base c0 s e \<longleftrightarrow>
     acc_ok (sg_accum s) \<and> ok (rt_sink (sg_route s)) \<and> c0 \<le> length (hist e) \<and>
     (\<exists>fs k c. seg_frames (sd_segment_id deps) (hist e) c0 fs k c \<and>
        sg_frames_sent s = of_nat k \<and> sg_samples_sent s = of_nat (c - c0) \<and>
        in_flight deps wire hist (base @ wire_frames (sd_pc deps) fs) c0 k c s e)"

text \<open>The inbound half, which the caller gets back.\<close>

definition io_ok :: "('s \<Rightarrow> bool) \<Rightarrow> 's SegmentVars \<Rightarrow> bool" where
  "io_ok ok s \<longleftrightarrow> acc_ok (sg_accum s) \<and> ok (rt_sink (sg_route s))"

lemma seg_inv_io: "seg_inv deps ok wire hist base c0 s e \<Longrightarrow> io_ok ok s"
  by (simp add: seg_inv_def io_ok_def)

text \<open>What has reached the peer when the loop has returned.\<close>

definition exit_ok ::
  "('s, 'e) SegmentDeps \<Rightarrow> ('e \<Rightarrow> bytes) \<Rightarrow> ('e \<Rightarrow> i16 list) \<Rightarrow> bytes \<Rightarrow> nat \<Rightarrow> SegmentExit \<Rightarrow> 'e \<Rightarrow> bool" where
  "exit_ok deps wire hist base c0 x e \<longleftrightarrow>
     (\<exists>fs k c rest. seg_frames (sd_segment_id deps) (hist e) c0 fs k c \<and>
        wire e = base @ wire_frames (sd_pc deps) fs @ rest \<and>
        (let ended = (\<exists>ts reason. rest = wire_frame (sd_pc deps)
                         (end_frame (sd_segment_id deps) ts k (c - c0) reason)) in
         case x of
           Completed \<Rightarrow> ended
         | SegmentDroppedSocketKept \<Rightarrow> rest = [] \<or> ended
         | SocketLost \<Rightarrow> (\<exists>f m. rest = take m (wire_frame (sd_pc deps) f))))"

fun seg_ok ::
  "('s, 'e) SegmentDeps \<Rightarrow> ('s \<Rightarrow> bool) \<Rightarrow> ('e \<Rightarrow> bytes) \<Rightarrow> ('e \<Rightarrow> i16 list) \<Rightarrow> bytes \<Rightarrow> nat \<Rightarrow> 's seg_result \<times> 'e \<Rightarrow> bool" where
  "seg_ok deps ok wire hist base c0 (Running ph s, e) = seg_inv deps ok wire hist base c0 s e"
| "seg_ok deps ok wire hist base c0 (Exited x s, e) = (exit_ok deps wire hist base c0 x e \<and> io_ok ok s)"
| "seg_ok deps ok wire hist base c0 (Panicked, e) = False"

lemma carries_prefix:
  "prefix H H' \<Longrightarrow> carries sid H c0 k c cursor knd f \<Longrightarrow> carries sid H' c0 k c cursor knd f"
  by (auto simp: carries_def intro: audio_of_prefix split: OutboundKind.splits)

lemma fw_inv_wire: "wire e' = wire e \<Longrightarrow> fw_inv wire sent frame c (w, e') = fw_inv wire sent frame c (w, e)"
  by (simp add: fw_inv_def)

lemma in_flight_quiet:
  assumes "quiet_env wire hist e e'" "in_flight deps wire hist sent c0 k c s e"
  shows "in_flight deps wire hist sent c0 k c s e'"
  using assms carries_prefix [of "hist e" "hist e'"] fw_inv_wire [of wire e' e]
  unfolding in_flight_def quiet_env_def by (fastforce split: option.splits)

lemma seg_inv_quiet:
  assumes "quiet_env wire hist e e'" "seg_inv deps ok wire hist base c0 s e"
  shows "seg_inv deps ok wire hist base c0 s e'"
proof -
  have p: "prefix (hist e) (hist e')" using assms(1) by (simp add: quiet_env_def)
  show ?thesis
    using assms(2) seg_frames_prefix [OF _ p] in_flight_quiet [OF assms(1)] prefix_length_le [OF p]
    unfolding seg_inv_def by (meson le_trans)
qed

text \<open>The variables the invariant reads, and those it does not.\<close>

lemma seg_inv_cong:
  assumes "sg_accum s' = sg_accum s" "sg_route s' = sg_route s" "sg_frames_sent s' = sg_frames_sent s"
    "sg_samples_sent s' = sg_samples_sent s" "sg_outbound s' = sg_outbound s"
    "sg_outbound_buf s' = sg_outbound_buf s" "sg_read_cursor s' = sg_read_cursor s"
  shows "seg_inv deps ok wire hist base c0 s' e = seg_inv deps ok wire hist base c0 s e"
  unfolding seg_inv_def in_flight_def assms ..

lemma seg_inv_updates [simp]:
  "seg_inv deps ok wire hist base c0 (s\<lparr>sg_pace_resyncs := a0\<rparr>) e = seg_inv deps ok wire hist base c0 s e"
  "seg_inv deps ok wire hist base c0 (s\<lparr>sg_vad_closed := a1\<rparr>) e = seg_inv deps ok wire hist base c0 s e"
  "seg_inv deps ok wire hist base c0 (s\<lparr>sg_segment_end := a2\<rparr>) e = seg_inv deps ok wire hist base c0 s e"
  "seg_inv deps ok wire hist base c0 (s\<lparr>sg_channel_lost := a3\<rparr>) e = seg_inv deps ok wire hist base c0 s e"
  "seg_inv deps ok wire hist base c0 (s\<lparr>sg_write_blocked := a4\<rparr>) e = seg_inv deps ok wire hist base c0 s e"
  "seg_inv deps ok wire hist base c0 (s\<lparr>sg_work_pending := a5\<rparr>) e = seg_inv deps ok wire hist base c0 s e"
  "seg_inv deps ok wire hist base c0 (s\<lparr>sg_audio_pace_schedule := a6\<rparr>) e = seg_inv deps ok wire hist base c0 s e"
  "seg_inv deps ok wire hist base c0 (s\<lparr>sg_pace_deadline := a7\<rparr>) e = seg_inv deps ok wire hist base c0 s e"
  "seg_inv deps ok wire hist base c0 (s\<lparr>sg_spin_backoff_deadline := a8\<rparr>) e = seg_inv deps ok wire hist base c0 s e"
  "seg_inv deps ok wire hist base c0 (s\<lparr>sg_pending_telemetry := a9\<rparr>) e = seg_inv deps ok wire hist base c0 s e"
  "seg_inv deps ok wire hist base c0 (s\<lparr>sg_preroll_drain_logged := a10\<rparr>) e = seg_inv deps ok wire hist base c0 s e"
  "seg_inv deps ok wire hist base c0 (s\<lparr>sg_first_write_blocked_logged := a11\<rparr>) e = seg_inv deps ok wire hist base c0 s e"
  "seg_inv deps ok wire hist base c0 (s\<lparr>sg_last_periodic_wp_us := a12\<rparr>) e = seg_inv deps ok wire hist base c0 s e"
  "seg_inv deps ok wire hist base c0 (s\<lparr>sg_obs := a13\<rparr>) e = seg_inv deps ok wire hist base c0 s e"
  "seg_inv deps ok wire hist base c0 (s\<lparr>sg_inbound_armed := a14\<rparr>) e = seg_inv deps ok wire hist base c0 s e"
  "seg_inv deps ok wire hist base c0 (s\<lparr>sg_ready := a15\<rparr>) e = seg_inv deps ok wire hist base c0 s e"
  "seg_inv deps ok wire hist base c0 (s\<lparr>sg_inbound_work := a16\<rparr>) e = seg_inv deps ok wire hist base c0 s e"
  "seg_inv deps ok wire hist base c0 (s\<lparr>sg_outbound_work := a17\<rparr>) e = seg_inv deps ok wire hist base c0 s e"
  "seg_inv deps ok wire hist base c0 (s\<lparr>sg_frames_this_wake := a18\<rparr>) e = seg_inv deps ok wire hist base c0 s e"
  "seg_inv deps ok wire hist base c0 (emit ev s) e = seg_inv deps ok wire hist base c0 s e"
  by (rule seg_inv_cong; simp add: emit_def)+

lemma wire_frame_nonempty [simp]: "0 < length (wire_frame pc f)"
  by (simp add: wire_frame_def)

lemma begin_frame_inv:
  assumes ok: "seg_env_ok deps wire hist"
    and b: "begin_frame (sd_pc deps) (sd_send deps) f buf e = (Inr (w, buf'), e')"
  shows "quiet_env wire hist e e'" "take (fw_n w) buf' = wire_frame (sd_pc deps) f"
    "\<exists>c. fw_inv wire (wire e) (wire_frame (sd_pc deps) f) c (w, e')" "fw_written w < fw_n w"
proof -
  note wok = seg_env_okD(1) [OF ok]
  obtain t e1 where now: "env_now (sd_send deps) e = (t, e1)" by fastforce
  let ?c = "t + from_millis FRAME_WALL_CLOCK_MAX_MS"
  have ba: "begin_at (sd_pc deps) (sd_send deps) f buf ?c e1 = (Inr (w, buf'), e')"
    using b now by (simp add: begin_frame_def)
  then obtain n t2 where enc: "encode_frame (sd_pc deps) f buf = Inr (n, buf')"
    and now2: "env_now (sd_send deps) e1 = (t2, e')" and w: "fw_n w = n" "fw_written w = 0"
    by (auto simp: begin_at_def Let_def split: sum.splits prod.splits)
  have q: "quiet_env wire hist e e1" by (rule seg_env_okD(4) [OF ok now])
  show "quiet_env wire hist e e'" by (rule quiet_env_trans [OF q seg_env_okD(4) [OF ok now2]])
  show tk: "take (fw_n w) buf' = wire_frame (sd_pc deps) f"
    using wire_frame_is_encode [OF enc] w by simp
  show "\<exists>c. fw_inv wire (wire e) (wire_frame (sd_pc deps) f) c (w, e')"
    using begin_at_inv [OF wok ba] q tk unfolding quiet_env_def by metis
  show "fw_written w < fw_n w" using w tk wire_frame_nonempty [of "sd_pc deps" f] by (cases "fw_n w") auto
qed

lemma begin_frame_fails:
  assumes ok: "seg_env_ok deps wire hist"
    and b: "begin_frame (sd_pc deps) (sd_send deps) f buf e = (Inl err, e')"
  shows "quiet_env wire hist e e'"
  using b seg_env_okD(4) [OF ok]
  by (auto simp: begin_frame_def begin_at_def Let_def split: sum.splits prod.splits)

section \<open>The selector keeps the invariant\<close>

lemma seg_inv_lost: "seg_inv deps ok wire hist base c0 s e \<Longrightarrow> exit_ok deps wire hist base c0 SocketLost e"
proof -
  assume "seg_inv deps ok wire hist base c0 s e"
  then obtain fs k c where fs: "seg_frames (sd_segment_id deps) (hist e) c0 fs k c"
    and fl: "in_flight deps wire hist (base @ wire_frames (sd_pc deps) fs) c0 k c s e"
    unfolding seg_inv_def by blast
  then have "\<exists>f m. wire e = base @ wire_frames (sd_pc deps) fs @ take m (wire_frame (sd_pc deps) f)"
  proof (cases "sg_outbound s")
    case None
    then show ?thesis using fl by (auto simp: in_flight_def intro: exI [of _ 0])
  next
    case (Some wk)
    then show ?thesis using fl by (auto simp: in_flight_def fw_inv_def split: prod.splits)
  qed
  then show ?thesis using fs unfolding exit_ok_def by auto
qed

lemma seg_inv_kept:
  assumes "seg_inv deps ok wire hist base c0 s e" "sg_outbound s = None \<or> fw_written (fst (the (sg_outbound s))) = 0"
  shows "exit_ok deps wire hist base c0 SegmentDroppedSocketKept e"
  using assms unfolding seg_inv_def in_flight_def exit_ok_def fw_inv_def by (fastforce split: option.splits)

fun sel_ok ::
  "('s, 'e) SegmentDeps \<Rightarrow> ('s \<Rightarrow> bool) \<Rightarrow> ('e \<Rightarrow> bytes) \<Rightarrow> ('e \<Rightarrow> i16 list) \<Rightarrow> bytes \<Rightarrow> nat \<Rightarrow> 's selected \<times> 'e \<Rightarrow> bool" where
  "sel_ok deps ok wire hist base c0 (Built s, e) \<longleftrightarrow> seg_inv deps ok wire hist base c0 s e \<and> sg_outbound s \<noteq> None"
| "sel_ok deps ok wire hist base c0 (Again s, e) \<longleftrightarrow> seg_inv deps ok wire hist base c0 s e"
| "sel_ok deps ok wire hist base c0 (Break s, e) \<longleftrightarrow> seg_inv deps ok wire hist base c0 s e"
| "sel_ok deps ok wire hist base c0 (Leave x s, e) \<longleftrightarrow> exit_ok deps wire hist base c0 x e \<and> io_ok ok s"
| "sel_ok deps ok wire hist base c0 (SelectPanic, e) \<longleftrightarrow> False"

lemma put_in_flight_ok:
  assumes ok: "seg_env_ok deps wire hist" and inv: "seg_inv deps sok wire hist base c0 s e"
    and out: "sg_outbound s = None" and x: "x \<noteq> Completed"
    and same: "sg_accum (upd s) = sg_accum s" "sg_route (upd s) = sg_route s"
      "sg_frames_sent (upd s) = sg_frames_sent s" "sg_samples_sent (upd s) = sg_samples_sent s"
    and frame: "\<And>k c. sg_frames_sent s = of_nat k \<Longrightarrow> sg_samples_sent s = of_nat (c - c0) \<Longrightarrow>
      sg_read_cursor s = c \<Longrightarrow> carries (sd_segment_id deps) (hist e) c0 k c (sg_read_cursor (upd s)) knd f"
  shows "sel_ok deps sok wire hist base c0 (put_in_flight deps f knd x upd s e)"
proof (cases "begin_frame (sd_pc deps) (sd_send deps) f (sg_outbound_buf s) e")
  case (Pair r e1)
  show ?thesis
  proof (cases r)
    case (Inl err)
    then have "seg_inv deps sok wire hist base c0 s e1"
      using begin_frame_fails [OF ok, of f] Pair seg_inv_quiet [OF _ inv] by blast
    from seg_inv_lost [OF this] seg_inv_kept [OF this] seg_inv_io [OF this] show ?thesis
      using Inl Pair out x by (cases x) (auto simp: put_in_flight_def)
  next
    case (Inr wb)
    then obtain w buf' where b: "begin_frame (sd_pc deps) (sd_send deps) f (sg_outbound_buf s) e = (Inr (w, buf'), e1)"
      using Pair by (cases wb) auto
    note bi = begin_frame_inv [OF ok b]
    have p: "prefix (hist e) (hist e1)" using bi(1) by (simp add: quiet_env_def)
    obtain fs k c ceiling where fs: "seg_frames (sd_segment_id deps) (hist e) c0 fs k c"
      "sg_frames_sent s = of_nat k" "sg_samples_sent s = of_nat (c - c0)" "sg_read_cursor s = c"
      "fw_inv wire (base @ wire_frames (sd_pc deps) fs) (wire_frame (sd_pc deps) f) ceiling (w, e1)"
      using inv out bi(3) unfolding seg_inv_def in_flight_def by auto
    have "carries (sd_segment_id deps) (hist e1) c0 k c (sg_read_cursor (upd s)) knd f"
      by (rule carries_prefix [OF p frame [OF fs(2-4)]])
    then have "in_flight deps wire hist (base @ wire_frames (sd_pc deps) fs) c0 k c
        ((upd s)\<lparr>sg_outbound := Some (w, knd), sg_outbound_buf := buf'\<rparr>) e1"
      using fs(5) bi(2,4) by (auto simp: in_flight_def)
    then have "seg_inv deps sok wire hist base c0 ((upd s)\<lparr>sg_outbound := Some (w, knd), sg_outbound_buf := buf'\<rparr>) e1"
      using seg_frames_prefix [OF fs(1) p] fs(2,3) inv same prefix_length_le [OF p] unfolding seg_inv_def by auto
    then show ?thesis using b by (simp add: put_in_flight_def)
  qed
qed

lemma locked_pcm:
  assumes ok: "seg_env_ok deps wire hist" and lock: "sd_ring deps e = (Some ring, e')"
    and bound: "first + n \<le> length (hist e)" "n \<le> AUDIO_SAMPLES_PER_FRAME"
    and live: "\<not> is_overrun (sd_ridx deps) (cr_write_head ring) first"
  shows "push_pcm_samples ring (sd_ridx deps) first n [] = Some (samples_pcm (hist e') first n)"
    "first + n \<le> length (hist e')"
proof -
  have q: "quiet_env wire hist e e'" and c: "capture_ok (sd_ridx deps) (hist e') ring"
    using seg_env_okD(10) [OF ok lock] by auto
  show len: "first + n \<le> length (hist e')"
    using bound(1) q prefix_length_le unfolding quiet_env_def by fastforce
  have "cr_write_head ring = length (hist e')" using c by (simp add: capture_ok_def)
  then show "push_pcm_samples ring (sd_ridx deps) first n [] = Some (samples_pcm (hist e') first n)"
    using push_pcm_samples_spec [OF c len, of "[]"] live bound(2)
    by (simp add: samples_pcm_def AUDIO_SAMPLES_PER_FRAME_def MAX_AUDIO_PAYLOAD_def)
qed

lemma carries_audio:
  assumes "0 < n" "n \<le> AUDIO_SAMPLES_PER_FRAME" "c + n \<le> length H"
  shows "carries (sd_segment_id deps) H c0 k c (c + n) (OutAudio (of_nat n)) (audio_frame deps c ts (samples_pcm H c n))"
proof -
  have "unat (of_nat n :: u32) = n" using assms(2) by (simp add: unat_of_nat AUDIO_SAMPLES_PER_FRAME_def)
  then show ?thesis using assms by (simp add: carries_def audio_of_def audio_frame_def)
qed

lemma select_full_ok:
  assumes ok: "seg_env_ok deps wire hist" and inv: "seg_inv deps sok wire hist base c0 s e"
    and out: "sg_outbound s = None" and avail: "sg_read_cursor s + AUDIO_SAMPLES_PER_FRAME \<le> length (hist e)"
  shows "sel_ok deps sok wire hist base c0 (select_full deps a t s e)"
proof -
  obtain now e1 where now: "sd_now_us deps e = (now, e1)" by fastforce
  note q1 = seg_env_okD(9) [OF ok now]
  show ?thesis
  proof (cases "pace_wait_us (sg_audio_pace_schedule s) now")
    case (Some wait)
    obtain u e2 where u: "env_now (sd_send deps) e1 = (u, e2)" by fastforce
    have "seg_inv deps sok wire hist base c0 s e2"
      by (rule seg_inv_quiet [OF quiet_env_trans [OF q1 seg_env_okD(4) [OF ok u]] inv])
    then show ?thesis using now Some u by (simp add: select_full_def)
  next
    case None
    let ?adv = "advance_pace_us (sg_audio_pace_schedule s) now"
    let ?s = "s\<lparr>sg_pace_resyncs := (if resynced ?adv then saturating_inc (sg_pace_resyncs s) else sg_pace_resyncs s),
                sg_audio_pace_schedule := Some (next_schedule_us ?adv)\<rparr>"
    obtain r e2 where lock: "sd_ring deps e1 = (r, e2)" by fastforce
    obtain ring where r: "r = Some ring" using seg_env_okD(10) [OF ok lock] by blast
    have inv2: "seg_inv deps sok wire hist base c0 ?s e2"
      using seg_inv_quiet [OF quiet_env_trans [OF q1], of e2] seg_env_okD(10) [OF ok lock] inv by simp
    show ?thesis
    proof (cases "is_overrun (sd_ridx deps) (cr_write_head ring) (sg_read_cursor s)")
      case True
      then show ?thesis using now None lock r inv2 by (simp add: select_full_def Let_def)
    next
      case False
      have "sg_read_cursor s + AUDIO_SAMPLES_PER_FRAME \<le> length (hist e1)"
        using avail q1 prefix_length_le unfolding quiet_env_def by fastforce
      note pcm = locked_pcm [OF ok lock [unfolded r] this le_refl False]
      have "sel_ok deps sok wire hist base c0
        (put_in_flight deps (audio_frame deps (sg_read_cursor s) (frame_ts_us a t (sg_read_cursor s))
             (samples_pcm (hist e2) (sg_read_cursor s) AUDIO_SAMPLES_PER_FRAME))
           (OutAudio (of_nat AUDIO_SAMPLES_PER_FRAME)) SegmentDroppedSocketKept
           (\<lambda>s. s\<lparr>sg_read_cursor := sg_read_cursor s + AUDIO_SAMPLES_PER_FRAME\<rparr>) ?s e2)"
        using carries_audio [OF _ le_refl pcm(2), of deps c0]
        by (intro put_in_flight_ok [OF ok inv2]) (simp_all add: out AUDIO_SAMPLES_PER_FRAME_def)
      then show ?thesis using now None lock r False pcm(1) by (simp add: select_full_def Let_def)
    qed
  qed
qed

lemma select_partial_ok:
  assumes ok: "seg_env_ok deps wire hist" and inv: "seg_inv deps sok wire hist base c0 s e"
    and out: "sg_outbound s = None" and avail: "sg_read_cursor s + n \<le> length (hist e)" "n \<le> AUDIO_SAMPLES_PER_FRAME"
  shows "sel_ok deps sok wire hist base c0 (select_partial deps n s e)"
proof (cases "n = 0")
  case True
  then show ?thesis using inv by (simp add: select_partial_def)
next
  case n: False
  obtain r e1 where lock: "sd_ring deps e = (r, e1)" by fastforce
  obtain ring where r: "r = Some ring" using seg_env_okD(10) [OF ok lock] by blast
  have inv1: "seg_inv deps sok wire hist base c0 s e1"
    using seg_inv_quiet [OF _ inv] seg_env_okD(10) [OF ok lock] by blast
  show ?thesis
  proof (cases "is_overrun (sd_ridx deps) (cr_write_head ring) (sg_read_cursor s)")
    case True
    then show ?thesis using n lock r inv1 by (simp add: select_partial_def Let_def)
  next
    case False
    note pcm = locked_pcm [OF ok lock [unfolded r] avail False]
    have "sel_ok deps sok wire hist base c0
      (put_in_flight deps (audio_frame deps (sg_read_cursor s)
           (frame_ts_us (cr_anchor_sample ring) (cr_anchor_ts_us ring) (sg_read_cursor s))
           (samples_pcm (hist e1) (sg_read_cursor s) n)) (OutAudio (of_nat n)) SegmentDroppedSocketKept
         (\<lambda>s. s\<lparr>sg_read_cursor := sg_read_cursor s + n, sg_segment_end := Some VadRelease\<rparr>) s e1)"
      using carries_audio [OF _ avail(2) pcm(2), of deps c0] n
      by (intro put_in_flight_ok [OF ok inv1]) (simp_all add: out)
    then show ?thesis using n lock r False pcm(1) by (simp add: select_partial_def Let_def)
  qed
qed

lemma select_audio_ok:
  assumes ok: "seg_env_ok deps wire hist" and inv: "seg_inv deps sok wire hist base c0 s e"
    and out: "sg_outbound s = None" and cur: "sg_read_cursor s \<le> length (hist e)"
  shows "sel_ok deps sok wire hist base c0 (select_audio deps s e)"
proof -
  obtain r e1 where lock: "sd_ring deps e = (r, e1)" by fastforce
  obtain ring where r: "r = Some ring" and q: "quiet_env wire hist e e1"
    and head: "cr_write_head ring = length (hist e1)"
    using seg_env_okD(10) [OF ok lock] by (auto simp: capture_ok_def)
  note inv1 = seg_inv_quiet [OF q inv]
  let ?avail = "ri_available (sd_ridx deps) (cr_write_head ring) (sg_read_cursor s)"
  have "sg_read_cursor s + ?avail \<le> length (hist e1)"
    using cur q prefix_length_le unfolding quiet_env_def by (fastforce simp: ri_available_def head)
  then show ?thesis
    using select_full_ok [OF ok inv1 out, of "cr_anchor_sample ring" "cr_anchor_ts_us ring"]
      select_partial_ok [OF ok inv1 out, of ?avail] inv1 lock r
    by (simp add: select_audio_def Let_def)
qed

lemma select_frame_ok:
  assumes ok: "seg_env_ok deps wire hist" and inv: "seg_inv deps sok wire hist base c0 s e"
    and out: "sg_outbound s = None"
  shows "sel_ok deps sok wire hist base c0 (select_frame deps s e)"
proof (cases "sg_segment_end s")
  case (Some reason)
  obtain now e1 where now: "sd_now_us deps e = (now, e1)" by fastforce
  note inv1 = seg_inv_quiet [OF seg_env_okD(9) [OF ok now] inv]
  have "sel_ok deps sok wire hist base c0 (select_end deps reason s e)"
    unfolding select_end_def now
    by (simp, intro put_in_flight_ok [OF ok inv1]) (auto simp: out carries_def end_frame_def)
  then show ?thesis using Some by (simp add: select_frame_def)
next
  case None
  show ?thesis
  proof (cases "sg_pending_telemetry s")
    case Nil
    have "sg_read_cursor s \<le> length (hist e)"
      using inv out by (auto simp: seg_inv_def in_flight_def dest: seg_frames_bound)
    then show ?thesis using None Nil select_audio_ok [OF ok inv out] by (simp add: select_frame_def)
  next
    case (Cons tel rest)
    have "seg_inv deps sok wire hist base c0 (s\<lparr>sg_pending_telemetry := rest\<rparr>) e"
      using inv by simp
    then show ?thesis
      using None Cons
      by (simp add: select_frame_def, intro put_in_flight_ok [OF ok]) (auto simp: out carries_def)
  qed
qed

section \<open>Every phase keeps the invariant\<close>

text \<open>A frame in flight, after an attempt or a check: the ghost frames stay.\<close>

lemma seg_inv_flight:
  assumes "seg_inv deps ok wire hist base c0 s e" "seg_frames (sd_segment_id deps) (hist e') c0 fs k c"
    "sg_frames_sent s = of_nat k" "sg_samples_sent s = of_nat (c - c0)" "prefix (hist e) (hist e')"
    "take (fw_n w) (sg_outbound_buf s) = wire_frame (sd_pc deps) f"
    "fw_inv wire (base @ wire_frames (sd_pc deps) fs) (wire_frame (sd_pc deps) f) ceiling (w, e')"
    "fw_written w < fw_n w" "carries (sd_segment_id deps) (hist e') c0 k c (sg_read_cursor s) knd f"
  shows "seg_inv deps ok wire hist base c0 (s\<lparr>sg_outbound := Some (w, knd)\<rparr>) e'"
proof -
  have "in_flight deps wire hist (base @ wire_frames (sd_pc deps) fs) c0 k c (s\<lparr>sg_outbound := Some (w, knd)\<rparr>) e'"
    using assms(6-9) by (auto simp: in_flight_def)
  moreover have "c0 \<le> length (hist e')"
    using assms(1) prefix_length_le [OF assms(5)] by (simp add: seg_inv_def)
  ultimately show ?thesis using assms(1-4) unfolding seg_inv_def by auto
qed

lemma reset_spin_guard_simps [simp]:
  "fw_n (reset_spin_guard w) = fw_n w" "fw_written (reset_spin_guard w) = fw_written w"
  "fw_inv acc base frame c (reset_spin_guard w, e) = fw_inv acc base frame c (w, e)"
  by (simp_all add: reset_spin_guard_def fw_inv_def)

lemma seg_inv_unguard:
  "seg_inv deps ok wire hist base c0
     (s\<lparr>sg_outbound := map_option (\<lambda>(w, k). (reset_spin_guard w, k)) (sg_outbound s)\<rparr>) e
   = seg_inv deps ok wire hist base c0 s e"
proof -
  have "in_flight deps wire hist sent c0 k c
      (s\<lparr>sg_outbound := map_option (\<lambda>(w, k). (reset_spin_guard w, k)) (sg_outbound s)\<rparr>) e
    = in_flight deps wire hist sent c0 k c s e" for sent k c
    by (cases "sg_outbound s") (simp_all add: in_flight_def split_beta)
  then show ?thesis by (simp add: seg_inv_def)
qed

lemma seg_poll_ok:
  assumes ok: "seg_env_ok deps wire hist" and inv: "seg_inv deps sok wire hist base c0 s e"
  shows "seg_ok deps sok wire hist base c0 (seg_poll deps s e)"
proof -
  obtain u e1 where u: "sd_now_us deps e = (u, e1)" by fastforce
  obtain t e2 where t: "env_now (sd_send deps) e1 = (t, e2)" by fastforce
  define s1 where "s1 = (if PRODUCTION_OBS_PERIOD_US \<le> u - sg_last_periodic_wp_us s
      then emit Production (s\<lparr>sg_last_periodic_wp_us := u\<rparr>) else s)"
  define s2 where "s2 = (case sg_spin_backoff_deadline s1 of
      Some d \<Rightarrow> if d \<le> t
        then s1\<lparr>sg_spin_backoff_deadline := None,
                sg_outbound := map_option (\<lambda>(w, k). (reset_spin_guard w, k)) (sg_outbound s1)\<rparr>
        else s1
    | None \<Rightarrow> s1)"
  have "seg_inv deps sok wire hist base c0 s e2"
    by (rule seg_inv_quiet [OF quiet_env_trans [OF seg_env_okD(9) [OF ok u] seg_env_okD(4) [OF ok t]] inv])
  then have "seg_inv deps sok wire hist base c0 s1 e2" by (simp add: s1_def)
  then have inv2: "seg_inv deps sok wire hist base c0 s2 e2"
    using seg_inv_unguard [of deps sok wire hist base c0 "s1\<lparr>sg_spin_backoff_deadline := None\<rparr>" e2]
    by (auto simp: s2_def split: option.split)
  have fin: "seg_ok deps sok wire hist base c0 (case r of PollFault x \<Rightarrow> (Exited SocketLost s', e3) | _ \<Rightarrow> (Running AtChannel s', e3))"
    if "sd_readiness deps i d e2 = (r, e3)" "seg_inv deps sok wire hist base c0 s' e2" for i d r e3 s'
    using seg_inv_quiet [OF seg_env_okD(6) [OF ok that(1)] that(2)] seg_inv_lost seg_inv_io
    by (auto split: Readiness.split)
  show ?thesis
    unfolding seg_poll_def u t Let_def prod.case s1_def [symmetric] s2_def [symmetric]
    by (split prod.split, intro allI impI, rule fin, assumption) (simp add: inv2)
qed

lemma seg_channel_ok:
  assumes ok: "seg_env_ok deps wire hist" and inv: "seg_inv deps sok wire hist base c0 s e"
  shows "seg_ok deps sok wire hist base c0 (seg_channel deps s e)"
proof -
  obtain r e1 where r: "sd_try_recv deps e = (r, e1)" by fastforce
  have "seg_inv deps sok wire hist base c0 s e1" by (rule seg_inv_quiet [OF seg_env_okD(7) [OF ok r] inv])
  then show ?thesis using inv r
    by (auto simp: seg_channel_def Let_def split: try_recv_result.splits StreamerMsg.splits)
qed

text \<open>The frame in flight has gone out whole.\<close>

lemma frame_done_ok:
  assumes inv: "acc_ok (sg_accum s)" "sok (rt_sink (sg_route s))" "c0 \<le> length (hist e)"
    and fs: "seg_frames (sd_segment_id deps) (hist e) c0 fs k c" "sg_frames_sent s = of_nat k"
      "sg_samples_sent s = of_nat (c - c0)"
    and f: "carries (sd_segment_id deps) (hist e) c0 k c (sg_read_cursor s) knd f"
    and wire: "wire e = base @ wire_frames (sd_pc deps) (fs @ [f])"
  shows "seg_ok deps sok wire hist base c0 (frame_done knd s, e)"
proof (cases knd)
  case (OutAudio n)
  have a: "audio_of (sd_segment_id deps) (hist e) c (unat n) f" "sg_read_cursor s = c + unat n"
    using f OutAudio by (auto simp: carries_def)
  have "c + unat n - c0 = c - c0 + unat n" using seg_frames_ge [OF fs(1)] by simp
  then have "of_nat (c + unat n - c0) = (of_nat (c - c0) + ucast n :: u64)"
    by (simp only: of_nat_add of_nat_unat)
  then show ?thesis
    using OutAudio inv fs(2,3) wire a(2) seg_frames.audio [OF fs(1) a(1)]
    by (auto simp: frame_done_def seg_inv_def in_flight_def intro!: exI [of _ "fs @ [f]"] exI [of _ "Suc k"])
next
  case OutTelemetry
  then obtain t where "f = FTelemetry t" "sg_read_cursor s = c" using f by (auto simp: carries_def)
  then show ?thesis
    using OutTelemetry inv fs(2,3) wire seg_frames.telemetry [OF fs(1), of t]
    by (auto simp: frame_done_def seg_inv_def in_flight_def intro!: exI [of _ "fs @ [f]"] exI [of _ k])
next
  case OutSegmentEnd
  then have "\<exists>ts reason. f = end_frame (sd_segment_id deps) ts k (c - c0) reason" using f by (auto simp: carries_def)
  then have "exit_ok deps wire hist base c0 x e" if "x \<noteq> SocketLost" for x
    using fs(1) wire that unfolding exit_ok_def
    by - (rule exI [of _ fs], rule exI [of _ k], rule exI [of _ c],
        rule exI [of _ "wire_frame (sd_pc deps) f"], auto simp: Let_def split: SegmentExit.split)
  then show ?thesis using OutSegmentEnd inv(1,2) by (simp add: frame_done_def io_ok_def)
qed

lemma step_writable_hist:
  assumes "seg_env_ok deps wire hist" "step_writable (sd_send deps) buf w e = (r, w', e')"
  shows "prefix (hist e) (hist e')"
proof -
  obtain x e1 where x: "env_write (sd_send deps) (drop (fw_written w) (take (fw_n w) buf)) e = (x, e1)" by fastforce
  have "prefix (hist e1) (hist e')" using assms(2) x seg_env_okD(4) [OF assms(1)]
    by (auto simp: step_writable_def Let_def quiet_env_def split: write_arm.splits prod.splits if_splits)
  with seg_env_okD(3) [OF assms(1) x] show ?thesis by (rule prefix_order.trans)
qed

lemma step_writable_Inl:
  assumes "writer_ok env acc" "step_writable env buf w e = (Inl err, w', e')"
  shows "acc e' = acc e"
proof -
  obtain x e1 where x: "env_write env (drop (fw_written w) (take (fw_n w) buf)) e = (x, e1)" by fastforce
  then show ?thesis using assms(2) writer_ok_write(3) [OF assms(1) x]
    by (auto simp: step_writable_def Let_def split: write_arm.splits prod.splits if_splits)
qed

lemma write_attempt_ok:
  assumes ok: "seg_env_ok deps wire hist" and inv: "seg_inv deps sok wire hist base c0 s e"
    and out: "sg_outbound s \<noteq> None"
  shows "seg_ok deps sok wire hist base c0 (write_attempt deps s e)"
proof (cases "sg_write_blocked s")
  case True
  then show ?thesis using inv by (simp add: write_attempt_def)
next
  case False
  obtain w knd where w: "sg_outbound s = Some (w, knd)" using out by auto
  note wok = seg_env_okD(1) [OF ok]
  obtain fs k c f ceiling where fs: "seg_frames (sd_segment_id deps) (hist e) c0 fs k c"
    "sg_frames_sent s = of_nat k" "sg_samples_sent s = of_nat (c - c0)"
    and fl: "take (fw_n w) (sg_outbound_buf s) = wire_frame (sd_pc deps) f"
      "fw_inv wire (base @ wire_frames (sd_pc deps) fs) (wire_frame (sd_pc deps) f) ceiling (w, e)"
      "fw_written w < fw_n w" "carries (sd_segment_id deps) (hist e) c0 k c (sg_read_cursor s) knd f"
    using inv w unfolding seg_inv_def in_flight_def by auto
  obtain r w' e1 where st: "step_writable (sd_send deps) (sg_outbound_buf s) w e = (r, w', e1)"
    by (metis prod_cases3)
  have p: "prefix (hist e) (hist e1)" by (rule step_writable_hist [OF ok st])
  note fs1 = seg_frames_prefix [OF fs(1) p] and cr = carries_prefix [OF p fl(4)]
  show ?thesis
  proof (cases r)
    case (Inl err)
    then have "wire e1 = wire e" using step_writable_Inl [OF wok] st by blast
    then have "exit_ok deps wire hist base c0 SocketLost e1"
      using fs1 fl(2) unfolding exit_ok_def fw_inv_def by auto
    then show ?thesis using False w st Inl seg_inv_io [OF inv] by (simp add: write_attempt_def io_ok_def)
  next
    case (Inr out)
    note si = step_writable_inv [OF wok fl(1,2,3) st [unfolded Inr]]
    have buf: "take (fw_n w') (sg_outbound_buf s) = wire_frame (sd_pc deps) f" using si fl(1) by simp
    show ?thesis
    proof (cases "out = WroteWhole")
      case True
      then have "wire e1 = base @ wire_frames (sd_pc deps) (fs @ [f])"
        using si by (auto simp: fw_inv_def)
      then have "seg_ok deps sok wire hist base c0 (frame_done knd (s\<lparr>sg_outbound := Some (w', knd)\<rparr>), e1)"
        using inv fs1 fs(2,3) cr prefix_length_le [OF p]
        by (intro frame_done_ok [where fs = fs and k = k and c = c and f = f]) (simp_all add: seg_inv_def)
      then show ?thesis using False w st Inr True by (simp add: write_attempt_def)
    next
      case out: False
      then have "fw_written w' < fw_n w'" using si by (auto simp: fw_inv_def)
      then have inv1: "seg_inv deps sok wire hist base c0 (s\<lparr>sg_outbound := Some (w', knd)\<rparr>) e1"
        using si by (intro seg_inv_flight [OF inv fs1 fs(2,3) p buf _ _ cr]) auto
      obtain t e2 where t: "env_now (sd_send deps) e1 = (t, e2)" by fastforce
      note inv2 = seg_inv_quiet [OF seg_env_okD(4) [OF ok t] inv1]
      show ?thesis using False w st Inr out inv1 inv2 t
        by (cases out) (simp_all add: write_attempt_def Let_def)
    qed
  qed
qed

lemma seg_outbound_ok:
  assumes ok: "seg_env_ok deps wire hist" and inv: "seg_inv deps sok wire hist base c0 s e"
  shows "seg_ok deps sok wire hist base c0 (seg_outbound deps s e)"
proof -
  obtain sel e1 where sel: "(if sg_outbound s = None then select_frame deps s e else (Built s, e)) = (sel, e1)"
    by fastforce
  have "sel_ok deps sok wire hist base c0 (sel, e1)"
    using select_frame_ok [OF ok inv] inv sel by (auto split: if_splits)
  then show ?thesis
    using write_attempt_ok [OF ok] inv sel by (cases sel) (simp_all add: seg_outbound_def)
qed

lemma seg_watchdog_ok:
  assumes ok: "seg_env_ok deps wire hist" and inv: "seg_inv deps sok wire hist base c0 s e"
  shows "seg_ok deps sok wire hist base c0 (seg_watchdog deps s e)"
proof (cases "sg_outbound s")
  case None
  then show ?thesis using inv by (simp add: seg_watchdog_def end_wake_def)
next
  case (Some wk)
  then obtain w knd where w: "sg_outbound s = Some (w, knd)" by (cases wk) auto
  obtain t e1 where t: "env_now (sd_send deps) e = (t, e1)" by fastforce
  note inv1 = seg_inv_quiet [OF seg_env_okD(4) [OF ok t] inv]
  obtain fs k c f ceiling where
    fl: "fw_inv wire (base @ wire_frames (sd_pc deps) fs) (wire_frame (sd_pc deps) f) ceiling (w, e1)" "fw_written w < fw_n w"
    using inv1 w unfolding seg_inv_def in_flight_def by auto
  have "fw_written w < length (wire_frame (sd_pc deps) f)" using fl by (simp add: fw_inv_def)
  note cd = check_deadlines_exact [OF fl(1) this, of t]
  have "seg_inv deps sok wire hist base c0 (s\<lparr>sg_outbound := Some (w, knd)\<rparr>) e1"
    by (rule iffD2 [OF seg_inv_cong inv1]) (simp_all add: w)
  then show ?thesis
    using cd t w seg_inv_lost [OF inv1] seg_inv_kept [OF inv1] seg_inv_io [OF inv1]
    by (simp add: seg_watchdog_def end_wake_def fw_classify_no_progress_def io_ok_def)
qed

section \<open>The whole loop\<close>

text \<open>Reads cannot touch the wire, however many of them a pump makes.\<close>

lemma pump_inbound_quiet:
  assumes "seg_env_ok deps wire hist"
  shows "pump_inbound pc ops (sd_read deps) k e acc rt = Some (res, e', acc', rt') \<Longrightarrow> quiet_env wire hist e e'"
proof (induction k arbitrary: e acc rt)
  case (Suc k)
  have d: "quiet_env wire hist e e1" if "drain_inbound pc ops (sd_read deps) e acc rt = Some (r, e1, acc1, rt1)"
    for r e1 acc1 rt1
    using that seg_env_okD(5) [OF assms]
    by (auto simp: drain_inbound_def drain_finish_def split: if_splits prod.splits read_result.splits
        list.splits option.splits sum.splits)
  show ?case
    using Suc.prems d Suc.IH quiet_env_trans
    by (fastforce split: option.splits prod.splits sum.splits if_splits)
qed simp

context playback_sink
begin

lemma seg_inbound_ok:
  assumes env: "seg_env_ok deps wire hist" and sink: "sd_sink deps = sink"
    and inv: "seg_inv deps ok wire hist base c0 s e"
  shows "seg_ok deps ok wire hist base c0 (seg_inbound deps s e)"
proof -
  obtain s1 e1 where l: "load_vad_flag deps s e = (s1, e1)" by fastforce
  have inv1: "seg_inv deps ok wire hist base c0 s1 e1"
    using l inv seg_inv_quiet [OF seg_env_okD(8) [OF env]]
    by (auto simp: load_vad_flag_def Let_def split: if_splits prod.splits)
  obtain res e2 acc' rt' where p: "pump_inbound (sd_pc deps) sink (sd_read deps) INBOUND_STEPS_PER_WAKE e1
      (sg_accum s1) (sg_route s1) = Some (res, e2, acc', rt')" "acc_ok acc'" "ok (rt_sink rt')"
    using pump_inbound_total [OF seg_env_okD(2) [OF env]] inv1 unfolding seg_inv_def by blast
  have inv2: "seg_inv deps ok wire hist base c0 s1 e2"
    by (rule seg_inv_quiet [OF pump_inbound_quiet [OF env p(1)] inv1])
  then have "seg_inv deps ok wire hist base c0 (s1\<lparr>sg_accum := acc', sg_route := rt'\<rparr>) e2"
    using p(2,3) by (simp add: seg_inv_def in_flight_def cong: option.case_cong prod.case_cong)
  then show ?thesis
    using l p sink inv1 seg_inv_lost [OF inv2]
    by (cases res) (simp_all add: seg_inbound_def enter_outbound_def io_ok_def note_inbound_exit_def)
qed

lemma seg_step_ok:
  assumes "seg_env_ok deps wire hist" "sd_sink deps = sink" "seg_ok deps ok wire hist base c0 st"
  shows "seg_ok deps ok wire hist base c0 (seg_step deps st)"
  using assms(3) seg_poll_ok [OF assms(1)] seg_channel_ok [OF assms(1)] seg_inbound_ok [OF assms(1,2)]
    seg_outbound_ok [OF assms(1)] seg_watchdog_ok [OF assms(1)]
  by (cases "(deps, st)" rule: seg_step.cases) auto

lemma run_segment_ok:
  assumes "seg_env_ok deps wire hist" "sd_sink deps = sink" "acc_ok accum" "ok (rt_sink route)"
    "c0 \<le> length (hist e)"
  shows "seg_ok deps ok wire hist (wire e) c0 (run_segment deps n c0 accum route buf e)"
proof (induction n)
  case 0
  obtain u e1 where u: "sd_now_us deps e = (u, e1)" by fastforce
  have "wire e1 = wire e" "c0 \<le> length (hist e1)"
    using seg_env_okD(9) [OF assms(1) u] assms(5) prefix_length_le unfolding quiet_env_def by fastforce+
  moreover from this(1) have "\<exists>fs k c. seg_frames (sd_segment_id deps) (hist e1) c0 fs k c \<and> (0 :: u32) = of_nat k \<and>
      (0 :: u64) = of_nat (c - c0) \<and> wire e1 = wire e @ wire_frames (sd_pc deps) fs \<and> c0 = c"
    by - (rule exI [of _ "[]"], rule exI [of _ 0], rule exI [of _ c0], simp add: seg_frames.none)
  ultimately show ?case
    using assms(3,4) u
    by (simp add: run_segment_def segment_open_def emit_def seg_inv_def in_flight_def)
next
  case (Suc n)
  then show ?case using seg_step_ok [OF assms(1,2)] by (simp add: run_segment_def)
qed

end

section \<open>A wake's outbound pump ends\<close>

text \<open>
  Each turn of the \<open>'outbound\<close> loop that goes round again has finished a frame (of which a
  wake allows \<open>OUTBOUND_FRAMES_PER_WAKE\<close>), decided how the segment ends, put a frame in
  flight, or moved the cursor of the one in flight.
\<close>

definition outbound_rank :: "('s SegmentVars \<times> 's SegmentVars) set" where
  "outbound_rank = measures
     [\<lambda>s. OUTBOUND_FRAMES_PER_WAKE - sg_frames_this_wake s,
      \<lambda>s. case sg_outbound s of Some _ \<Rightarrow> 0 | None \<Rightarrow> if sg_segment_end s = None then 2 else 1,
      \<lambda>s. case sg_outbound s of Some (w, _) \<Rightarrow> fw_n w - fw_written w | None \<Rightarrow> 0]"

lemma write_attempt_again:
  assumes "write_attempt deps s e = (Running AtOutbound s', e')" "sg_outbound s = Some (w, knd)"
  shows "sg_frames_this_wake s' = Suc (sg_frames_this_wake s) \<or>
    sg_frames_this_wake s' = sg_frames_this_wake s \<and>
    (\<exists>w'. sg_outbound s' = Some (w', knd) \<and> fw_n w' - fw_written w' < fw_n w - fw_written w)"
proof -
  obtain r w' e1 where st: "step_writable (sd_send deps) (sg_outbound_buf s) w e = (r, w', e1)"
    by (metis prod_cases3)
  have "r = Inr WrotePartial \<Longrightarrow> fw_n w' - fw_written w' < fw_n w - fw_written w"
    using st by (auto simp: step_writable_def Let_def dest!: took_pos split: prod.splits write_arm.splits if_splits)
  then show ?thesis
    using assms st
    by (auto simp: write_attempt_def frame_done_def Let_def
        split: if_splits sum.splits StepOutcome.splits OutboundKind.splits prod.splits)
qed

lemma put_in_flight_Built:
  "put_in_flight deps f knd x upd s e = (Built s', e') \<Longrightarrow>
     \<exists>w buf. s' = (upd s)\<lparr>sg_outbound := Some (w, knd), sg_outbound_buf := buf\<rparr>"
  by (auto simp: put_in_flight_def split: prod.splits sum.splits)

lemma put_in_flight_Again [simp]: "put_in_flight deps f knd x upd s e \<noteq> (Again s', e')"
  by (simp add: put_in_flight_def split: prod.splits sum.splits)

lemmas select_defs = select_frame_def select_end_def select_audio_def select_full_def select_partial_def Let_def

lemma select_Again:
  assumes "select_frame deps s e = (Again s', e')"
  shows "sg_segment_end s = None \<and> sg_segment_end s' \<noteq> None \<and> sg_outbound s' = sg_outbound s \<and>
    sg_frames_this_wake s' = sg_frames_this_wake s"
  using assms by (auto simp: select_defs split: option.splits list.splits prod.splits if_splits)

lemma select_Built:
  assumes "select_frame deps s e = (Built s', e')"
  shows "sg_outbound s' \<noteq> None \<and> sg_frames_this_wake s' = sg_frames_this_wake s"
  using assms
  by (auto simp: select_defs dest!: put_in_flight_Built split: option.splits list.splits prod.splits if_splits)

lemma seg_outbound_descends:
  assumes "seg_outbound deps s e = (Running AtOutbound s', e')"
  shows "(s', s) \<in> outbound_rank"
proof -
  have cap: "sg_frames_this_wake s < OUTBOUND_FRAMES_PER_WAKE"
    using assms by (auto simp: seg_outbound_def split: if_splits)
  show ?thesis
  proof (cases "sg_outbound s")
    case (Some wk)
    then obtain w knd where w: "sg_outbound s = Some (w, knd)" by (cases wk) auto
    then have "write_attempt deps s e = (Running AtOutbound s', e')"
      using assms cap by (simp add: seg_outbound_def)
    from write_attempt_again [OF this w] w cap show ?thesis by (auto simp: outbound_rank_def)
  next
    case None
    obtain sel e1 where sel: "select_frame deps s e = (sel, e1)" by fastforce
    show ?thesis
    proof (cases sel)
      case (Built s1)
      then obtain w knd where w: "sg_outbound s1 = Some (w, knd)" and "sg_frames_this_wake s1 = sg_frames_this_wake s"
        using select_Built [of deps s e s1] sel by auto
      moreover have wa: "write_attempt deps s1 e1 = (Running AtOutbound s', e')"
        using assms cap None sel Built by (simp add: seg_outbound_def)
      ultimately show ?thesis using write_attempt_again [OF wa w] None cap by (auto simp: outbound_rank_def)
    next
      case (Again s1)
      then show ?thesis using select_Again [of deps s e s1] assms cap None sel
        by (auto simp: seg_outbound_def outbound_rank_def)
    qed (use assms cap None sel in \<open>auto simp: seg_outbound_def\<close>)
  qed
qed

lemma outbound_pump_ends:
  "\<exists>n. \<forall>s' e'. (seg_step deps ^^ n) (Running AtOutbound s, e) \<noteq> (Running AtOutbound s', e')"
proof -
  have "wf (outbound_rank :: ('a SegmentVars \<times> 'a SegmentVars) set)" by (simp add: outbound_rank_def)
  then show ?thesis
  proof (induction s arbitrary: e rule: wf_induct_rule)
    case (less s)
    show ?case
    proof (cases "\<exists>s' e'. seg_outbound deps s e = (Running AtOutbound s', e')")
      case True
      then obtain s' e' where s': "seg_outbound deps s e = (Running AtOutbound s', e')" by blast
      with less.IH [OF seg_outbound_descends [OF s'], of e'] obtain n where
        "\<forall>t u. (seg_step deps ^^ n) (Running AtOutbound s', e') \<noteq> (Running AtOutbound t, u)" by blast
      then show ?thesis using s' by (intro exI [of _ "Suc n"]) (simp add: funpow_Suc_right del: funpow.simps)
    next
      case False
      then show ?thesis by (intro exI [of _ 1]) auto
    qed
  qed
qed

section \<open>A scripted segment\<close>

text \<open>
  An executable environment over the scripted socket: the capture has stopped with \<open>H\<close>, the
  gate is closed, the channel is empty and nothing arrives.
\<close>

definition script_deps ::
  "postcard \<Rightarrow> 's PlaybackSink \<Rightarrow> RingIndex \<Rightarrow> CaptureRing \<Rightarrow> u32 \<Rightarrow> ('s, script_env) SegmentDeps" where
  "script_deps pc sink ridx ring sid =
     \<lparr>sd_pc = pc, sd_send = script_send, sd_read = (\<lambda>n e. (ReadErr (IoError WouldBlockKind ''''), e)),
      sd_poll_interest = (\<lambda>r w e. tcp_poll_interest r w), sd_buffers_plaintext = False,
      sd_readiness = (\<lambda>i d e. (PollTimedOut, e)), sd_try_recv = (\<lambda>e. (ChannelEmpty, e)),
      sd_vad_closed_flag = (\<lambda>e. (True, e)), sd_ring = (\<lambda>e. (Some ring, e)), sd_ridx = ridx,
      sd_now_us = (\<lambda>e. (se_clock e div 1000, e)), sd_sink = sink, sd_segment_id = sid\<rparr>"

lemma script_deps_ok:
  assumes "capture_ok ridx H ring"
  shows "seg_env_ok (script_deps pc sink ridx ring sid) se_accepted (\<lambda>e. H)"
  using script_send_ok assms
  by (auto simp: seg_env_ok_def script_deps_def reader_ok_def quiet_env_def script_send_def)

lemma exit_ok_lost:
  assumes "exit_ok deps wire hist base c0 x e"
  shows "exit_ok deps wire hist base c0 SocketLost e"
proof -
  let ?wf = "wire_frame (sd_pc deps)"
  obtain fs k c rest where fs: "seg_frames (sd_segment_id deps) (hist e) c0 fs k c"
    "wire e = base @ wire_frames (sd_pc deps) fs @ rest"
    and r: "rest = [] \<or> (\<exists>f. rest = ?wf f) \<or> (\<exists>f m. rest = take m (?wf f))"
    using assms unfolding exit_ok_def Let_def by (cases x) (simp_all, blast+)
  have "\<exists>f m. rest = take m (?wf f)" using r by (metis order_refl take0 take_all)
  then show ?thesis using fs unfolding exit_ok_def by auto
qed

lemma exit_ok_aligned:
  assumes "exit_ok deps wire hist base c0 x e" "x \<noteq> SocketLost"
  shows "\<exists>fs k c rest. seg_frames (sd_segment_id deps) (hist e) c0 fs k c \<and>
    wire e = base @ wire_frames (sd_pc deps) (fs @ rest) \<and>
    (rest = [] \<and> x = SegmentDroppedSocketKept \<or>
     (\<exists>ts reason. rest = [end_frame (sd_segment_id deps) ts k (c - c0) reason]))"
proof -
  obtain fs k c rest where fs: "seg_frames (sd_segment_id deps) (hist e) c0 fs k c"
    "wire e = base @ wire_frames (sd_pc deps) fs @ rest"
    and r: "rest = [] \<and> x = SegmentDroppedSocketKept \<or>
      (\<exists>ts reason. rest = wire_frame (sd_pc deps) (end_frame (sd_segment_id deps) ts k (c - c0) reason))"
    using assms unfolding exit_ok_def Let_def by (cases x) (simp_all, blast+)
  from r show ?thesis
  proof (elim disjE exE)
    assume "rest = [] \<and> x = SegmentDroppedSocketKept"
    then show ?thesis using fs by - (rule exI [of _ fs], rule exI [of _ k], rule exI [of _ c], rule exI [of _ "[]"], simp)
  next
    fix ts reason
    assume "rest = wire_frame (sd_pc deps) (end_frame (sd_segment_id deps) ts k (c - c0) reason)"
    then show ?thesis using fs
      by - (rule exI [of _ fs], rule exI [of _ k], rule exI [of _ c],
          rule exI [of _ "[end_frame (sd_segment_id deps) ts k (c - c0) reason]"], auto)
  qed
qed

section \<open>The capture only grows\<close>

definition grows :: "('e \<Rightarrow> i16 list) \<Rightarrow> 'e \<Rightarrow> 'e \<Rightarrow> bool" where
  "grows hist e e' \<longleftrightarrow> prefix (hist e) (hist e')"

lemma grows_refl [simp]: "grows hist e e"
  by (simp add: grows_def)

lemma grows_trans: "grows hist e e' \<Longrightarrow> grows hist e' e'' \<Longrightarrow> grows hist e e''"
  unfolding grows_def by (metis prefix_order.trans)

lemma quiet_grows: "quiet_env wire hist e e' \<Longrightarrow> grows hist e e'"
  by (simp add: quiet_env_def grows_def)

lemma grows_length: "grows hist e e' \<Longrightarrow> c \<le> length (hist e) \<Longrightarrow> c \<le> length (hist e')"
  unfolding grows_def by (metis le_trans prefix_length_le)

lemma seg_env_grows:
  assumes "seg_env_ok deps wire hist"
  shows "env_write (sd_send deps) bs e = (wr, e') \<Longrightarrow> grows hist e e'"
    "env_now (sd_send deps) e = (t, e') \<Longrightarrow> grows hist e e'"
    "sd_readiness deps i d e = (rn, e') \<Longrightarrow> grows hist e e'"
    "sd_try_recv deps e = (rr, e') \<Longrightarrow> grows hist e e'"
    "sd_vad_closed_flag deps e = (b, e') \<Longrightarrow> grows hist e e'"
    "sd_now_us deps e = (u, e') \<Longrightarrow> grows hist e e'"
    "sd_ring deps e = (r, e') \<Longrightarrow> grows hist e e'"
  using seg_env_okD [OF assms] by (auto simp: grows_def quiet_env_def)

lemma put_in_flight_grows:
  assumes ok: "seg_env_ok deps wire hist" and "put_in_flight deps f knd x upd s e = (sel, e')"
  shows "grows hist e e'"
  using assms(2) begin_frame_inv(1) [OF ok, THEN quiet_grows] begin_frame_fails [OF ok, THEN quiet_grows]
  by (auto simp: put_in_flight_def split: prod.splits sum.splits)

lemma select_full_grows:
  assumes ok: "seg_env_ok deps wire hist" and "select_full deps a b s e = (sel, e')"
  shows "grows hist e e'"
proof -
  obtain u e1 where u: "sd_now_us deps e = (u, e1)" by fastforce
  obtain t e2 where t: "env_now (sd_send deps) e1 = (t, e2)" by fastforce
  obtain r e3 where r: "sd_ring deps e1 = (r, e3)" by fastforce
  have e1: "grows hist e e1" by (rule seg_env_grows(6) [OF ok u])
  have e23: "grows hist e e2" "grows hist e e3"
    using grows_trans [OF e1] seg_env_grows(2) [OF ok t] seg_env_grows(7) [OF ok r] by blast+
  then show ?thesis
    using assms(2) u t r put_in_flight_grows [OF ok, THEN grows_trans [OF e23(2)]]
    by (auto simp: select_full_def Let_def split: option.splits if_splits)
qed

lemma select_partial_grows:
  assumes ok: "seg_env_ok deps wire hist" and "select_partial deps n s e = (sel, e')"
  shows "grows hist e e'"
proof -
  obtain r e1 where r: "sd_ring deps e = (r, e1)" by fastforce
  have e1: "grows hist e e1" by (rule seg_env_grows(7) [OF ok r])
  then show ?thesis
    using assms(2) r put_in_flight_grows [OF ok, THEN grows_trans [OF e1]]
    by (auto simp: select_partial_def Let_def split: option.splits if_splits)
qed

lemma select_frame_grows:
  assumes ok: "seg_env_ok deps wire hist" and "select_frame deps s e = (sel, e')"
  shows "grows hist e e'"
proof -
  obtain u e1 where u: "sd_now_us deps e = (u, e1)" by fastforce
  obtain r e2 where r: "sd_ring deps e = (r, e2)" by fastforce
  have e1: "grows hist e e1" by (rule seg_env_grows(6) [OF ok u])
  have e2: "grows hist e e2" by (rule seg_env_grows(7) [OF ok r])
  note audio = select_full_grows [OF ok, THEN grows_trans [OF e2]] select_partial_grows [OF ok, THEN grows_trans [OF e2]]
  show ?thesis
    using assms(2) u r e2 audio put_in_flight_grows [OF ok, THEN grows_trans [OF e1]] put_in_flight_grows [OF ok, of _ _ _ _ _ e]
    by (auto simp: select_frame_def select_end_def select_audio_def Let_def split: option.splits list.splits if_splits)
qed

lemma write_attempt_grows:
  assumes ok: "seg_env_ok deps wire hist" and "write_attempt deps s e = (r, e')"
  shows "grows hist e e'"
proof (cases "sg_outbound s")
  case (Some p)
  obtain w knd where w: "sg_outbound s = Some (w, knd)" using Some by (cases p) auto
  obtain x w' e1 where st: "step_writable (sd_send deps) (sg_outbound_buf s) w e = (x, w', e1)" by (metis prod_cases3)
  obtain t e2 where t: "env_now (sd_send deps) e1 = (t, e2)" by fastforce
  have "grows hist e e1"
    using st seg_env_grows(1,2) [OF ok] grows_trans
    by (fastforce simp: step_writable_def Let_def split: prod.splits write_arm.splits if_splits)
  moreover from this have "grows hist e e2" by (rule grows_trans [OF _ seg_env_grows(2) [OF ok t]])
  ultimately show ?thesis
    using assms(2) w st t by (auto simp: write_attempt_def Let_def split: if_splits sum.splits StepOutcome.splits)
qed (use assms(2) in \<open>auto simp: write_attempt_def split: if_splits\<close>)

lemma seg_poll_grows:
  assumes ok: "seg_env_ok deps wire hist" and "seg_poll deps s e = (r, e')"
  shows "grows hist e e'"
proof -
  obtain u e1 where u: "sd_now_us deps e = (u, e1)" by fastforce
  obtain t e2 where t: "env_now (sd_send deps) e1 = (t, e2)" by fastforce
  have e': "\<exists>i d x. sd_readiness deps i d e2 = (x, e')"
    using assms(2) u t by (auto simp: seg_poll_def Let_def split: prod.splits Readiness.splits)
  then show ?thesis
    using grows_trans [OF grows_trans [OF seg_env_grows(6) [OF ok u] seg_env_grows(2) [OF ok t]]]
      seg_env_grows(3) [OF ok] by blast
qed

lemma seg_step_grows:
  assumes ok: "seg_env_ok deps wire hist" and "seg_step deps (r, e) = (r', e')"
  shows "grows hist e e'"
proof (cases "(deps, (r, e))" rule: seg_step.cases)
  case (1 d s e1)
  then show ?thesis using assms seg_poll_grows [OF ok] by auto
next
  case (2 d s e1)
  then show ?thesis using assms(2) seg_env_grows(4) [OF ok]
    by (auto simp: seg_channel_def Let_def split: if_splits prod.splits try_recv_result.splits StreamerMsg.splits)
next
  case (3 d s e1)
  obtain s1 e2 where l: "load_vad_flag deps s e = (s1, e2)" by fastforce
  then have e2: "grows hist e e2" using seg_env_grows(5) [OF ok]
    by (auto simp: load_vad_flag_def Let_def split: if_splits prod.splits)
  then show ?thesis using 3 assms(2) l pump_inbound_quiet [OF ok, THEN quiet_grows, THEN grows_trans [OF e2]]
    by (auto simp: seg_inbound_def split: if_splits option.splits sum.splits)
next
  case (4 d s e1)
  obtain sel e2 where sel: "select_frame deps s e = (sel, e2)" by fastforce
  note e2 = select_frame_grows [OF ok sel]
  show ?thesis using 4 assms(2) sel e2 write_attempt_grows [OF ok, THEN grows_trans [OF e2]]
      write_attempt_grows [OF ok, of s e]
    by (auto simp: seg_outbound_def split: if_splits selected.splits)
next
  case (5 d s e1)
  then show ?thesis using assms(2) seg_env_grows(2) [OF ok]
    by (auto simp: seg_watchdog_def Let_def split: if_splits option.splits prod.splits sum.splits SendOutcome.splits)
qed (use assms(2) in auto)

end
