(* ===== verification/Reconnect.thy ===== *)
theory Reconnect
  imports Segment
begin

text \<open>
  Reconnect pacing and the policy of the idle loop:
  \<^verbatim>\<open>firmware/crates/wifi-reconnect/src/lib.rs\<close> (exponential back-off with jitter, the Wi-Fi
  supervisor's wake arithmetic) and \<^verbatim>\<open>firmware/crates/pod-streamer/src/idle.rs\<close> (when an idle tick
  may connect, what a fresh or a lost socket obliges, where a segment's pre-roll starts).

  Seconds are \<open>nat\<close> with the saturation of \<open>u64\<close> written out; the jitter generator and the
  attempt counter wrap at 32 bits. The lemmas give the back-off after any number of failures
  in closed form, bound every wait, and show that a planned segment starts inside the ring.
\<close>

unbundle bit_operations_syntax

section \<open>Back-off\<close>

definition BACKOFF_FLOOR_SECS :: nat where "BACKOFF_FLOOR_SECS = 2"
definition BACKOFF_CAP_SECS :: nat where "BACKOFF_CAP_SECS = 60"
definition SLOW_LANE_THRESHOLD :: u32 where "SLOW_LANE_THRESHOLD = 10"
definition TICK_INTERVAL_SECS :: nat where "TICK_INTERVAL_SECS = 30"
definition GW_UNREACHABLE_THRESHOLD :: nat where "GW_UNREACHABLE_THRESHOLD = 3"
definition JITTER_NUM :: nat where "JITTER_NUM = 25"
definition JITTER_DEN :: nat where "JITTER_DEN = 100"

definition saturating_add64 :: "nat \<Rightarrow> nat \<Rightarrow> nat" where
  "saturating_add64 a b = min (a + b) (2 ^ 64 - 1)"

record Backoff =
  bo_current_secs :: nat
  bo_consecutive_failures :: u32

definition Backoff_new :: Backoff where
  "Backoff_new = \<lparr>bo_current_secs = BACKOFF_FLOOR_SECS, bo_consecutive_failures = 0\<rparr>"

definition record_success :: "Backoff \<Rightarrow> Backoff" where
  "record_success b = b\<lparr>bo_current_secs := BACKOFF_FLOOR_SECS, bo_consecutive_failures := 0\<rparr>"

definition record_provisioning :: "Backoff \<Rightarrow> Backoff" where
  "record_provisioning b = record_success b"

definition record_failure :: "Backoff \<Rightarrow> Backoff" where
  "record_failure b =
     b\<lparr>bo_consecutive_failures := saturating_inc (bo_consecutive_failures b),
       bo_current_secs := min (bo_current_secs b * 2) BACKOFF_CAP_SECS\<rparr>"

definition is_slow_lane :: "Backoff \<Rightarrow> bool" where
  "is_slow_lane b \<longleftrightarrow> SLOW_LANE_THRESHOLD \<le> bo_consecutive_failures b"

text \<open>The base never exceeds the cap, so the \<open>i64\<close> sum of the code cannot saturate.\<close>

definition jittered :: "nat \<Rightarrow> u32 \<Rightarrow> nat" where
  "jittered base_secs seed =
     (let rng = seed * 1664525 + 1013904223;
          jitter_range = base_secs * JITTER_NUM div JITTER_DEN;
          jitter_offset = (if jitter_range = 0 then 0
                           else int (unat rng mod (2 * jitter_range + 1)) - int jitter_range)
      in max (nat (int base_secs + jitter_offset)) 1)"

definition next_wait_secs :: "Backoff \<Rightarrow> u32 \<Rightarrow> nat" where
  "next_wait_secs b rng_seed = jittered (bo_current_secs b) rng_seed"

section \<open>Supervisor wakes\<close>

definition compute_wake_deadline_secs :: "nat \<Rightarrow> nat \<Rightarrow> nat \<Rightarrow> nat" where
  "compute_wake_deadline_secs last_attempt_secs jittered_backoff_secs tick_interval_secs =
     max (saturating_add64 last_attempt_secs jittered_backoff_secs)
         (saturating_add64 last_attempt_secs tick_interval_secs)"

definition compute_wait_secs :: "nat \<Rightarrow> nat \<Rightarrow> nat \<Rightarrow> nat \<Rightarrow> nat" where
  "compute_wait_secs now_secs last_attempt_secs jittered_backoff_secs tick_interval_secs =
     compute_wake_deadline_secs last_attempt_secs jittered_backoff_secs tick_interval_secs - now_secs"

definition should_absorb_wake :: "bool \<Rightarrow> bool \<Rightarrow> u32 \<Rightarrow> nat \<Rightarrow> nat \<Rightarrow> bool" where
  "should_absorb_wake doorbell_rang urgent consecutive_failures now_secs wake_deadline_secs \<longleftrightarrow>
     doorbell_rang \<and> \<not> urgent \<and> 0 < consecutive_failures \<and> now_secs < wake_deadline_secs"

section \<open>Idle-tick policy\<close>

datatype IdleConnectAction = Attempt | Skip

definition should_attempt_idle_connect :: "bool \<Rightarrow> bool option \<Rightarrow> nat \<Rightarrow> nat \<Rightarrow> IdleConnectAction" where
  "should_attempt_idle_connect socket_is_some link_up now_secs reconnect_deadline_secs =
     (if \<not> socket_is_some \<and> link_up = Some True \<and> reconnect_deadline_secs \<le> now_secs then Attempt else Skip)"

definition arm_reconnect_deadline :: "nat \<Rightarrow> u32 \<Rightarrow> Backoff \<times> u32 \<Rightarrow> nat \<times> Backoff \<times> u32" where
  "arm_reconnect_deadline now_secs jitter_seed_base p =
     (let (backoff, attempt_counter) = p;
          backoff' = record_failure backoff; attempt' = attempt_counter + 1
      in (saturating_add64 now_secs (next_wait_secs backoff' (jitter_seed_base XOR attempt')), backoff', attempt'))"

definition note_connect_success :: "Backoff \<Rightarrow> Backoff \<times> nat" where
  "note_connect_success backoff = (record_success backoff, 0)"

datatype ParkOutcome = ParkTimedOut | ParkDisconnected

text \<open>
  \<open>recv_timeout\<close> and the clock are the environment; \<open>ChannelEmpty\<close> is the timeout of the receive.
  With a sender that never pauses the loop ends only when the clock passes the deadline,
  so not returning is \<open>None\<close>.
\<close>

partial_function (option) park_loop ::
  "(nat \<Rightarrow> 'e \<Rightarrow> try_recv_result \<times> 'e) \<Rightarrow> ('e \<Rightarrow> instant \<times> 'e) \<Rightarrow> instant \<Rightarrow> 'e \<Rightarrow> (ParkOutcome \<times> 'e) option" where
  "park_loop recv_timeout now deadline e =
     (let (t, e1) = now e; (r, e2) = recv_timeout (deadline - t) e1 in
      case r of
        Received _ \<Rightarrow>
          (let (u, e3) = now e2
           in if deadline \<le> u then Some (ParkTimedOut, e3) else park_loop recv_timeout now deadline e3)
      | ChannelEmpty \<Rightarrow> Some (ParkTimedOut, e2)
      | ChannelDisconnected \<Rightarrow> Some (ParkDisconnected, e2))"

definition park_drain ::
  "(nat \<Rightarrow> 'e \<Rightarrow> try_recv_result \<times> 'e) \<Rightarrow> ('e \<Rightarrow> instant \<times> 'e) \<Rightarrow> nat \<Rightarrow> 'e \<Rightarrow> (ParkOutcome \<times> 'e) option" where
  "park_drain recv_timeout now timeout e =
     (let (t, e1) = now e in park_loop recv_timeout now (t + timeout) e1)"

definition should_log_provisioning_failure :: "string option \<Rightarrow> string \<Rightarrow> bool" where
  "should_log_provisioning_failure last_logged current \<longleftrightarrow> last_logged \<noteq> Some current"

section \<open>Socket lifecycle\<close>

text \<open>The held socket is whether there is one; framing state and sink travel in the route.\<close>

definition note_socket_lost ::
  "'s PlaybackSink \<Rightarrow> FrameAccumulator \<times> 's route \<Rightarrow> bool \<times> FrameAccumulator \<times> 's route" where
  "note_socket_lost ops p =
     (let (accum, rt) = p in
      (False, fa_reset accum,
       rt\<lparr>rt_conn := ic_reset (rt_conn rt), rt_sink := op_end_of_audio ops (rt_sink rt)\<rparr>))"

definition note_socket_established ::
  "'s PlaybackSink \<Rightarrow> FrameAccumulator \<times> 's route \<Rightarrow> bool \<times> FrameAccumulator \<times> 's route" where
  "note_socket_established ops p =
     (let (accum, rt) = p in
      (True, fa_reset accum,
       rt\<lparr>rt_conn := ic_reset (rt_conn rt), rt_sink := op_stream_reset ops (rt_sink rt)\<rparr>))"

section \<open>Segment opening\<close>

record SegmentOnset =
  so_segment_id :: u32
  so_vad_write_head :: nat
  so_preroll_samples :: nat

record SegmentPlan =
  sp_cursor :: nat
  sp_start :: SegmentStart

definition plan_segment_start :: "CaptureRing \<Rightarrow> RingIndex \<Rightarrow> SegmentOnset \<Rightarrow> SegmentPlan" where
  "plan_segment_start ring ridx onset =
     (let cursor = preroll_cursor ridx (so_vad_write_head onset) (so_preroll_samples onset);
          base_device_ts_us = (if cursor \<le> cr_anchor_sample ring
                               then frame_ts_us (cr_anchor_sample ring) (cr_anchor_ts_us ring) cursor
                               else cr_anchor_ts_us ring)
      in \<lparr>sp_cursor = cursor,
          sp_start = \<lparr>ss_segment_id = so_segment_id onset, ss_base_sample_index = of_nat cursor,
                      ss_base_device_ts_us = of_nat base_device_ts_us,
                      ss_preroll_samples = of_nat (so_vad_write_head onset - cursor)\<rparr>\<rparr>)"

section \<open>Laws\<close>

lemma backoff_after:
  "bo_current_secs ((record_failure ^^ n) Backoff_new) = min (BACKOFF_FLOOR_SECS * 2 ^ n) BACKOFF_CAP_SECS"
  by (induction n) (auto simp: record_failure_def Backoff_new_def BACKOFF_FLOOR_SECS_def BACKOFF_CAP_SECS_def)

lemma failures_after:
  "unat (bo_consecutive_failures ((record_failure ^^ n) Backoff_new)) = min n (2 ^ 32 - 1)"
  by (induction n) (auto simp: record_failure_def Backoff_new_def unat_saturating_inc min_def)

lemma jittered_bounds:
  assumes "0 < base"
  shows "base - base div 4 \<le> jittered base seed" "jittered base seed \<le> base + base div 4" "1 \<le> jittered base seed"
proof -
  define r where "r = base * JITTER_NUM div JITTER_DEN"
  have r: "r = base div 4" by (simp add: r_def JITTER_NUM_def JITTER_DEN_def)
  define x where "x = unat (seed * 1664525 + 1013904223) mod (2 * r + 1)"
  have x: "x < 2 * r + 1" unfolding x_def by (rule mod_less_divisor) simp
  have j: "jittered base seed = max (nat (int base + (if r = 0 then 0 else int x - int r))) 1"
    unfolding jittered_def Let_def r_def [symmetric] x_def ..
  show "base - base div 4 \<le> jittered base seed" "jittered base seed \<le> base + base div 4" "1 \<le> jittered base seed"
    using x r assms unfolding j by (auto simp: max_def)
qed

lemma park_loop_returns:
  assumes step: "\<And>e t e1 m e2 u e3. now e = (t, e1) \<Longrightarrow> recv (deadline - t) e1 = (Received m, e2) \<Longrightarrow>
      now e2 = (u, e3) \<Longrightarrow> u < deadline \<Longrightarrow> (\<mu> e3 :: nat) < \<mu> e"
  shows "\<exists>r. park_loop recv now deadline e = Some r"
proof (induction "\<mu> e" arbitrary: e rule: less_induct)
  case less
  obtain t e1 where t: "now e = (t, e1)" by fastforce
  obtain r e2 where r: "recv (deadline - t) e1 = (r, e2)" by fastforce
  obtain u e3 where u: "now e2 = (u, e3)" by fastforce
  show ?case
  proof (cases r)
    case (Received m)
    then show ?thesis using less [of e3] step [OF t _ u] t r u
      by (cases "deadline \<le> u") (auto simp: park_loop.simps [of recv now deadline e])
  qed (use t r in \<open>auto simp: park_loop.simps [of recv now deadline e]\<close>)
qed

lemma plan_cursor_bounds:
  assumes "plan_segment_start ring ridx onset = p"
  shows "sp_cursor p \<le> so_vad_write_head onset"
    "\<not> is_overrun ridx (so_vad_write_head onset) (sp_cursor p)"
    "so_vad_write_head onset - sp_cursor p \<le> so_preroll_samples onset"
  using assms
  by (auto simp: plan_segment_start_def Let_def preroll_cursor_def is_overrun_def oldest_def held_def)

end
