(* ===== verification/Streamer.thy ===== *)
theory Streamer
  imports Reconnect
begin

text \<open>
  The streamer thread, \<^verbatim>\<open>firmware/crates/pod-streamer/src/run.rs\<close>: it keeps a connection open and
  introduces the pod on it, drains inbound playback while idle, and on an onset opens a
  segment and hands it to \<open>run_segment\<close>.

  The platform is the environment of the segment loop plus connect, link state, the clock in
  seconds and the blocking receive. There is one connection at a time: a connect replaces
  it, and the environment's reads and writes are on the current one. The loop runs for the life of the pod, so it is a machine
  again: one step is one iteration of the outer loop up to the segment, one turn of the
  segment, or the return from it.

  The invariant: on a held socket the peer has received a session, a \<open>Hello\<close> followed by
  segments, and between segments the stream stands on a frame boundary.
\<close>

section \<open>Connection state\<close>

record LinkState =
  ls_held_socket :: bool
  ls_inbound_accum :: FrameAccumulator
  ls_encode_buf :: bytes
  ls_backoff :: Backoff
  ls_reconnect_deadline_secs :: nat
  ls_attempt_counter :: u32
  ls_jitter_seed_base :: u32

record ('s, 'e) StreamerRuntime =
  sr_deps :: "('s, 'e) SegmentDeps"
  sr_pod_id :: bytes
  sr_connect :: "'e \<Rightarrow> io_error option \<times> 'e"
  sr_link_up :: "'e \<Rightarrow> bool option \<times> 'e"
  sr_now_secs :: "'e \<Rightarrow> nat \<times> 'e"
  sr_recv_timeout :: "nat \<Rightarrow> 'e \<Rightarrow> try_recv_result \<times> 'e"
  sr_segment_active :: "bool \<Rightarrow> 'e \<Rightarrow> 'e"
  sr_jitter_seed :: u32

text \<open>The loop's own variables; the inbound framing state travels with the sink in the route.\<close>

record 's streamer =
  st_link :: LinkState
  st_route :: "'s route"
  st_segment_counter :: u32
  st_idle_work_pending :: bool

definition LinkState_new :: "u32 \<Rightarrow> LinkState" where
  "LinkState_new jitter_seed_base =
     \<lparr>ls_held_socket = False, ls_inbound_accum = FrameAccumulator_new,
      ls_encode_buf = replicate (MAX_FRAME_BYTES + 2) 0, ls_backoff = Backoff_new,
      ls_reconnect_deadline_secs = 0, ls_attempt_counter = 0, ls_jitter_seed_base = jitter_seed_base\<rparr>"

definition install_socket ::
  "(FrameAccumulator \<times> 's route \<Rightarrow> bool \<times> FrameAccumulator \<times> 's route) \<Rightarrow> 's streamer \<Rightarrow> 's streamer" where
  "install_socket note st =
     (let (held_socket, accum, route) = note (ls_inbound_accum (st_link st), st_route st)
      in st\<lparr>st_link := (st_link st)\<lparr>ls_held_socket := held_socket, ls_inbound_accum := accum\<rparr>, st_route := route\<rparr>)"

definition st_socket_established :: "('s, 'e) StreamerRuntime \<Rightarrow> 's streamer \<Rightarrow> 's streamer" where
  "st_socket_established sr st = install_socket (note_socket_established (sd_sink (sr_deps sr))) st"

definition st_socket_lost :: "('s, 'e) StreamerRuntime \<Rightarrow> 's streamer \<Rightarrow> 's streamer" where
  "st_socket_lost sr st = install_socket (note_socket_lost (sd_sink (sr_deps sr))) st"

definition arm_backoff :: "nat \<Rightarrow> 's streamer \<Rightarrow> 's streamer" where
  "arm_backoff now_secs st =
     (let l = st_link st;
          (deadline, backoff, attempt) =
            arm_reconnect_deadline now_secs (ls_jitter_seed_base l) (ls_backoff l, ls_attempt_counter l)
      in st\<lparr>st_link := l\<lparr>ls_reconnect_deadline_secs := deadline, ls_backoff := backoff, ls_attempt_counter := attempt\<rparr>\<rparr>)"

definition st_connect_success :: "'s streamer \<Rightarrow> 's streamer" where
  "st_connect_success st =
     (let (backoff, deadline) = note_connect_success (ls_backoff (st_link st))
      in st\<lparr>st_link := (st_link st)\<lparr>ls_backoff := backoff, ls_reconnect_deadline_secs := deadline\<rparr>\<rparr>)"

section \<open>Connect\<close>

text \<open>
  The blocking writer with the poll as its wait. The encode buffer is scratch: a call reads
  only what it has just encoded, so its content is not threaded through.
\<close>

definition send_frame_bp ::
  "('s, 'e) SegmentDeps \<Rightarrow> StreamFrame \<Rightarrow> bytes \<Rightarrow> 'e \<Rightarrow> (io_error + SendOutcome) \<times> 'e" where
  "send_frame_bp deps frame buf e =
     (let env = (sd_send deps)\<lparr>env_wait := poll_writable (sd_readiness deps) (env_now (sd_send deps))\<rparr>;
          (r, _, e1) = write_frame_classified (sd_pc deps) env frame buf e
      in (r, e1))"

definition hello_frame :: "bytes \<Rightarrow> StreamFrame" where
  "hello_frame pod_id =
     FHello \<lparr>hl_version = AUDIO_PROTOCOL_VERSION, hl_pod_id = (if length pod_id \<le> 32 then pod_id else []),
             hl_sample_rate_hz = pf_sample_rate_hz DEVICE_PLAYBACK_FORMAT,
             hl_bits_per_sample = pf_bits_per_sample DEVICE_PLAYBACK_FORMAT,
             hl_channels = pf_channels DEVICE_PLAYBACK_FORMAT, hl_codec = pf_codec DEVICE_PLAYBACK_FORMAT,
             hl_channel_source = CommunicationBeam\<rparr>"

definition connect_and_hello :: "('s, 'e) StreamerRuntime \<Rightarrow> bytes \<Rightarrow> 'e \<Rightarrow> io_error option \<times> 'e" where
  "connect_and_hello sr buf e =
     (case sr_connect sr e of
        (Some err, e1) \<Rightarrow> (Some err, e1)
      | (None, e1) \<Rightarrow>
          (case send_frame_bp (sr_deps sr) (hello_frame (sr_pod_id sr)) buf e1 of
             (Inr Sent, e2) \<Rightarrow> (None, e2)
           | (Inr BackpressureAligned, e2) \<Rightarrow>
               (Some (IoError OtherKind ''Hello stalled on write backpressure''), e2)
           | (Inl err, e2) \<Rightarrow> (Some err, e2)))"

definition ensure_connected :: "('s, 'e) StreamerRuntime \<Rightarrow> 's streamer \<Rightarrow> 'e \<Rightarrow> 's streamer \<times> 'e" where
  "ensure_connected sr st e =
     (if ls_held_socket (st_link st) then (st, e)
      else
        let (now, e1) = sr_now_secs sr e; (link_up, e2) = sr_link_up sr e1 in
        if should_attempt_idle_connect False link_up now (ls_reconnect_deadline_secs (st_link st)) = Skip then (st, e2)
        else
          case connect_and_hello sr (ls_encode_buf (st_link st)) e2 of
            (None, e3) \<Rightarrow> (st_connect_success (st_socket_established sr st), e3)
          | (Some _, e3) \<Rightarrow> (arm_backoff now st, e3))"

section \<open>The idle half of an iteration\<close>

datatype idle_wake = IdleFault | IdleGone | IdleWoke bool "nat option"

definition onset_of :: "bool \<Rightarrow> try_recv_result \<Rightarrow> idle_wake" where
  "onset_of readable r =
     (case r of
        Received (VadOpened write_head) \<Rightarrow> IdleWoke readable (Some write_head)
      | Received _ \<Rightarrow> IdleWoke readable None
      | ChannelEmpty \<Rightarrow> IdleWoke readable None
      | ChannelDisconnected \<Rightarrow> IdleGone)"

definition idle_armed :: "'s streamer \<Rightarrow> bool" where
  "idle_armed st \<longleftrightarrow> ls_held_socket (st_link st) \<and> inbound_has_room (ls_inbound_accum (st_link st))"

definition idle_wait :: "('s, 'e) StreamerRuntime \<Rightarrow> 's streamer \<Rightarrow> 'e \<Rightarrow> idle_wake \<times> 'e" where
  "idle_wait sr st e =
     (let deps = sr_deps sr in
      if ls_held_socket (st_link st) then
        let interest = sd_poll_interest deps (idle_armed st) False e;
            (t, e1) = env_now (sd_send deps) e;
            (ready, e2) = sd_readiness deps interest (poll_timeout t None (st_idle_work_pending st)) e1
        in (case ready of
              PollFault _ \<Rightarrow> (IdleFault, e2)
            | _ \<Rightarrow> let (r, e3) = sd_try_recv deps e2 in (onset_of (rd_readable ready) r, e3))
      else let (r, e1) = sr_recv_timeout sr IDLE_TICK e in (onset_of False r, e1))"

definition drop_connection :: "('s, 'e) StreamerRuntime \<Rightarrow> 's streamer \<Rightarrow> 'e \<Rightarrow> 's streamer \<times> 'e" where
  "drop_connection sr st e =
     (let st1 = st_socket_lost sr st; (now, e1) = sr_now_secs sr e in (arm_backoff now st1, e1))"

text \<open>\<open>None\<close>: a panic of the sink inside the pump.\<close>

definition idle_drain :: "('s, 'e) StreamerRuntime \<Rightarrow> bool \<Rightarrow> bool \<Rightarrow> 's streamer \<Rightarrow> 'e \<Rightarrow> ('s streamer \<times> 'e) option" where
  "idle_drain sr inbound_armed readable st e =
     (let deps = sr_deps sr;
          must_drain = (readable \<or> \<not> inbound_armed \<or> st_idle_work_pending st \<or>
                        (ls_held_socket (st_link st) \<and> sd_buffers_plaintext deps));
          st1 = st\<lparr>st_idle_work_pending := False\<rparr>
      in if must_drain \<and> ls_held_socket (st_link st1)
         then (case pump_inbound (sd_pc deps) (sd_sink deps) (sd_read deps) INBOUND_STEPS_PER_WAKE e
                      (ls_inbound_accum (st_link st1)) (st_route st1) of
                 None \<Rightarrow> None
               | Some (Inr hit_cap, e1, accum, route) \<Rightarrow>
                   Some (st1\<lparr>st_link := (st_link st1)\<lparr>ls_inbound_accum := accum\<rparr>, st_route := route,
                             st_idle_work_pending := hit_cap\<rparr>, e1)
               | Some (Inl _, e1, accum, route) \<Rightarrow>
                   Some (drop_connection sr
                     (st1\<lparr>st_link := (st_link st1)\<lparr>ls_inbound_accum := accum\<rparr>,
                          st_route := note_inbound_exit route\<rparr>) e1))
         else Some (st1, e))"

section \<open>Opening a segment\<close>

datatype 's onset_step = OpenDropped "'s streamer" | OpenReady "'s streamer" bool | OpenSegment "'s streamer" nat u32

definition ensure_for_onset :: "('s, 'e) StreamerRuntime \<Rightarrow> 's streamer \<Rightarrow> 'e \<Rightarrow> 's onset_step \<times> 'e" where
  "ensure_for_onset sr st e =
     (if ls_held_socket (st_link st) then (OpenReady st False, e)
      else case connect_and_hello sr (ls_encode_buf (st_link st)) e of
             (None, e1) \<Rightarrow> (OpenReady (st_connect_success (st_socket_established sr st)) True, e1)
           | (Some _, e1) \<Rightarrow> (OpenDropped st, e1))"

text \<open>The one reconnect attempt after \<open>SegmentStart\<close> failed on the held socket.\<close>

definition resend_start ::
  "('s, 'e) StreamerRuntime \<Rightarrow> StreamFrame \<Rightarrow> nat \<Rightarrow> u32 \<Rightarrow> 's streamer \<Rightarrow> 'e \<Rightarrow> 's onset_step \<times> 'e" where
  "resend_start sr seg_start cursor segment_id st e =
     (case connect_and_hello sr (ls_encode_buf (st_link st)) e of
        (Some _, e1) \<Rightarrow> (OpenDropped st, e1)
      | (None, e1) \<Rightarrow>
          (case send_frame_bp (sr_deps sr) seg_start (ls_encode_buf (st_link st)) e1 of
             (Inl _, e2) \<Rightarrow> (OpenDropped st, e2)
           | (Inr Sent, e2) \<Rightarrow>
               (OpenSegment (st_connect_success (st_socket_established sr st)) cursor segment_id, e2)
           | (Inr BackpressureAligned, e2) \<Rightarrow>
               (OpenDropped (st_connect_success (st_socket_established sr st)), e2)))"

definition send_start ::
  "('s, 'e) StreamerRuntime \<Rightarrow> CaptureRing \<Rightarrow> nat \<Rightarrow> bool \<Rightarrow> 's streamer \<Rightarrow> 'e \<Rightarrow> 's onset_step \<times> 'e" where
  "send_start sr ring vad_write_head fresh_connect st e =
     (let segment_id = st_segment_counter st;
          st1 = st\<lparr>st_segment_counter := st_segment_counter st + 1\<rparr>;
          plan = plan_segment_start ring (sd_ridx (sr_deps sr))
                   \<lparr>so_segment_id = segment_id, so_vad_write_head = vad_write_head, so_preroll_samples = PREROLL_SAMPLES\<rparr>;
          seg_start = FSegmentStart (sp_start plan)
      in case send_frame_bp (sr_deps sr) seg_start (ls_encode_buf (st_link st1)) e of
           (Inr Sent, e1) \<Rightarrow> (OpenSegment st1 (sp_cursor plan) segment_id, e1)
         | (Inr BackpressureAligned, e1) \<Rightarrow> (OpenDropped st1, e1)
         | (Inl _, e1) \<Rightarrow>
             let st2 = st_socket_lost sr st1 in
             if fresh_connect then (OpenDropped st2, e1)
             else resend_start sr seg_start (sp_cursor plan) segment_id st2 e1)"

section \<open>The loop\<close>

datatype 's streamer_result =
    Idling "'s streamer"
  | InSegment "'s streamer" u32 "'s seg_result"
  | ChannelGone
  | StreamerPanicked

definition segment_deps :: "('s, 'e) StreamerRuntime \<Rightarrow> u32 \<Rightarrow> ('s, 'e) SegmentDeps" where
  "segment_deps sr segment_id = (sr_deps sr)\<lparr>sd_segment_id := segment_id\<rparr>"

definition open_onset :: "('s, 'e) StreamerRuntime \<Rightarrow> nat \<Rightarrow> 's streamer \<Rightarrow> 'e \<Rightarrow> 's streamer_result \<times> 'e" where
  "open_onset sr vad_write_head st e =
     (case ensure_for_onset sr st (sr_segment_active sr True e) of
        (OpenReady st1 fresh_connect, e1) \<Rightarrow>
          (case sd_ring (sr_deps sr) e1 of
             (None, e2) \<Rightarrow> (StreamerPanicked, e2)
           | (Some ring, e2) \<Rightarrow>
               (case send_start sr ring vad_write_head fresh_connect st1 e2 of
                  (OpenSegment st2 cursor segment_id, e3) \<Rightarrow>
                    let (r, e4) = segment_open (segment_deps sr segment_id) cursor
                          (ls_inbound_accum (st_link st2)) (st_route st2) (ls_encode_buf (st_link st2)) e3
                    in (InSegment st2 segment_id r, e4)
                | (OpenDropped st2, e3) \<Rightarrow> (Idling st2, sr_segment_active sr False e3)
                | (OpenReady st2 _, e3) \<Rightarrow> (Idling st2, sr_segment_active sr False e3)))
      | (OpenDropped st1, e1) \<Rightarrow> (Idling st1, sr_segment_active sr False e1)
      | (OpenSegment st1 _ _, e1) \<Rightarrow> (Idling st1, sr_segment_active sr False e1))"

definition streamer_tick :: "('s, 'e) StreamerRuntime \<Rightarrow> 's streamer \<Rightarrow> 'e \<Rightarrow> 's streamer_result \<times> 'e" where
  "streamer_tick sr st e =
     (let (st1, e1) = ensure_connected sr st e;
          inbound_armed = idle_armed st1;
          (wake, e2) = idle_wait sr st1 e1
      in case wake of
           IdleFault \<Rightarrow> let (st2, e3) = drop_connection sr st1 e2 in (Idling st2, e3)
         | IdleGone \<Rightarrow> (ChannelGone, e2)
         | IdleWoke readable onset \<Rightarrow>
             (case idle_drain sr inbound_armed readable st1 e2 of
                None \<Rightarrow> (StreamerPanicked, e2)
              | Some (st2, e3) \<Rightarrow>
                  (case onset of
                     None \<Rightarrow> (Idling st2, e3)
                   | Some vad_write_head \<Rightarrow> open_onset sr vad_write_head st2 e3)))"

text \<open>The return of \<open>run_segment\<close>: what it borrowed comes back, and a lost socket is torn down.\<close>

definition segment_returned ::
  "('s, 'e) StreamerRuntime \<Rightarrow> SegmentExit \<Rightarrow> 's SegmentVars \<Rightarrow> 's streamer \<Rightarrow> 's streamer" where
  "segment_returned sr exit s st =
     (let st1 = st\<lparr>st_link := (st_link st)\<lparr>ls_inbound_accum := sg_accum s, ls_encode_buf := sg_outbound_buf s\<rparr>,
                   st_route := sg_route s\<rparr>
      in if exit = SocketLost then st_socket_lost sr st1 else st1)"

fun streamer_step :: "('s, 'e) StreamerRuntime \<Rightarrow> 's streamer_result \<times> 'e \<Rightarrow> 's streamer_result \<times> 'e" where
  "streamer_step sr (Idling st, e) = streamer_tick sr st e"
| "streamer_step sr (InSegment st segment_id r, e) =
     (case r of
        Running ph s \<Rightarrow>
          let (r', e1) = seg_step (segment_deps sr segment_id) (Running ph s, e) in (InSegment st segment_id r', e1)
      | Exited exit s \<Rightarrow> (Idling (segment_returned sr exit s st), sr_segment_active sr False e)
      | Panicked \<Rightarrow> (StreamerPanicked, e))"
| "streamer_step sr (ChannelGone, e) = (ChannelGone, e)"
| "streamer_step sr (StreamerPanicked, e) = (StreamerPanicked, e)"

text \<open>The first \<open>n\<close> steps of \<open>run_streamer_loop\<close>.\<close>

definition run_streamer_loop ::
  "('s, 'e) StreamerRuntime \<Rightarrow> nat \<Rightarrow> 's route \<Rightarrow> 'e \<Rightarrow> 's streamer_result \<times> 'e" where
  "run_streamer_loop sr n route e =
     (streamer_step sr ^^ n)
       (Idling \<lparr>st_link = LinkState_new (sr_jitter_seed sr), st_route = route,
                st_segment_counter = 0, st_idle_work_pending = False\<rparr>, e)"

section \<open>What the platform promises\<close>

text \<open>
  The segment loop's environment; a connect that succeeds yields a connection on which
  nothing has been written; the remaining queries leave the wire alone; and an onset names
  samples that have been captured.
\<close>

definition runtime_ok :: "('s, 'e) StreamerRuntime \<Rightarrow> ('e \<Rightarrow> bytes) \<Rightarrow> ('e \<Rightarrow> i16 list) \<Rightarrow> bool" where
  "runtime_ok sr wire hist \<longleftrightarrow>
     seg_env_ok (sr_deps sr) wire hist \<and>
     (\<forall>e r e'. sr_connect sr e = (r, e') \<longrightarrow> grows hist e e' \<and> (r = None \<longrightarrow> wire e' = [])) \<and>
     (\<forall>e r e'. sr_link_up sr e = (r, e') \<longrightarrow> quiet_env wire hist e e') \<and>
     (\<forall>e r e'. sr_now_secs sr e = (r, e') \<longrightarrow> quiet_env wire hist e e') \<and>
     (\<forall>d e r e'. sr_recv_timeout sr d e = (r, e') \<longrightarrow> quiet_env wire hist e e') \<and>
     (\<forall>b e. quiet_env wire hist e (sr_segment_active sr b e)) \<and>
     (\<forall>e h e'. sd_try_recv (sr_deps sr) e = (Received (VadOpened h), e') \<longrightarrow> h \<le> length (hist e')) \<and>
     (\<forall>d e h e'. sr_recv_timeout sr d e = (Received (VadOpened h), e') \<longrightarrow> h \<le> length (hist e'))"

lemma runtime_okD:
  assumes "runtime_ok sr wire hist"
  shows "seg_env_ok (sr_deps sr) wire hist" "sr_connect sr e = (cr, e') \<Longrightarrow> grows hist e e'"
    "sr_connect sr e = (None, e') \<Longrightarrow> wire e' = []"
    "sr_link_up sr e = (lu, e') \<Longrightarrow> quiet_env wire hist e e'"
    "sr_now_secs sr e = (t, e') \<Longrightarrow> quiet_env wire hist e e'"
    "sr_recv_timeout sr d e = (rr, e') \<Longrightarrow> quiet_env wire hist e e'"
    "quiet_env wire hist e (sr_segment_active sr b e)"
    "sd_try_recv (sr_deps sr) e = (Received (VadOpened h), e') \<Longrightarrow> h \<le> length (hist e')"
    "sr_recv_timeout sr d e = (Received (VadOpened h), e') \<Longrightarrow> h \<le> length (hist e')"
  using assms unfolding runtime_ok_def by (elim conjE, (blast | metis))+

lemma segment_deps_simps [simp]:
  "sd_pc (segment_deps sr sid) = sd_pc (sr_deps sr)" "sd_sink (segment_deps sr sid) = sd_sink (sr_deps sr)"
  "sd_segment_id (segment_deps sr sid) = sid"
  by (simp_all add: segment_deps_def)

lemma segment_deps_ok: "seg_env_ok (sr_deps sr) wire hist \<Longrightarrow> seg_env_ok (segment_deps sr sid) wire hist"
  by (simp add: seg_env_ok_def segment_deps_def)

section \<open>Sessions\<close>

text \<open>
  What a peer may receive on one connection: the pod's \<open>Hello\<close>, then segments. Each opens with
  a \<open>SegmentStart\<close> that carries its id and the index of its first sample, and holds the capture from there;
  a segment that was abandoned on the frame boundary has no closing frame.
\<close>

inductive session :: "StreamFrame \<Rightarrow> i16 list \<Rightarrow> StreamFrame list \<Rightarrow> bool" for hello H where
  hello: "session hello H [hello]"
| segment: "session hello H fs \<Longrightarrow> seg_frames (ss_segment_id start) H c0 gs k c \<Longrightarrow>
    ss_base_sample_index start = of_nat c0 \<Longrightarrow> c0 \<le> length H \<Longrightarrow>
    ending = [] \<or> (\<exists>ts reason. ending = [end_frame (ss_segment_id start) ts k (c - c0) reason]) \<Longrightarrow>
    session hello H (fs @ FSegmentStart start # gs @ ending)"

lemma session_prefix:
  assumes "session hello H fs" "prefix H H'"
  shows "session hello H' fs"
  using assms(1)
proof (induction rule: session.induct)
  case (segment fs start c0 gs k c ending)
  show ?case
    using session.segment [OF segment.IH seg_frames_prefix [OF segment.hyps(2) assms(2)] segment.hyps(3) _ segment.hyps(5)]
      segment.hyps(4) prefix_length_le [OF assms(2)] by simp
qed (rule session.hello)

abbreviation sr_pc :: "('s, 'e) StreamerRuntime \<Rightarrow> postcard" where
  "sr_pc sr \<equiv> sd_pc (sr_deps sr)"

abbreviation sr_hello :: "('s, 'e) StreamerRuntime \<Rightarrow> StreamFrame" where
  "sr_hello sr \<equiv> hello_frame (sr_pod_id sr)"

definition framed :: "('s, 'e) StreamerRuntime \<Rightarrow> ('e \<Rightarrow> bytes) \<Rightarrow> ('e \<Rightarrow> i16 list) \<Rightarrow> 'e \<Rightarrow> bool" where
  "framed sr wire hist e \<longleftrightarrow> (\<exists>fs. session (sr_hello sr) (hist e) fs \<and> wire e = wire_frames (sr_pc sr) fs)"

definition inbound_ok :: "('s \<Rightarrow> bool) \<Rightarrow> 's streamer \<Rightarrow> bool" where
  "inbound_ok ok st \<longleftrightarrow> acc_ok (ls_inbound_accum (st_link st)) \<and> ok (rt_sink (st_route st))"

definition link_ok ::
  "('s, 'e) StreamerRuntime \<Rightarrow> ('s \<Rightarrow> bool) \<Rightarrow> ('e \<Rightarrow> bytes) \<Rightarrow> ('e \<Rightarrow> i16 list) \<Rightarrow> 's streamer \<Rightarrow> 'e \<Rightarrow> bool" where
  "link_ok sr ok wire hist st e \<longleftrightarrow>
     inbound_ok ok st \<and> (ls_held_socket (st_link st) \<longrightarrow> framed sr wire hist e)"

definition started ::
  "('s, 'e) StreamerRuntime \<Rightarrow> ('e \<Rightarrow> bytes) \<Rightarrow> ('e \<Rightarrow> i16 list) \<Rightarrow> u32 \<Rightarrow> nat \<Rightarrow> bytes \<Rightarrow> 'e \<Rightarrow> bool" where
  "started sr wire hist sid c0 sent e \<longleftrightarrow> c0 \<le> length (hist e) \<and>
     (\<exists>fs start. session (sr_hello sr) (hist e) fs \<and> ss_segment_id start = sid \<and>
        ss_base_sample_index start = of_nat c0 \<and> sent = wire_frames (sr_pc sr) (fs @ [FSegmentStart start]))"

fun str_ok ::
  "('s, 'e) StreamerRuntime \<Rightarrow> ('s \<Rightarrow> bool) \<Rightarrow> ('e \<Rightarrow> bytes) \<Rightarrow> ('e \<Rightarrow> i16 list) \<Rightarrow> 's streamer_result \<times> 'e \<Rightarrow> bool" where
  "str_ok sr ok wire hist (Idling st, e) = link_ok sr ok wire hist st e"
| "str_ok sr ok wire hist (InSegment st sid r, e) =
     (\<exists>c0 sent. started sr wire hist sid c0 sent e \<and> seg_ok (segment_deps sr sid) ok wire hist sent c0 (r, e))"
| "str_ok sr ok wire hist (ChannelGone, e) = True"
| "str_ok sr ok wire hist (StreamerPanicked, e) = False"

lemma framed_quiet: "quiet_env wire hist e e' \<Longrightarrow> framed sr wire hist e \<Longrightarrow> framed sr wire hist e'"
  unfolding framed_def quiet_env_def using session_prefix by fastforce

lemma link_ok_quiet: "quiet_env wire hist e e' \<Longrightarrow> link_ok sr ok wire hist st e \<Longrightarrow> link_ok sr ok wire hist st e'"
  by (auto simp: link_ok_def intro: framed_quiet)

lemma started_grows: "grows hist e e' \<Longrightarrow> started sr wire hist sid c0 sent e \<Longrightarrow> started sr wire hist sid c0 sent e'"
  unfolding started_def using session_prefix grows_length [of hist e e'] by (fastforce simp: grows_def)

lemma framed_hello: "wire e = wire_frame (sr_pc sr) (sr_hello sr) \<Longrightarrow> framed sr wire hist e"
  unfolding framed_def by (intro exI [of _ "[sr_hello sr]"]) (simp add: session.hello)
section \<open>Connecting\<close>

lemma poll_writable_quiet:
  assumes ok: "seg_env_ok deps wire hist"
    and p: "poll_writable (sd_readiness deps) (env_now (sd_send deps)) d e = (w, e')"
  shows "quiet_env wire hist e e'"
proof -
  obtain t e1 where t: "env_now (sd_send deps) e = (t, e1)" by fastforce
  obtain r e2 where r: "sd_readiness deps WRITE (d - t) e1 = (r, e2)" by fastforce
  obtain u e3 where u: "env_now (sd_send deps) e2 = (u, e3)" by fastforce
  have e2: "quiet_env wire hist e e2" by (rule quiet_env_trans [OF seg_env_okD(4) [OF ok t] seg_env_okD(6) [OF ok r]])
  have "e' = e2 \<or> e' = e3" using p t r u by (auto simp: poll_writable_def split: Readiness.splits if_splits)
  then show ?thesis using e2 quiet_env_trans [OF e2 seg_env_okD(4) [OF ok u]] by auto
qed

lemma send_frame_bp_ok:
  assumes ok: "seg_env_ok deps wire hist" and s: "send_frame_bp deps frame buf e = (r, e')"
  shows "grows hist e e'" "r = Inr Sent \<Longrightarrow> wire e' = wire e @ wire_frame (sd_pc deps) frame"
    "r = Inr BackpressureAligned \<Longrightarrow> wire e' = wire e"
proof -
  define env where "env = (sd_send deps)\<lparr>env_wait := poll_writable (sd_readiness deps) (env_now (sd_send deps))\<rparr>"
  have env: "env_write env = env_write (sd_send deps)" "env_now env = env_now (sd_send deps)"
    "env_wait env = poll_writable (sd_readiness deps) (env_now (sd_send deps))"
    by (simp_all add: env_def)
  have w: "writer_ok env wire"
    using seg_env_okD(1) [OF ok] poll_writable_quiet [OF ok] unfolding writer_ok_def env quiet_env_def by blast
  have k: "env_keeps env (grows hist)"
    using seg_env_grows(1,2) [OF ok] poll_writable_quiet [OF ok, THEN quiet_grows]
    unfolding env_keeps_def env by (auto simp: reflp_def transp_def intro: grows_trans)
  obtain cycles where c: "write_frame_classified (sd_pc deps) env frame buf e = (r, cycles, e')"
    using s by (auto simp: send_frame_bp_def env_def [symmetric] split: prod.splits)
  show "grows hist e e'" by (rule write_frame_keeps [OF k c])
  obtain t e1 where t: "env_now env e = (t, e1)" by fastforce
  note at = c [unfolded write_frame_classified_def t Let_def prod.case]
  show "r = Inr Sent \<Longrightarrow> wire e' = wire e @ wire_frame (sd_pc deps) frame" "r = Inr BackpressureAligned \<Longrightarrow> wire e' = wire e"
    using write_frame_spec [OF w _ at] wire_frame_is_encode writer_ok_now [OF w t] at
    by (cases "encode_frame (sd_pc deps) frame buf"; fastforce simp: write_frame_classified_at_def)+
qed

lemma connect_and_hello_ok:
  assumes ok: "runtime_ok sr wire hist" and c: "connect_and_hello sr buf e = (r, e')"
  shows "grows hist e e'" "r = None \<Longrightarrow> framed sr wire hist e'"
proof -
  obtain x e1 where x: "sr_connect sr e = (x, e1)" by fastforce
  obtain y e2 where y: "send_frame_bp (sr_deps sr) (sr_hello sr) buf e1 = (y, e2)" by fastforce
  note B = send_frame_bp_ok [OF runtime_okD(1) [OF ok] y]
  have e1: "grows hist e e1" by (rule runtime_okD(2) [OF ok x])
  have cases: "e' = e1 \<and> r \<noteq> None \<or> x = None \<and> e' = e2 \<and> (r = None \<longrightarrow> y = Inr Sent)"
    using c x y by (auto simp: connect_and_hello_def split: option.splits sum.splits SendOutcome.splits)
  then show "grows hist e e'" using e1 grows_trans [OF e1 B(1)] by auto
  show "framed sr wire hist e'" if "r = None"
    using cases that B(2) runtime_okD(3) [OF ok, of e e1] x by (intro framed_hello) auto
qed

lemma link_fields [simp]:
  "ls_held_socket (st_link (arm_backoff now st)) = ls_held_socket (st_link st)"
  "ls_inbound_accum (st_link (arm_backoff now st)) = ls_inbound_accum (st_link st)"
  "st_route (arm_backoff now st) = st_route st"
  "ls_held_socket (st_link (st_connect_success st)) = ls_held_socket (st_link st)"
  "ls_inbound_accum (st_link (st_connect_success st)) = ls_inbound_accum (st_link st)"
  "st_route (st_connect_success st) = st_route st"
  by (simp_all add: arm_backoff_def arm_reconnect_deadline_def st_connect_success_def note_connect_success_def Let_def)

lemma link_ok_paced [simp]:
  "link_ok sr ok wire hist (arm_backoff now st) e = link_ok sr ok wire hist st e"
  "link_ok sr ok wire hist (st_connect_success st) e = link_ok sr ok wire hist st e"
  "link_ok sr ok wire hist (st\<lparr>st_segment_counter := n\<rparr>) e = link_ok sr ok wire hist st e"
  "link_ok sr ok wire hist (st\<lparr>st_idle_work_pending := b\<rparr>) e = link_ok sr ok wire hist st e"
  by (simp_all add: link_ok_def inbound_ok_def)

lemma held_sockets [simp]:
  "ls_held_socket (st_link (st_socket_established sr st))" "\<not> ls_held_socket (st_link (st_socket_lost sr st))"
  by (simp_all add: st_socket_established_def st_socket_lost_def install_socket_def note_socket_established_def
      note_socket_lost_def)
section \<open>The loop keeps the session\<close>

fun onset_ok ::
  "('s, 'e) StreamerRuntime \<Rightarrow> ('s \<Rightarrow> bool) \<Rightarrow> ('e \<Rightarrow> bytes) \<Rightarrow> ('e \<Rightarrow> i16 list) \<Rightarrow> 's onset_step \<times> 'e \<Rightarrow> bool" where
  "onset_ok sr ok wire hist (OpenDropped st, e) = link_ok sr ok wire hist st e"
| "onset_ok sr ok wire hist (OpenReady st fresh, e) = (ls_held_socket (st_link st) \<and> link_ok sr ok wire hist st e)"
| "onset_ok sr ok wire hist (OpenSegment st c sid, e) = (inbound_ok ok st \<and> started sr wire hist sid c (wire e) e)"

lemma idle_wait_ok:
  assumes ok: "runtime_ok sr wire hist" and w: "idle_wait sr st e = (wake, e')"
  shows "quiet_env wire hist e e'" "wake = IdleWoke b (Some h) \<Longrightarrow> h \<le> length (hist e')"
proof -
  let ?i = "sd_poll_interest (sr_deps sr) (idle_armed st) False e"
  note ok1 = runtime_okD(1) [OF ok]
  obtain t e1 where t: "env_now (sd_send (sr_deps sr)) e = (t, e1)" by fastforce
  obtain rd e2 where rd: "sd_readiness (sr_deps sr) ?i (poll_timeout t None (st_idle_work_pending st)) e1 = (rd, e2)" by fastforce
  obtain r e3 where r: "sd_try_recv (sr_deps sr) e2 = (r, e3)" by fastforce
  obtain s e4 where s: "sr_recv_timeout sr IDLE_TICK e = (s, e4)" by fastforce
  have e2: "quiet_env wire hist e e2" by (rule quiet_env_trans [OF seg_env_okD(4) [OF ok1 t] seg_env_okD(6) [OF ok1 rd]])
  have e3: "quiet_env wire hist e e3" by (rule quiet_env_trans [OF e2 seg_env_okD(7) [OF ok1 r]])
  have cases: "wake = IdleFault \<and> e' = e2 \<or> (\<exists>b. wake = onset_of b r) \<and> e' = e3 \<or> wake = onset_of False s \<and> e' = e4"
    using w t rd r s by (auto simp: idle_wait_def Let_def split: if_splits Readiness.splits)
  then show "quiet_env wire hist e e'" using e2 e3 runtime_okD(6) [OF ok s] by auto
  have "onset_of b' x = IdleWoke b (Some h) \<Longrightarrow> x = Received (VadOpened h)" for b' x
    by (auto simp: onset_of_def split: try_recv_result.splits StreamerMsg.splits)
  then show "h \<le> length (hist e')" if "wake = IdleWoke b (Some h)"
    using cases that runtime_okD(8,9) [OF ok] r s by (metis idle_wake.distinct(3))
qed

context playback_sink
begin

lemma st_socket_lost_ok:
  assumes "sd_sink (sr_deps sr) = sink" "inbound_ok ok st"
  shows "link_ok sr ok wire hist (st_socket_lost sr st) e"
  using assms end_of_audio_ok
  by (simp add: link_ok_def inbound_ok_def st_socket_lost_def install_socket_def note_socket_lost_def)

lemma st_socket_established_io:
  assumes "sd_sink (sr_deps sr) = sink" "inbound_ok ok st"
  shows "inbound_ok ok (st_socket_established sr st)"
  using assms stream_reset_ok
  by (simp add: inbound_ok_def st_socket_established_def install_socket_def note_socket_established_def)

lemma st_socket_established_ok:
  assumes "sd_sink (sr_deps sr) = sink" "inbound_ok ok st" "framed sr wire hist e"
  shows "link_ok sr ok wire hist (st_socket_established sr st) e"
  using st_socket_established_io [OF assms(1,2)] assms(3) by (simp add: link_ok_def)

lemma ensure_connected_ok:
  assumes ok: "runtime_ok sr wire hist" and sk: "sd_sink (sr_deps sr) = sink"
    and inv: "link_ok sr ok wire hist st e" and c: "ensure_connected sr st e = (st', e')"
  shows "link_ok sr ok wire hist st' e'"
proof (cases "ls_held_socket (st_link st)")
  case True
  then show ?thesis using c inv by (simp add: ensure_connected_def)
next
  case False
  obtain n e1 where n: "sr_now_secs sr e = (n, e1)" by fastforce
  obtain l e2 where l: "sr_link_up sr e1 = (l, e2)" by fastforce
  obtain r e3 where r: "connect_and_hello sr (ls_encode_buf (st_link st)) e2 = (r, e3)" by fastforce
  have io: "inbound_ok ok st" using inv by (simp add: link_ok_def)
  have down: "link_ok sr ok wire hist st d" for d using io False by (simp add: link_ok_def)
  show ?thesis
    using c False n l r down st_socket_established_ok [OF sk io connect_and_hello_ok(2) [OF ok r]]
    by (auto simp: ensure_connected_def split: if_splits option.splits)
qed

lemma drop_connection_ok:
  assumes ok: "runtime_ok sr wire hist" and sk: "sd_sink (sr_deps sr) = sink"
    and io: "inbound_ok ok st" and d: "drop_connection sr st e = (st', e')"
  shows "link_ok sr ok wire hist st' e'" "quiet_env wire hist e e'"
  using d st_socket_lost_ok [OF sk io] runtime_okD(5) [OF ok]
  by (auto simp: drop_connection_def Let_def split: prod.splits)

lemma idle_drain_ok:
  assumes ok: "runtime_ok sr wire hist" and sk: "sd_sink (sr_deps sr) = sink"
    and inv: "link_ok sr ok wire hist st e"
  shows "\<exists>st' e'. idle_drain sr armed readable st e = Some (st', e') \<and> link_ok sr ok wire hist st' e' \<and> grows hist e e'"
proof -
  obtain res e1 acc' rt' where p: "pump_inbound (sr_pc sr) sink (sd_read (sr_deps sr)) INBOUND_STEPS_PER_WAKE e
      (ls_inbound_accum (st_link st)) (st_route st) = Some (res, e1, acc', rt')" "acc_ok acc'" "ok (rt_sink rt')"
    using pump_inbound_total [OF seg_env_okD(2) [OF runtime_okD(1) [OF ok]]] inv
    unfolding link_ok_def inbound_ok_def by blast
  have q: "quiet_env wire hist e e1" by (rule pump_inbound_quiet [OF runtime_okD(1) [OF ok] p(1)])
  let ?st = "\<lambda>b. st\<lparr>st_link := (st_link st)\<lparr>ls_inbound_accum := acc'\<rparr>, st_route := rt', st_idle_work_pending := b\<rparr>"
  let ?ex = "st\<lparr>st_idle_work_pending := False, st_link := (st_link st)\<lparr>ls_inbound_accum := acc'\<rparr>,
    st_route := note_inbound_exit rt'\<rparr>"
  have kept: "link_ok sr ok wire hist (?st b) e1" for b
    using link_ok_quiet [OF q inv] p(2,3) by (simp add: link_ok_def inbound_ok_def)
  have io: "inbound_ok ok ?ex" using p(2,3) by (simp add: inbound_ok_def note_inbound_exit_def)
  obtain st2 e2 where d: "drop_connection sr ?ex e1 = (st2, e2)" by fastforce
  note D = drop_connection_ok [OF ok sk io d]
  have "grows hist e e2" by (rule grows_trans [OF quiet_grows [OF q] quiet_grows [OF D(2)]])
  then show ?thesis
    using p(1) [folded sk] d D(1) kept quiet_grows [OF q] inv by (cases res) (simp_all add: idle_drain_def Let_def)
qed

lemma ensure_for_onset_ok:
  assumes ok: "runtime_ok sr wire hist" and sk: "sd_sink (sr_deps sr) = sink"
    and inv: "link_ok sr ok wire hist st e" and c: "ensure_for_onset sr st e = (r, e')"
  shows "onset_ok sr ok wire hist (r, e')" "grows hist e e'"
proof -
  obtain x e1 where x: "connect_and_hello sr (ls_encode_buf (st_link st)) e = (x, e1)" by fastforce
  note C = connect_and_hello_ok [OF ok x]
  have io: "inbound_ok ok st" using inv by (simp add: link_ok_def)
  have down: "\<not> ls_held_socket (st_link st) \<Longrightarrow> link_ok sr ok wire hist st d" for d using io by (simp add: link_ok_def)
  show "onset_ok sr ok wire hist (r, e')"
    using c x inv down st_socket_established_ok [OF sk io C(2)]
    by (auto simp: ensure_for_onset_def split: if_splits option.splits)
  show "grows hist e e'" using c x C(1) by (auto simp: ensure_for_onset_def split: if_splits option.splits)
qed

lemma start_sent:
  assumes ok: "runtime_ok sr wire hist" and fr: "framed sr wire hist e" and c: "c \<le> length (hist e)"
    and start: "ss_segment_id start = sid" "ss_base_sample_index start = of_nat c"
    and s: "send_frame_bp (sr_deps sr) (FSegmentStart start) buf e = (r, e')"
  shows "r = Inr Sent \<Longrightarrow> started sr wire hist sid c (wire e') e'"
    "r = Inr BackpressureAligned \<Longrightarrow> framed sr wire hist e'"
proof -
  note B = send_frame_bp_ok [OF runtime_okD(1) [OF ok] s]
  obtain fs where fs: "session (sr_hello sr) (hist e) fs" "wire e = wire_frames (sr_pc sr) fs"
    using fr unfolding framed_def by blast
  have fs': "session (sr_hello sr) (hist e') fs" using session_prefix [OF fs(1)] B(1) by (simp add: grows_def)
  show "started sr wire hist sid c (wire e') e'" if "r = Inr Sent"
    using fs' fs(2) B(2) [OF that] start grows_length [OF B(1) c]
    unfolding started_def by - (rule conjI, assumption, rule exI [of _ fs], rule exI [of _ start], simp)
  show "framed sr wire hist e'" if "r = Inr BackpressureAligned"
    using fs' fs(2) B(3) [OF that] unfolding framed_def by auto
qed

lemma resend_start_ok:
  assumes ok: "runtime_ok sr wire hist" and sk: "sd_sink (sr_deps sr) = sink"
    and io: "inbound_ok ok st" and down: "\<not> ls_held_socket (st_link st)" and c: "c \<le> length (hist e)"
    and start: "ss_segment_id start = sid" "ss_base_sample_index start = of_nat c"
  shows "onset_ok sr ok wire hist (resend_start sr (FSegmentStart start) c sid st e)"
proof -
  let ?buf = "ls_encode_buf (st_link st)"
  obtain x e1 where x: "connect_and_hello sr ?buf e = (x, e1)" by fastforce
  obtain y e2 where y: "send_frame_bp (sr_deps sr) (FSegmentStart start) ?buf e1 = (y, e2)" by fastforce
  note C = connect_and_hello_ok [OF ok x]
  note S = start_sent [OF ok C(2) grows_length [OF C(1) c] start y]
  have "link_ok sr ok wire hist st d" for d using io down by (simp add: link_ok_def)
  then show ?thesis
    using x y S st_socket_established_ok [OF sk io] st_socket_established_io [OF sk io]
    by (auto simp: resend_start_def inbound_ok_def split: option.splits sum.splits SendOutcome.splits)
qed

lemma send_start_ok:
  assumes ok: "runtime_ok sr wire hist" and sk: "sd_sink (sr_deps sr) = sink"
    and inv: "ls_held_socket (st_link st)" "link_ok sr ok wire hist st e" and h: "h \<le> length (hist e)"
  shows "onset_ok sr ok wire hist (send_start sr ring h fresh st e)"
proof -
  define plan where "plan = plan_segment_start ring (sd_ridx (sr_deps sr))
    \<lparr>so_segment_id = st_segment_counter st, so_vad_write_head = h, so_preroll_samples = PREROLL_SAMPLES\<rparr>"
  let ?st = "st\<lparr>st_segment_counter := st_segment_counter st + 1\<rparr>"
  have c: "sp_cursor plan \<le> length (hist e)" using plan_cursor_bounds(1) [OF plan_def [symmetric]] h by simp
  have start: "ss_segment_id (sp_start plan) = st_segment_counter st"
    "ss_base_sample_index (sp_start plan) = of_nat (sp_cursor plan)"
    by (simp_all add: plan_def plan_segment_start_def Let_def)
  have fr: "framed sr wire hist e" and io: "inbound_ok ok st" using inv by (simp_all add: link_ok_def)
  have io1: "inbound_ok ok ?st" using io by (simp add: inbound_ok_def)
  obtain r e1 where r: "send_frame_bp (sr_deps sr) (FSegmentStart (sp_start plan)) (ls_encode_buf (st_link st)) e = (r, e1)"
    by fastforce
  note S = start_sent [OF ok fr c start r]
  have lost: "link_ok sr ok wire hist (st_socket_lost sr ?st) d" for d by (rule st_socket_lost_ok [OF sk io1])
  have "onset_ok sr ok wire hist (resend_start sr (FSegmentStart (sp_start plan)) (sp_cursor plan)
      (st_segment_counter st) (st_socket_lost sr ?st) e1)"
    using lost grows_length [OF send_frame_bp_ok(1) [OF runtime_okD(1) [OF ok] r] c]
    by (intro resend_start_ok [OF ok sk _ _ _ start]) (simp_all add: link_ok_def)
  then show ?thesis
    using r S io io1 lost by (auto simp: send_start_def plan_def [symmetric] Let_def link_ok_def inbound_ok_def
        split: sum.splits SendOutcome.splits)
qed

lemma segment_opened:
  assumes ok: "runtime_ok sr wire hist" and sk: "sd_sink (sr_deps sr) = sink"
    and o: "onset_ok sr ok wire hist (OpenSegment st c sid, e)"
    and r: "segment_open (segment_deps sr sid) c (ls_inbound_accum (st_link st)) (st_route st) buf e = (r, e')"
  shows "str_ok sr ok wire hist (InSegment st sid r, e')"
proof -
  note ok1 = segment_deps_ok [OF runtime_okD(1) [OF ok], of sid]
  have io: "acc_ok (ls_inbound_accum (st_link st))" "ok (rt_sink (st_route st))" and s: "started sr wire hist sid c (wire e) e"
    using o by (simp_all add: inbound_ok_def)
  have "seg_ok (segment_deps sr sid) ok wire hist (wire e) c (r, e')"
    using run_segment_ok [OF ok1 _ io, of c e 0 buf] s sk r by (simp add: run_segment_def started_def)
  moreover have "grows hist e e'"
    using r seg_env_grows(6) [OF ok1] by (auto simp: segment_open_def Let_def split: prod.splits)
  ultimately show ?thesis using started_grows [OF _ s] by auto
qed

lemma open_onset_ok:
  assumes ok: "runtime_ok sr wire hist" and sk: "sd_sink (sr_deps sr) = sink"
    and inv: "link_ok sr ok wire hist st e" and h: "h \<le> length (hist e)"
  shows "str_ok sr ok wire hist (open_onset sr h st e)"
proof -
  let ?e0 = "sr_segment_active sr True e"
  have e0: "quiet_env wire hist e ?e0" by (rule runtime_okD(7) [OF ok])
  obtain o1 e1 where o1: "ensure_for_onset sr st ?e0 = (o1, e1)" by fastforce
  note E = ensure_for_onset_ok [OF ok sk link_ok_quiet [OF e0 inv] o1]
  have close: "link_ok sr ok wire hist st' d \<Longrightarrow> link_ok sr ok wire hist st' (sr_segment_active sr False d)" for st' d
    by (rule link_ok_quiet [OF runtime_okD(7) [OF ok]])
  show ?thesis
  proof (cases o1)
    case (OpenReady st1 fresh)
    obtain rg e2 where rg: "sd_ring (sr_deps sr) e1 = (rg, e2)" by fastforce
    note R = seg_env_okD(10) [OF runtime_okD(1) [OF ok] rg]
    obtain ring where ring: "rg = Some ring" using R by blast
    obtain o2 e3 where o2: "send_start sr ring h fresh st1 e2 = (o2, e3)" by fastforce
    have "h \<le> length (hist e2)"
      using R by (intro grows_length [OF grows_trans [OF quiet_grows [OF e0] grows_trans [OF E(2)]] h]) (auto intro: quiet_grows)
    moreover have "link_ok sr ok wire hist st1 e2" "ls_held_socket (st_link st1)"
      using E(1) OpenReady link_ok_quiet [OF conjunct1 [OF R]] by auto
    ultimately have S: "onset_ok sr ok wire hist (o2, e3)" using send_start_ok [OF ok sk, of st1 e2 h ring fresh] o2 by simp
    show ?thesis
      using o1 OpenReady rg ring o2 S close segment_opened [OF ok sk]
      by (cases o2) (auto simp: open_onset_def split: prod.splits simp del: str_ok.simps(2))
  qed (use o1 E(1) close in \<open>auto simp: open_onset_def ensure_for_onset_def split: if_splits option.splits prod.splits\<close>)
qed

lemma streamer_tick_ok:
  assumes ok: "runtime_ok sr wire hist" and sk: "sd_sink (sr_deps sr) = sink"
    and inv: "link_ok sr ok wire hist st e"
  shows "str_ok sr ok wire hist (streamer_tick sr st e)"
proof -
  obtain st1 e1 where c: "ensure_connected sr st e = (st1, e1)" by fastforce
  obtain w e2 where w: "idle_wait sr st1 e1 = (w, e2)" by fastforce
  note W = idle_wait_ok [OF ok w]
  have inv2: "link_ok sr ok wire hist st1 e2" by (rule link_ok_quiet [OF W(1) ensure_connected_ok [OF ok sk inv c]])
  show ?thesis
  proof (cases w)
    case IdleFault
    obtain st2 e3 where d: "drop_connection sr st1 e2 = (st2, e3)" by fastforce
    have "inbound_ok ok st1" using inv2 by (simp add: link_ok_def)
    then show ?thesis using c w IdleFault d drop_connection_ok(1) [OF ok sk _ d] by (simp add: streamer_tick_def)
  next
    case IdleGone
    then show ?thesis using c w by (simp add: streamer_tick_def)
  next
    case (IdleWoke readable onset)
    obtain st2 e3 where d: "idle_drain sr (idle_armed st1) readable st1 e2 = Some (st2, e3)"
      "link_ok sr ok wire hist st2 e3" "grows hist e2 e3"
      using idle_drain_ok [OF ok sk inv2] by blast
    show ?thesis
      using c w IdleWoke d open_onset_ok [OF ok sk d(2)] grows_length [OF d(3) W(2)]
      by (auto simp: streamer_tick_def split: option.splits)
  qed
qed

lemma segment_returned_ok:
  assumes sk: "sd_sink (sr_deps sr) = sink" and s: "started sr wire hist sid c0 sent e"
    and ex: "exit_ok (segment_deps sr sid) wire hist sent c0 x e" "io_ok ok v"
  shows "link_ok sr ok wire hist (segment_returned sr x v st) e"
proof -
  let ?st = "st\<lparr>st_link := (st_link st)\<lparr>ls_inbound_accum := sg_accum v, ls_encode_buf := sg_outbound_buf v\<rparr>,
    st_route := sg_route v\<rparr>"
  have io: "inbound_ok ok ?st" using ex(2) by (simp add: inbound_ok_def io_ok_def)
  show ?thesis
  proof (cases "x = SocketLost")
    case True
    then show ?thesis using st_socket_lost_ok [OF sk io] by (simp add: segment_returned_def)
  next
    case False
    obtain fs start where fs: "session (sr_hello sr) (hist e) fs" "ss_segment_id start = sid"
      "ss_base_sample_index start = of_nat c0" "sent = wire_frames (sr_pc sr) (fs @ [FSegmentStart start])"
      "c0 \<le> length (hist e)"
      using s unfolding started_def by blast
    obtain gs k c ending where gs: "seg_frames sid (hist e) c0 gs k c"
      "wire e = sent @ wire_frames (sr_pc sr) (gs @ ending)"
      "ending = [] \<or> (\<exists>ts reason. ending = [end_frame sid ts k (c - c0) reason])"
      using exit_ok_aligned [OF ex(1) False] unfolding segment_deps_simps by blast
    have "session (sr_hello sr) (hist e) (fs @ FSegmentStart start # gs @ ending)"
      by (rule session.segment [OF fs(1) _ fs(3,5)]) (use fs(2) gs in auto)
    moreover have "wire e = wire_frames (sr_pc sr) (fs @ FSegmentStart start # gs @ ending)"
      using fs(4) gs(2) by (simp add: wire_frames_def)
    ultimately have "framed sr wire hist e" unfolding framed_def by blast
    then show ?thesis using False io by (simp add: segment_returned_def link_ok_def)
  qed
qed

lemma streamer_step_ok:
  assumes ok: "runtime_ok sr wire hist" and sk: "sd_sink (sr_deps sr) = sink"
    and inv: "str_ok sr ok wire hist (res, e)"
  shows "str_ok sr ok wire hist (streamer_step sr (res, e))"
proof (cases res)
  case (Idling st)
  then show ?thesis using streamer_tick_ok [OF ok sk] inv by simp
next
  case (InSegment st sid r)
  note ok1 = segment_deps_ok [OF runtime_okD(1) [OF ok], of sid]
  obtain c0 sent where s: "started sr wire hist sid c0 sent e" "seg_ok (segment_deps sr sid) ok wire hist sent c0 (r, e)"
    using inv InSegment by auto
  show ?thesis
  proof (cases r)
    case (Running ph v)
    obtain r' e' where st: "seg_step (segment_deps sr sid) (r, e) = (r', e')" by fastforce
    have "seg_ok (segment_deps sr sid) ok wire hist sent c0 (r', e')"
      using seg_step_ok [OF ok1 _ s(2)] sk st by simp
    then show ?thesis using InSegment Running st started_grows [OF seg_step_grows [OF ok1 st] s(1)] by auto
  next
    case (Exited x v)
    then show ?thesis
      using InSegment s link_ok_quiet [OF runtime_okD(7) [OF ok] segment_returned_ok [OF sk s(1)]] by simp
  qed (use s in simp)
qed (use inv in auto)

lemma run_streamer_loop_ok:
  assumes ok: "runtime_ok sr wire hist" and sk: "sd_sink (sr_deps sr) = sink" and io: "ok (rt_sink route)"
  shows "str_ok sr ok wire hist (run_streamer_loop sr n route e)"
proof (induction n)
  case 0
  show ?case using io by (simp add: run_streamer_loop_def link_ok_def inbound_ok_def LinkState_new_def acc_ok_new)
next
  case (Suc n)
  then show ?case using streamer_step_ok [OF ok sk] by (cases "run_streamer_loop sr n route e") (simp add: run_streamer_loop_def)
qed

end

section \<open>A scripted pod\<close>

text \<open>
  The scripted segment with a platform around it: every connect succeeds on a fresh socket,
  the link is up, and the channel stays silent.
\<close>

definition script_runtime :: "('s, script_env) SegmentDeps \<Rightarrow> bytes \<Rightarrow> ('s, script_env) StreamerRuntime" where
  "script_runtime deps pod_id =
     \<lparr>sr_deps = deps, sr_pod_id = pod_id, sr_connect = (\<lambda>e. (None, e\<lparr>se_accepted := []\<rparr>)),
      sr_link_up = (\<lambda>e. (Some True, e)), sr_now_secs = (\<lambda>e. (se_clock e div 1000000000, e)),
      sr_recv_timeout = (\<lambda>d e. (ChannelEmpty, e)), sr_segment_active = (\<lambda>b e. e), sr_jitter_seed = 1\<rparr>"

lemma script_runtime_ok:
  assumes "seg_env_ok deps se_accepted (\<lambda>e. H)" "\<And>e. fst (sd_try_recv deps e) = ChannelEmpty"
  shows "runtime_ok (script_runtime deps pod_id) se_accepted (\<lambda>e. H)"
  using assms(1) assms(2) by (auto simp: runtime_ok_def script_runtime_def grows_def quiet_env_def) (metis fst_conv try_recv_result.distinct(1))

end
