(* ===== verification/Ingest.thy ===== *)
theory Ingest
  imports Wire "HOL-Library.Signed_Division"
begin

text \<open>
  The host's side of a pod connection: the clocks of \<^verbatim>\<open>host/crates/pod-ingest/src/clock.rs\<close> and, from
  \<^verbatim>\<open>host/crates/pod-ingest/src/session.rs\<close>, the session automaton \<open>SessionFsm\<close> that turns decoded
  frames into typed events and the \<open>ResumeLedger\<close> that recognises a segment resumed on a later
  connection.

  The ledger is shared by all connections under one mutex, which the code takes for one
  ledger operation at a time: it is an explicit argument and result of the operations that
  lock it. The \<open>debug_assert!\<close>s are not part of a release build; \<open>seg_mut\<close>'s unreachable
  branch cannot be written in the model because the open segment is an argument.

  The lemmas: the ledger keeps its indexes consistent and within its caps, and the automaton
  has a pod id whenever a segment is open.
\<close>

section \<open>Clocks\<close>

datatype DeviceMicros = DeviceMicros (dm_us: u64)

datatype HostMicros = HostMicros (hm_us: u64)

definition u64_saturating_add :: "u64 \<Rightarrow> u64 \<Rightarrow> u64" where
  "u64_saturating_add a b = (if unat a + unat b < 2 ^ 64 then a + b else - 1)"

definition u64_checked_add :: "u64 \<Rightarrow> u64 \<Rightarrow> u64 option" where
  "u64_checked_add a b = (if unat a + unat b < 2 ^ 64 then Some (a + b) else None)"

text \<open>An \<open>i64\<close> is an \<open>int\<close> in its range; \<open>as i64\<close> keeps the bit pattern.\<close>

definition i64_saturate :: "int \<Rightarrow> int" where
  "i64_saturate x = max (- (2 ^ 63)) (min x (2 ^ 63 - 1))"

definition as_i64 :: "u64 \<Rightarrow> int" where
  "as_i64 w = sint w"

definition device_checked_delta :: "DeviceMicros \<Rightarrow> DeviceMicros \<Rightarrow> u64 option" where
  "device_checked_delta t earlier = (if dm_us earlier \<le> dm_us t then Some (dm_us t - dm_us earlier) else None)"

definition host_checked_delta :: "HostMicros \<Rightarrow> HostMicros \<Rightarrow> u64 option" where
  "host_checked_delta t earlier = (if hm_us earlier \<le> hm_us t then Some (hm_us t - hm_us earlier) else None)"

definition advanced_by :: "DeviceMicros \<Rightarrow> u64 \<Rightarrow> DeviceMicros" where
  "advanced_by t micros = DeviceMicros (u64_saturating_add (dm_us t) micros)"

definition samples_to_micros :: "u64 \<Rightarrow> u32 \<Rightarrow> u64" where
  "samples_to_micros samples sample_rate_hz =
     (if sample_rate_hz = 0 then 0
      else of_nat (min (unat samples * 1000000) (2 ^ 64 - 1) div unat sample_rate_hz))"

record ClockOffsetEstimate =
  ce_sample_rate_hz :: u32
  ce_d_min :: int

definition observe :: "HostMicros \<Rightarrow> DeviceMicros \<Rightarrow> u64 \<Rightarrow> ClockOffsetEstimate \<Rightarrow> ClockOffsetEstimate" where
  "observe host_rx device_ts chunk_samples est =
     (let span = as_i64 (samples_to_micros chunk_samples (ce_sample_rate_hz est));
          d = i64_saturate (i64_saturate (as_i64 (hm_us host_rx) - as_i64 (dm_us device_ts)) - span)
      in est\<lparr>ce_d_min := min (ce_d_min est) d\<rparr>)"

definition from_observation :: "HostMicros \<Rightarrow> DeviceMicros \<Rightarrow> u64 \<Rightarrow> u32 \<Rightarrow> ClockOffsetEstimate" where
  "from_observation host_rx device_ts chunk_samples sample_rate_hz =
     observe host_rx device_ts chunk_samples \<lparr>ce_sample_rate_hz = sample_rate_hz, ce_d_min = 2 ^ 63 - 1\<rparr>"

definition project :: "ClockOffsetEstimate \<Rightarrow> DeviceMicros \<Rightarrow> HostMicros" where
  "project est device_ts =
     HostMicros (of_nat (nat (max (i64_saturate (ce_d_min est + as_i64 (dm_us device_ts))) 0)))"

section \<open>The resume ledger\<close>

definition PER_POD_CAP :: nat where "PER_POD_CAP = 1024"
definition MAX_PODS :: nat where "MAX_PODS = 256"

record PodEntries =
  pe_members :: "u32 set"
  pe_order :: "u32 list"

record ResumeLedger =
  rl_per_pod :: "bytes \<rightharpoonup> PodEntries"
  rl_pod_order :: "bytes list"
  rl_evictions :: u64
  rl_pod_evictions :: u64

definition ResumeLedger_new :: ResumeLedger where
  "ResumeLedger_new = \<lparr>rl_per_pod = Map.empty, rl_pod_order = [], rl_evictions = 0, rl_pod_evictions = 0\<rparr>"

text \<open>Removing the element at its first position is \<open>remove1\<close>.\<close>

definition touch_pod :: "bytes \<Rightarrow> ResumeLedger \<Rightarrow> ResumeLedger" where
  "touch_pod pod l = l\<lparr>rl_pod_order := remove1 pod (rl_pod_order l) @ [pod]\<rparr>"

function evict_pods_over_cap :: "ResumeLedger \<Rightarrow> ResumeLedger" where
  "evict_pods_over_cap l =
     (if MAX_PODS < length (rl_pod_order l)
      then (case rl_pod_order l of
              [] \<Rightarrow> l
            | pod # rest \<Rightarrow>
                evict_pods_over_cap
                  (l\<lparr>rl_pod_order := rest, rl_per_pod := (rl_per_pod l)(pod := None),
                     rl_pod_evictions := rl_pod_evictions l + 1\<rparr>))
      else l)"
  by pat_completeness auto
termination by (relation "measure (length \<circ> rl_pod_order)") auto

declare evict_pods_over_cap.simps [simp del]

definition insert_id :: "u32 \<Rightarrow> PodEntries \<Rightarrow> PodEntries \<times> bool" where
  "insert_id segment_id entry =
     (if segment_id \<in> pe_members entry then (entry, False)
      else
        let order = pe_order entry @ [segment_id]; members = insert segment_id (pe_members entry) in
        if PER_POD_CAP < length order
        then (\<lparr>pe_members = members - {hd order}, pe_order = tl order\<rparr>, True)
        else (\<lparr>pe_members = members, pe_order = order\<rparr>, False))"

definition note_truncated :: "bytes \<Rightarrow> u32 \<Rightarrow> ResumeLedger \<Rightarrow> ResumeLedger" where
  "note_truncated pod segment_id l =
     (let entry = (case rl_per_pod l pod of Some entry \<Rightarrow> entry | None \<Rightarrow> \<lparr>pe_members = {}, pe_order = []\<rparr>);
          (entry', id_evicted) = insert_id segment_id entry;
          l1 = l\<lparr>rl_per_pod := (rl_per_pod l)(pod \<mapsto> entry'),
                 rl_evictions := (if id_evicted then rl_evictions l + 1 else rl_evictions l)\<rparr>
      in evict_pods_over_cap (touch_pod pod l1))"

definition take_resume :: "bytes \<Rightarrow> u32 \<Rightarrow> ResumeLedger \<Rightarrow> bool \<times> ResumeLedger" where
  "take_resume pod segment_id l =
     (case rl_per_pod l pod of
        None \<Rightarrow> (False, l)
      | Some entry \<Rightarrow>
          if segment_id \<notin> pe_members entry then (False, l)
          else
            let entry' = \<lparr>pe_members = pe_members entry - {segment_id}, pe_order = remove1 segment_id (pe_order entry)\<rparr>
            in (True,
                if pe_members entry' = {}
                then l\<lparr>rl_per_pod := (rl_per_pod l)(pod := None), rl_pod_order := remove1 pod (rl_pod_order l)\<rparr>
                else l\<lparr>rl_per_pod := (rl_per_pod l)(pod \<mapsto> entry')\<rparr>))"

section \<open>Events\<close>

record FormatConstraint =
  fc_sample_rate_hz :: u32
  fc_bits_per_sample :: u8
  fc_channels :: u8
  fc_codec :: Codec
  fc_mono_beam_only :: bool

definition SPINE_FORMAT :: FormatConstraint where
  "SPINE_FORMAT = \<lparr>fc_sample_rate_hz = 16000, fc_bits_per_sample = 16, fc_channels = 1, fc_codec = S16Le,
     fc_mono_beam_only = True\<rparr>"

record Gap =
  gap_expected_index :: u64
  gap_got_index :: u64

datatype CrossCheck = CcMatch | CcMismatch u64 u64 | SkippedResume

datatype CloseCause = Eof | ReadError | CcDecodeError | Superseded | Shutdown | ForcedByNewStart

datatype SegmentClose =
    SegCompleted EndReason u32 u64 CrossCheck
  | SegTruncated CloseCause

datatype ProtocolErrorKind =
    NotHelloFirst | VersionMismatch u8 | FormatMismatch | HelloAfterHandshake | DuplicateSegmentStart
  | AudioOutsideSegment | SegmentEndWithoutStart | ControlFrameOnUplink | OddPcmLength

fun is_fatal :: "ProtocolErrorKind \<Rightarrow> bool" where
  "is_fatal NotHelloFirst = True"
| "is_fatal (VersionMismatch _) = True"
| "is_fatal FormatMismatch = True"
| "is_fatal _ = False"

datatype SessionEvent =
    HelloAccepted bytes HostMicros
  | SegmentOpened u32 u64 u32 DeviceMicros bool HostMicros
  | EvAudio (ea_segment_id: u32) (ea_first_sample_index: u64) (ea_pcm: "i16 list") (ea_device_ts: DeviceMicros)
      (ea_gap: "Gap option") (ea_host_rx: HostMicros)
  | EvTelemetry u32 int TelemetryKind DeviceMicros HostMicros
  | SegmentClosed u32 SegmentClose HostMicros
  | ProtocolError ProtocolErrorKind bool HostMicros

section \<open>The automaton\<close>

record SegState =
  sgs_segment_id :: u32
  sgs_base_device_ts_us :: u64
  sgs_is_resume :: bool
  sgs_samples_received :: u64
  sgs_last_index :: u64
  sgs_last_samples :: u64

datatype FsmState = AwaitHello | FsmIdle | FsmInSegment SegState | FsmDead

record FsmStats =
  fs_telemetry_outside_segment :: u64
  fs_nonfatal_violations :: u64

record SessionFsm =
  fsm_constraint :: FormatConstraint
  fsm_state :: FsmState
  fsm_pod_id :: "bytes option"
  fsm_stats :: FsmStats

definition SessionFsm_new :: "FormatConstraint \<Rightarrow> SessionFsm" where
  "SessionFsm_new constraint =
     \<lparr>fsm_constraint = constraint, fsm_state = AwaitHello, fsm_pod_id = None,
      fsm_stats = \<lparr>fs_telemetry_outside_segment = 0, fs_nonfatal_violations = 0\<rparr>\<rparr>"

definition fsm_segment_open :: "SessionFsm \<Rightarrow> bool" where
  "fsm_segment_open fsm = (case fsm_state fsm of FsmInSegment _ \<Rightarrow> True | _ \<Rightarrow> False)"

fun decode_pcm :: "bytes \<Rightarrow> i16 list" where
  "decode_pcm (lo # hi # bs) = i16_from_le_bytes lo hi # decode_pcm bs"
| "decode_pcm _ = []"

text \<open>The subtraction of the two \<open>i64\<close> wraps; the division truncates towards zero.\<close>

definition ts_to_sample_offset :: "u64 \<Rightarrow> u64 \<Rightarrow> u32 \<Rightarrow> int" where
  "ts_to_sample_offset device_ts_us base_device_ts_us sample_rate_hz =
     (let delta_us = as_i64 (device_ts_us - base_device_ts_us)
      in as_i64 (word_of_int ((delta_us * uint sample_rate_hz) sdiv 1000000)))"

definition format_ok :: "SessionFsm \<Rightarrow> Hello \<Rightarrow> bool" where
  "format_ok fsm hello =
     (let c = fsm_constraint fsm in
      hl_sample_rate_hz hello = fc_sample_rate_hz c \<and> hl_bits_per_sample hello = fc_bits_per_sample c \<and>
      hl_channels hello = fc_channels c \<and> hl_codec hello = fc_codec c \<and>
      \<not> (fc_mono_beam_only c \<and> hl_channel_source hello = Stereo))"

definition fsm_fatal :: "ProtocolErrorKind \<Rightarrow> HostMicros \<Rightarrow> SessionFsm \<Rightarrow> SessionFsm \<times> SessionEvent list" where
  "fsm_fatal knd host_rx fsm = (fsm\<lparr>fsm_state := FsmDead\<rparr>, [ProtocolError knd True host_rx])"

definition fsm_nonfatal :: "ProtocolErrorKind \<Rightarrow> HostMicros \<Rightarrow> SessionFsm \<Rightarrow> SessionFsm \<times> SessionEvent list" where
  "fsm_nonfatal knd host_rx fsm =
     (fsm\<lparr>fsm_stats := (fsm_stats fsm)\<lparr>fs_nonfatal_violations := fs_nonfatal_violations (fsm_stats fsm) + 1\<rparr>\<rparr>,
      [ProtocolError knd False host_rx])"

definition truncate_open_segment ::
  "CloseCause \<Rightarrow> HostMicros \<Rightarrow> SegState \<Rightarrow> SessionFsm \<Rightarrow> ResumeLedger \<Rightarrow> ResumeLedger \<times> SessionEvent list" where
  "truncate_open_segment cause at seg fsm ledger =
     ((case fsm_pod_id fsm of
         Some pod \<Rightarrow> note_truncated pod (sgs_segment_id seg) ledger
       | None \<Rightarrow> ledger),
      [SegmentClosed (sgs_segment_id seg) (SegTruncated cause) at])"

definition open_segment ::
  "SegmentStart \<Rightarrow> HostMicros \<Rightarrow> SessionFsm \<Rightarrow> ResumeLedger \<Rightarrow> SessionFsm \<times> ResumeLedger \<times> SessionEvent list" where
  "open_segment ss host_rx fsm ledger =
     (let (is_resume, ledger') =
            (case fsm_pod_id fsm of Some pod \<Rightarrow> take_resume pod (ss_segment_id ss) ledger | None \<Rightarrow> (False, ledger))
      in (fsm\<lparr>fsm_state := FsmInSegment
                \<lparr>sgs_segment_id = ss_segment_id ss, sgs_base_device_ts_us = ss_base_device_ts_us ss,
                 sgs_is_resume = is_resume, sgs_samples_received = 0,
                 sgs_last_index = ss_base_sample_index ss, sgs_last_samples = 0\<rparr>\<rparr>,
          ledger',
          [SegmentOpened (ss_segment_id ss) (ss_base_sample_index ss) (ss_preroll_samples ss)
             (DeviceMicros (ss_base_device_ts_us ss)) is_resume host_rx]))"

definition feed_await_hello :: "StreamFrame \<Rightarrow> HostMicros \<Rightarrow> SessionFsm \<Rightarrow> SessionFsm \<times> SessionEvent list" where
  "feed_await_hello frame host_rx fsm =
     (case frame of
        FHello hello \<Rightarrow>
          if hl_version hello \<noteq> AUDIO_PROTOCOL_VERSION then fsm_fatal (VersionMismatch (hl_version hello)) host_rx fsm
          else if \<not> format_ok fsm hello then fsm_fatal FormatMismatch host_rx fsm
          else (fsm\<lparr>fsm_pod_id := Some (hl_pod_id hello), fsm_state := FsmIdle\<rparr>,
                [HelloAccepted (hl_pod_id hello) host_rx])
      | _ \<Rightarrow> fsm_fatal NotHelloFirst host_rx fsm)"

definition feed_idle ::
  "StreamFrame \<Rightarrow> HostMicros \<Rightarrow> SessionFsm \<Rightarrow> ResumeLedger \<Rightarrow> SessionFsm \<times> ResumeLedger \<times> SessionEvent list" where
  "feed_idle frame host_rx fsm ledger =
     (let violation = (\<lambda>knd. let (fsm', out) = fsm_nonfatal knd host_rx fsm in (fsm', ledger, out)) in
      case frame of
        FHello _ \<Rightarrow> violation HelloAfterHandshake
      | FSegmentStart ss \<Rightarrow> open_segment ss host_rx fsm ledger
      | FAudio _ \<Rightarrow> violation AudioOutsideSegment
      | FTelemetry _ \<Rightarrow>
          (fsm\<lparr>fsm_stats := (fsm_stats fsm)\<lparr>fs_telemetry_outside_segment := fs_telemetry_outside_segment (fsm_stats fsm) + 1\<rparr>\<rparr>,
           ledger, [])
      | FSegmentEnd _ \<Rightarrow> violation SegmentEndWithoutStart
      | FEndOfAudio \<Rightarrow> violation ControlFrameOnUplink
      | FFlushPlayback \<Rightarrow> violation ControlFrameOnUplink)"

definition accept_audio ::
  "AudioFrame \<Rightarrow> HostMicros \<Rightarrow> SegState \<Rightarrow> SessionFsm \<Rightarrow> SessionFsm \<times> SessionEvent list" where
  "accept_audio af host_rx seg fsm =
     (let pcm = decode_pcm (af_pcm af);
          frame_samples = of_nat (length pcm div max (unat (fc_channels (fsm_constraint fsm))) 1);
          got = af_first_sample_index af;
          expected_index = u64_checked_add (sgs_last_index seg) (sgs_last_samples seg);
          gap = (if expected_index = Some got then None
                 else Some \<lparr>gap_expected_index = (case expected_index of Some i \<Rightarrow> i | None \<Rightarrow> - 1), gap_got_index = got\<rparr>);
          seg' = seg\<lparr>sgs_last_index := got, sgs_last_samples := frame_samples,
                     sgs_samples_received := sgs_samples_received seg + frame_samples\<rparr>
      in (fsm\<lparr>fsm_state := FsmInSegment seg'\<rparr>,
          [EvAudio (sgs_segment_id seg) got pcm (DeviceMicros (af_device_ts_us af)) gap host_rx]))"

definition close_completed ::
  "SegmentEnd \<Rightarrow> HostMicros \<Rightarrow> SegState \<Rightarrow> SessionFsm \<Rightarrow> SessionFsm \<times> SessionEvent list" where
  "close_completed se host_rx seg fsm =
     (let cross_check =
            (if sgs_is_resume seg then SkippedResume
             else if se_samples_sent se = sgs_samples_received seg then CcMatch
             else CcMismatch (se_samples_sent se) (sgs_samples_received seg))
      in (fsm\<lparr>fsm_state := FsmIdle\<rparr>,
          [SegmentClosed (sgs_segment_id seg)
             (SegCompleted (se_reason se) (se_frames_sent se) (se_samples_sent se) cross_check) host_rx]))"

text \<open>
  A duplicate SegmentStart truncates the open segment and opens the new one under two acquisitions of the ledger's lock; here
  the two are one step of the connection's task.
\<close>

definition feed_in_segment ::
  "StreamFrame \<Rightarrow> HostMicros \<Rightarrow> SegState \<Rightarrow> SessionFsm \<Rightarrow> ResumeLedger \<Rightarrow>
     SessionFsm \<times> ResumeLedger \<times> SessionEvent list" where
  "feed_in_segment frame host_rx seg fsm ledger =
     (let violation = (\<lambda>knd. let (fsm', out) = fsm_nonfatal knd host_rx fsm in (fsm', ledger, out)) in
      case frame of
        FHello _ \<Rightarrow> violation HelloAfterHandshake
      | FSegmentStart ss \<Rightarrow>
          let (fsm1, out1) = fsm_nonfatal DuplicateSegmentStart host_rx fsm;
              (ledger2, out2) = truncate_open_segment ForcedByNewStart host_rx seg fsm1 ledger;
              (fsm3, ledger3, out3) = open_segment ss host_rx (fsm1\<lparr>fsm_state := FsmIdle\<rparr>) ledger2
          in (fsm3, ledger3, out1 @ out2 @ out3)
      | FAudio af \<Rightarrow>
          if length (af_pcm af) mod 2 \<noteq> 0 then violation OddPcmLength
          else let (fsm', out) = accept_audio af host_rx seg fsm in (fsm', ledger, out)
      | FTelemetry t \<Rightarrow>
          (fsm, ledger,
           [EvTelemetry (sgs_segment_id seg)
              (ts_to_sample_offset (tl_device_ts_us t) (sgs_base_device_ts_us seg) (fc_sample_rate_hz (fsm_constraint fsm)))
              (tl_kind t) (DeviceMicros (tl_device_ts_us t)) host_rx])
      | FSegmentEnd se \<Rightarrow> let (fsm', out) = close_completed se host_rx seg fsm in (fsm', ledger, out)
      | FEndOfAudio \<Rightarrow> violation ControlFrameOnUplink
      | FFlushPlayback \<Rightarrow> violation ControlFrameOnUplink)"

definition feed ::
  "StreamFrame \<Rightarrow> HostMicros \<Rightarrow> SessionFsm \<Rightarrow> ResumeLedger \<Rightarrow> SessionFsm \<times> ResumeLedger \<times> SessionEvent list" where
  "feed frame host_rx fsm ledger =
     (case fsm_state fsm of
        FsmDead \<Rightarrow> (fsm, ledger, [])
      | AwaitHello \<Rightarrow> let (fsm', out) = feed_await_hello frame host_rx fsm in (fsm', ledger, out)
      | FsmIdle \<Rightarrow> feed_idle frame host_rx fsm ledger
      | FsmInSegment seg \<Rightarrow> feed_in_segment frame host_rx seg fsm ledger)"

definition fsm_close ::
  "CloseCause \<Rightarrow> HostMicros \<Rightarrow> SessionFsm \<Rightarrow> ResumeLedger \<Rightarrow> SessionFsm \<times> ResumeLedger \<times> SessionEvent list" where
  "fsm_close cause at fsm ledger =
     (let (ledger', out) = (case fsm_state fsm of
                              FsmInSegment seg \<Rightarrow> truncate_open_segment cause at seg fsm ledger
                            | _ \<Rightarrow> (ledger, []))
      in (fsm\<lparr>fsm_state := FsmDead\<rparr>, ledger', out))"

section \<open>The ledger's invariant\<close>

text \<open>
  The two indexes of the ledger agree, neither exceeds its cap, and no pod is kept with nothing
  to resume.
\<close>

definition entry_ok :: "PodEntries \<Rightarrow> bool" where
  "entry_ok entry \<longleftrightarrow> pe_members entry = set (pe_order entry) \<and> distinct (pe_order entry) \<and>
     pe_order entry \<noteq> [] \<and> length (pe_order entry) \<le> PER_POD_CAP"

definition ledger_ok :: "ResumeLedger \<Rightarrow> bool" where
  "ledger_ok l \<longleftrightarrow> distinct (rl_pod_order l) \<and> set (rl_pod_order l) = dom (rl_per_pod l) \<and>
     length (rl_pod_order l) \<le> MAX_PODS \<and> (\<forall>pod entry. rl_per_pod l pod = Some entry \<longrightarrow> entry_ok entry)"

definition resumable :: "ResumeLedger \<Rightarrow> bytes \<Rightarrow> u32 set" where
  "resumable l pod = (case rl_per_pod l pod of Some entry \<Rightarrow> pe_members entry | None \<Rightarrow> {})"

lemma caps_pos: "0 < PER_POD_CAP" "0 < MAX_PODS"
  by (simp_all add: PER_POD_CAP_def MAX_PODS_def)

lemma evict_pods_over_cap_eq:
  assumes "k = length (rl_pod_order l) - MAX_PODS"
  shows "evict_pods_over_cap l =
    l\<lparr>rl_pod_order := drop k (rl_pod_order l), rl_per_pod := rl_per_pod l |` (- set (take k (rl_pod_order l))),
      rl_pod_evictions := rl_pod_evictions l + of_nat k\<rparr>"
  using assms
proof (induction k arbitrary: l)
  case 0
  then show ?case by (subst evict_pods_over_cap.simps) (simp add: restrict_map_def)
next
  case (Suc k)
  then obtain pod rest where o: "rl_pod_order l = pod # rest" "MAX_PODS < length (rl_pod_order l)"
    by (cases "rl_pod_order l") auto
  let ?l = "l\<lparr>rl_pod_order := rest, rl_per_pod := (rl_per_pod l)(pod := None),
    rl_pod_evictions := rl_pod_evictions l + 1\<rparr>"
  have "evict_pods_over_cap l = evict_pods_over_cap ?l"
    using o by (subst evict_pods_over_cap.simps) simp
  also have "\<dots> = ?l\<lparr>rl_pod_order := drop k (rl_pod_order ?l),
      rl_per_pod := rl_per_pod ?l |` (- set (take k (rl_pod_order ?l))),
      rl_pod_evictions := rl_pod_evictions ?l + of_nat k\<rparr>"
    using Suc.prems o by (intro Suc.IH) simp
  finally show ?case using o by (auto simp: restrict_map_def fun_eq_iff)
qed

lemma insert_id_ok:
  assumes "entry_ok entry \<or> entry = \<lparr>pe_members = {}, pe_order = []\<rparr>" "insert_id sid entry = (entry', evicted)"
  shows "entry_ok entry'" "sid \<in> pe_members entry'" "pe_members entry' \<subseteq> insert sid (pe_members entry)"
    "\<not> evicted \<Longrightarrow> pe_members entry' = insert sid (pe_members entry)"
proof -
  have m: "pe_members entry = set (pe_order entry)" "distinct (pe_order entry)" "length (pe_order entry) \<le> PER_POD_CAP"
    using assms(1) by (auto simp: entry_ok_def)
  obtain x xs where o: "pe_order entry @ [sid] = x # xs" by (cases "pe_order entry @ [sid]") auto
  have xs: "sid \<notin> pe_members entry \<Longrightarrow> distinct (x # xs)" "set (x # xs) = insert sid (set (pe_order entry))"
    "length (x # xs) = Suc (length (pe_order entry))"
    using m(1,2) by (simp_all flip: o)
  have big: "PER_POD_CAP < length (x # xs) \<Longrightarrow> xs \<noteq> [] \<and> last xs = sid"
    using o m(3) caps_pos(1) by (cases "pe_order entry") auto
  have same: "sid \<in> pe_members entry \<Longrightarrow> entry_ok entry" using assms(1) by auto
  show "entry_ok entry'" "sid \<in> pe_members entry'" "pe_members entry' \<subseteq> insert sid (pe_members entry)"
    "\<not> evicted \<Longrightarrow> pe_members entry' = insert sid (pe_members entry)"
    using assms(2) same o xs big m
    by (auto simp: insert_id_def entry_ok_def Let_def split: if_splits dest: last_in_set)
qed

lemma ledger_ok_new: "ledger_ok ResumeLedger_new"
  by (simp add: ledger_ok_def ResumeLedger_new_def)

text \<open>The pod a note is about is the last to be evicted, so its note is never lost at once.\<close>

lemma note_truncated_ok:
  assumes ok: "ledger_ok l" and n: "note_truncated pod sid l = l'"
  shows "ledger_ok l'" "sid \<in> resumable l' pod" "resumable l' p \<subseteq> resumable l p \<union> (if p = pod then {sid} else {})"
    "rl_evictions l' = rl_evictions l \<Longrightarrow> rl_pod_evictions l' = rl_pod_evictions l \<Longrightarrow>
       resumable l' p = resumable l p \<union> (if p = pod then {sid} else {})"
proof -
  define entry where "entry = (case rl_per_pod l pod of Some entry \<Rightarrow> entry | None \<Rightarrow> \<lparr>pe_members = {}, pe_order = []\<rparr>)"
  obtain entry' ev where i: "insert_id sid entry = (entry', ev)" by fastforce
  define order where "order = remove1 pod (rl_pod_order l) @ [pod]"
  define k where "k = length order - MAX_PODS"
  define m where "m = (rl_per_pod l)(pod \<mapsto> entry')"
  have l': "rl_pod_order l' = drop k order" "rl_per_pod l' = m |` (- set (take k order))"
    "rl_evictions l' = (if ev then rl_evictions l + 1 else rl_evictions l)"
    "rl_pod_evictions l' = rl_pod_evictions l + of_nat k"
  proof -
    let ?l = "l\<lparr>rl_per_pod := m, rl_evictions := (if ev then rl_evictions l + 1 else rl_evictions l), rl_pod_order := order\<rparr>"
    have "l' = evict_pods_over_cap ?l"
      using n i unfolding note_truncated_def entry_def [symmetric] by (auto simp: touch_pod_def order_def m_def)
    then show "rl_pod_order l' = drop k order" "rl_per_pod l' = m |` (- set (take k order))"
      "rl_evictions l' = (if ev then rl_evictions l + 1 else rl_evictions l)"
      "rl_pod_evictions l' = rl_pod_evictions l + of_nat k"
      by (simp_all add: evict_pods_over_cap_eq [of k ?l] k_def)
  qed
  have e: "entry_ok entry \<or> entry = \<lparr>pe_members = {}, pe_order = []\<rparr>" "pe_members entry = resumable l pod"
    using ok by (auto simp: entry_def ledger_ok_def resumable_def split: option.splits)
  note I = insert_id_ok [OF e(1) i]
  have D: "distinct order" "set order = dom m" "length order \<le> Suc MAX_PODS"
    using ok by (auto simp: order_def m_def ledger_ok_def length_remove1 set_remove1_eq)
  have k1: "k \<le> 1" "length order - k \<le> MAX_PODS" using D(3) by (simp_all add: k_def)
  have pod: "pod \<notin> set (take k order)"
  proof
    assume "pod \<in> set (take k order)"
    then have "remove1 pod (rl_pod_order l) = [] \<and> 0 < k" using k1(1) D(1) unfolding order_def
      by (cases "remove1 pod (rl_pod_order l)"; cases k) auto
    then show False using caps_pos(2) by (auto simp: k_def order_def)
  qed
  have dom: "dom (m |` (- set (take k order))) = set (drop k order)"
  proof -
    have "set order = set (take k order) \<union> set (drop k order)" by (metis append_take_drop_id set_append)
    moreover have "set (take k order) \<inter> set (drop k order) = {}"
      using D(1) by (rule set_take_disj_set_drop_if_distinct) simp
    ultimately show ?thesis unfolding dom_restrict D(2) [symmetric] by blast
  qed
  show "ledger_ok l'" using ok I(1) D(1) k1(2) dom by (auto simp: ledger_ok_def l' m_def restrict_map_def split: if_splits)
  show "sid \<in> resumable l' pod" using I(2) pod by (simp add: resumable_def l' m_def)
  show "resumable l' p \<subseteq> resumable l p \<union> (if p = pod then {sid} else {})"
    using I(3) e(2) by (auto simp: resumable_def l' m_def restrict_map_def split: option.splits if_splits)
  assume "rl_evictions l' = rl_evictions l" "rl_pod_evictions l' = rl_pod_evictions l"
  then have "\<not> ev" "k = 0" using k1(1) by (auto simp: l' le_Suc_eq split: if_splits)
  then show "resumable l' p = resumable l p \<union> (if p = pod then {sid} else {})"
    using I(4) e(2) by (auto simp: resumable_def l' m_def split: option.splits)
qed

lemma take_resume_ok:
  assumes ok: "ledger_ok l" and t: "take_resume pod sid l = (found, l')"
  shows "ledger_ok l'" "found \<longleftrightarrow> sid \<in> resumable l pod" "resumable l' p = resumable l p - (if p = pod then {sid} else {})"
proof -
  have e: "entry_ok entry" if "rl_per_pod l q = Some entry" for q entry using ok that by (simp add: ledger_ok_def)
  show "found \<longleftrightarrow> sid \<in> resumable l pod" using t by (auto simp: take_resume_def resumable_def Let_def split: option.splits if_splits)
  show "resumable l' p = resumable l p - (if p = pod then {sid} else {})"
    using t by (auto simp: take_resume_def resumable_def Let_def split: option.splits if_splits)
  have left: "entry_ok \<lparr>pe_members = pe_members entry - {sid}, pe_order = remove1 sid (pe_order entry)\<rparr>"
    if p: "rl_per_pod l q = Some entry" "x \<in> pe_members entry" "x \<noteq> sid" for q entry x
  proof -
    have "x \<in> set (remove1 sid (pe_order entry))" using e [OF p(1)] p(2,3) by (auto simp: entry_ok_def)
    then have "remove1 sid (pe_order entry) \<noteq> []" by auto
    then show ?thesis using e [OF p(1)] by (auto simp: entry_ok_def length_remove1)
  qed
  show "ledger_ok l'"
    using t ok left
    by (auto simp: take_resume_def ledger_ok_def Let_def length_remove1 set_remove1_eq split: option.splits if_splits)
qed

section \<open>Feeding a run of frames\<close>

text \<open>Each frame meets the ledger as the connections have left it by then.\<close>

fun feed_all ::
  "(StreamFrame \<times> HostMicros \<times> ResumeLedger) list \<Rightarrow> SessionFsm \<Rightarrow> SessionFsm \<times> SessionEvent list" where
  "feed_all [] fsm = (fsm, [])"
| "feed_all ((frame, host_rx, ledger) # rest) fsm =
     (let (fsm1, _, out1) = feed frame host_rx fsm ledger; (fsm2, out2) = feed_all rest fsm1
      in (fsm2, out1 @ out2))"

lemma feed_all_append:
  "feed_all (xs @ ys) fsm =
     (let (fsm1, out1) = feed_all xs fsm; (fsm2, out2) = feed_all ys fsm1 in (fsm2, out1 @ out2))"
  by (induction xs fsm rule: feed_all.induct) (simp_all add: Let_def split: prod.splits)

section \<open>The clock estimate\<close>

definition chunk_delay :: "u32 \<Rightarrow> HostMicros \<times> DeviceMicros \<times> u64 \<Rightarrow> int" where
  "chunk_delay rate c =
     (case c of (host_rx, device_ts, samples) \<Rightarrow>
        i64_saturate (i64_saturate (as_i64 (hm_us host_rx) - as_i64 (dm_us device_ts)) - as_i64 (samples_to_micros samples rate)))"

lemma i64_saturate_le: "i64_saturate x \<le> 2 ^ 63 - 1"
  by (simp add: i64_saturate_def)

lemma observe_all:
  "ce_d_min (fold (\<lambda>(h, d, n). observe h d n) cs est) = foldl min (ce_d_min est) (map (chunk_delay (ce_sample_rate_hz est)) cs)"
  "ce_sample_rate_hz (fold (\<lambda>(h, d, n). observe h d n) cs est) = ce_sample_rate_hz est"
  by (induction cs arbitrary: est) (auto simp: observe_def chunk_delay_def Let_def)

section \<open>PCM\<close>

lemma decode_pcm_samples: "decode_pcm (concat (map i16_to_le_bytes xs)) = xs"
  by (induction xs) (simp_all add: i16_to_le_bytes_def)

section \<open>The automaton's states\<close>

fun violation :: "SessionEvent \<Rightarrow> bool" where
  "violation (ProtocolError _ fatal _) \<longleftrightarrow> \<not> fatal"
| "violation _ \<longleftrightarrow> False"

fun parking :: "SessionEvent \<Rightarrow> bool" where
  "parking (ProtocolError _ fatal _) \<longleftrightarrow> fatal"
| "parking _ \<longleftrightarrow> False"

fun labelled :: "SessionEvent \<Rightarrow> bool" where
  "labelled (ProtocolError knd fatal _) \<longleftrightarrow> fatal = is_fatal knd"
| "labelled _ \<longleftrightarrow> True"

text \<open>What the automaton is after it has emitted \<open>out\<close>.\<close>

definition fsm_ok :: "SessionFsm \<Rightarrow> SessionEvent list \<Rightarrow> bool" where
  "fsm_ok fsm out \<longleftrightarrow>
     (case fsm_state fsm of
        AwaitHello \<Rightarrow> out = [] \<and> fsm_pod_id fsm = None
      | FsmIdle \<Rightarrow> fsm_pod_id fsm \<noteq> None \<and> \<not> list_ex parking out
      | FsmInSegment seg \<Rightarrow> fsm_pod_id fsm \<noteq> None \<and> \<not> list_ex parking out
      | FsmDead \<Rightarrow> fsm_pod_id fsm = None \<and> list_ex parking out) \<and>
     list_all labelled out \<and> fs_nonfatal_violations (fsm_stats fsm) = of_nat (length (filter violation out))"

lemmas feed_defs = feed_await_hello_def feed_idle_def feed_in_segment_def fsm_fatal_def fsm_nonfatal_def open_segment_def
  truncate_open_segment_def accept_audio_def close_completed_def

lemma feed_fsm_ok:
  assumes "fsm_ok fsm out" "feed frame t fsm l = (fsm', l', out')"
  shows "fsm_ok fsm' (out @ out')"
  using assms
  by (cases "fsm_state fsm"; cases frame)
    (auto simp: feed_def feed_defs fsm_ok_def Let_def split: if_splits prod.splits)

lemma feed_all_ok: "fsm_ok fsm out \<Longrightarrow> feed_all xs fsm = (fsm', out') \<Longrightarrow> fsm_ok fsm' (out @ out')"
proof (induction xs arbitrary: fsm out fsm' out')
  case (Cons x xs)
  obtain frame t l where x: "x = (frame, t, l)" by (cases x)
  obtain fsm1 l1 out1 where f: "feed frame t fsm l = (fsm1, l1, out1)" by (metis prod_cases3)
  obtain fsm2 out2 where g: "feed_all xs fsm1 = (fsm2, out2)" by fastforce
  show ?case using Cons.IH [OF feed_fsm_ok [OF Cons.prems(1) f] g] Cons.prems(2) x f g by simp
qed simp

end
