(* ===== verification/Uplink.thy ===== *)
theory Uplink
  imports Streamer Ingest
begin

text \<open>
  A pod's connection seen from the host: the frame-reading half of \<open>connection\<close> in
  \<^verbatim>\<open>host/crates/speech-surface/src/server.rs\<close>, and what the host hears when the peer is the streamer
  thread of this repository.

  The TLS session, the two cancellation tokens and the deadlines are the environment: a read
  of so many bytes is filled, ends early, fails, elapses, or is cut by a token. Other
  connections share the resume ledger and may change it before every turn. The recorder is
  what it is given to tap; segment assembly, the pipeline queue and the paced
  playback writer are not part of this model.

  The lemmas: a session as the streamer produces it is accepted without gap, mismatch or violation, save for
  segments the pod abandoned, and the audio the host hears is the captured audio.
\<close>

section \<open>What a session yields\<close>

text \<open>
  The events a pod of this repository may cause: audio that continues the previous frame and
  is a stretch of the capture, matching sample counts, and one kind of violation, a segment
  start after a segment the pod abandoned on a kept socket.
\<close>

definition event_ok :: "bytes \<Rightarrow> i16 list \<Rightarrow> SessionEvent \<Rightarrow> bool" where
  "event_ok pid H ev =
     (case ev of
        HelloAccepted pod _ \<Rightarrow> pod = pid
      | EvAudio _ i pcm _ gap _ \<Rightarrow>
          gap = None \<and> (\<exists>c. i = of_nat c \<and> c + length pcm \<le> length H \<and> pcm = take (length pcm) (drop c H))
      | SegmentClosed _ (SegCompleted _ _ _ check) _ \<Rightarrow> check = CcMatch \<or> check = SkippedResume
      | SegmentClosed _ (SegTruncated cause) _ \<Rightarrow> cause = ForcedByNewStart
      | ProtocolError knd fatal _ \<Rightarrow> knd = DuplicateSegmentStart \<and> \<not> fatal
      | _ \<Rightarrow> True)"

fun event_pcm :: "SessionEvent \<Rightarrow> i16 list" where
  "event_pcm (EvAudio _ _ pcm _ _ _) = pcm"
| "event_pcm _ = []"

definition heard_pcm :: "SessionEvent list \<Rightarrow> i16 list" where
  "heard_pcm out = concat (map event_pcm out)"

lemma heard_simps [simp]: "heard_pcm [] = []" "heard_pcm (xs @ ys) = heard_pcm xs @ heard_pcm ys" "heard_pcm (x # xs) = event_pcm x @ heard_pcm xs"
  by (simp_all add: heard_pcm_def)

text \<open>The automaton in a segment whose frames so far end at sample \<open>c\<close> of the capture.\<close>

definition hears :: "u32 \<Rightarrow> nat \<Rightarrow> nat \<Rightarrow> SessionFsm \<Rightarrow> bool" where
  "hears sid c0 c fsm \<longleftrightarrow> fsm_constraint fsm = SPINE_FORMAT \<and>
     (\<exists>seg. fsm_state fsm = FsmInSegment seg \<and> sgs_segment_id seg = sid \<and>
        unat (sgs_last_index seg) + unat (sgs_last_samples seg) = c \<and> sgs_samples_received seg = of_nat (c - c0))"

lemma length_samples_pcm: "c + n \<le> length H \<Longrightarrow> length (samples_pcm H c n) = 2 * n"
proof -
  have "length (concat (map i16_to_le_bytes xs)) = 2 * length xs" for xs by (induction xs) (simp_all add: i16_to_le_bytes_def)
  then show "c + n \<le> length H \<Longrightarrow> length (samples_pcm H c n) = 2 * n" by (simp add: samples_pcm_def)
qed

lemma feed_audio:
  assumes h: "hears sid c0 c fsm" and a: "audio_of sid H c n f" and H: "length H < 2 ^ 64" and c0: "c0 \<le> c"
    and f: "feed f t fsm l = (fsm', l', out)"
  shows "hears sid c0 (c + n) fsm'" "list_all (event_ok pid H) out" "heard_pcm out = decode_pcm (frame_samples f)"
    "fsm_pod_id fsm' = fsm_pod_id fsm"
proof -
  obtain seg where seg: "fsm_state fsm = FsmInSegment seg" "sgs_segment_id seg = sid"
    "unat (sgs_last_index seg) + unat (sgs_last_samples seg) = c" "sgs_samples_received seg = of_nat (c - c0)"
    "fsm_constraint fsm = SPINE_FORMAT" using h unfolding hears_def by blast
  obtain ts where fr: "f = FAudio \<lparr>af_segment_id = sid, af_first_sample_index = of_nat c, af_device_ts_us = ts,
      af_pcm = samples_pcm H c n\<rparr>" and n: "0 < n" "n \<le> AUDIO_SAMPLES_PER_FRAME" "c + n \<le> length H"
    using a unfolding audio_of_def by blast
  have lt: "c < 2 ^ 64" "n < 2 ^ 64" "c + n < 2 ^ 64" using n H by simp_all
  have un: "unat (of_nat c :: u64) = c" "unat (of_nat n :: u64) = n" using lt by (simp_all add: unat_of_nat)
  have next_i: "u64_checked_add (sgs_last_index seg) (sgs_last_samples seg) = Some (of_nat c)"
    using seg(3) lt(1) by (simp add: u64_checked_add_def flip: seg(3))
  have pcm: "decode_pcm (samples_pcm H c n) = take n (drop c H)" "length (samples_pcm H c n) mod 2 = 0"
    using n(3) by (simp_all add: samples_pcm_def [of H c n] decode_pcm_samples length_samples_pcm [OF n(3), unfolded samples_pcm_def])
  have len: "length (take n (drop c H)) = n" using n(3) by simp
  have out: "fsm' = fsm\<lparr>fsm_state := FsmInSegment (seg\<lparr>sgs_last_index := of_nat c, sgs_last_samples := of_nat n,
        sgs_samples_received := of_nat (c - c0) + of_nat n\<rparr>)\<rparr>"
    "out = [EvAudio sid (of_nat c) (take n (drop c H)) (DeviceMicros ts) None t]"
    using f seg(1,2,4,5) fr pcm next_i len
    by (auto simp: feed_def feed_in_segment_def accept_audio_def SPINE_FORMAT_def Let_def)
  show "hears sid c0 (c + n) fsm'"
    using out(1) seg un c0 by (simp add: hears_def)
  show "list_all (event_ok pid H) out" using out(2) n(3) len by (auto simp: event_ok_def)
  show "heard_pcm out = decode_pcm (frame_samples f)" using out(2) fr pcm(1) by simp
  show "fsm_pod_id fsm' = fsm_pod_id fsm" using out(1) by simp
qed

lemma feed_telemetry:
  assumes "hears sid c0 c fsm" "feed (FTelemetry x) t fsm l = (fsm', l', out)"
  shows "fsm' = fsm" "list_all (event_ok pid H) out" "heard_pcm out = []"
  using assms by (auto simp: hears_def feed_def feed_in_segment_def event_ok_def)

lemma decode_pcm_append: "even (length xs) \<Longrightarrow> decode_pcm (xs @ ys) = decode_pcm xs @ decode_pcm ys"
  by (induction xs rule: decode_pcm.induct) auto

lemma seg_frames_even: "seg_frames sid H c0 gs k c \<Longrightarrow> even (length (concat (map frame_samples gs)))"
  by (induction rule: seg_frames.induct) (auto simp: audio_of_def length_samples_pcm)

lemma feed_segment:
  assumes "seg_frames sid H c0 gs k c" "length H < 2 ^ 64" "map fst xs = gs" "hears sid c0 c0 fsm"
    "feed_all xs fsm = (fsm', out)"
  shows "hears sid c0 c fsm' \<and> list_all (event_ok pid H) out \<and> heard_pcm out = decode_pcm (concat (map frame_samples gs)) \<and>
    fsm_pod_id fsm' = fsm_pod_id fsm"
  using assms
proof (induction arbitrary: xs fsm' out rule: seg_frames.induct)
  case none
  then show ?case by simp
next
  case (audio gs k c n f)
  obtain ys t l where xs: "xs = ys @ [(f, t, l)]" "map fst ys = gs" using audio.prems(2) by (auto simp: map_eq_append_conv)
  obtain fsm1 out1 where ys: "feed_all ys fsm = (fsm1, out1)" by fastforce
  obtain fsm2 l2 out2 where f: "feed f t fsm1 l = (fsm2, l2, out2)" by (metis prod_cases3)
  note IH = audio.IH [OF audio.prems(1) xs(2) audio.prems(3) ys]
  note F = feed_audio [OF conjunct1 [OF IH] audio.hyps(2) audio.prems(1) seg_frames_ge [OF audio.hyps(1)] f]
  show ?case
    using audio.prems(4) xs(1) ys f IH F seg_frames_even [OF audio.hyps(1)]
    by (auto simp: feed_all_append decode_pcm_append)
next
  case (telemetry gs k c x)
  obtain ys t l where xs: "xs = ys @ [(FTelemetry x, t, l)]" "map fst ys = gs"
    using telemetry.prems(2) by (auto simp: map_eq_append_conv)
  obtain fsm1 out1 where ys: "feed_all ys fsm = (fsm1, out1)" by fastforce
  obtain fsm2 l2 out2 where f: "feed (FTelemetry x) t fsm1 l = (fsm2, l2, out2)" by (metis prod_cases3)
  note IH = telemetry.IH [OF telemetry.prems(1) xs(2) telemetry.prems(3) ys]
  show ?case
    using telemetry.prems(4) xs(1) ys f IH feed_telemetry [OF conjunct1 [OF IH] f] by (auto simp: feed_all_append)
qed

text \<open>After the handshake, in a segment or between two.\<close>

definition welcomed :: "SessionFsm \<Rightarrow> bool" where
  "welcomed fsm \<longleftrightarrow> fsm_constraint fsm = SPINE_FORMAT \<and>
     (case fsm_state fsm of FsmIdle \<Rightarrow> True | FsmInSegment _ \<Rightarrow> True | _ \<Rightarrow> False)"

lemma hears_welcomed: "hears sid c0 c fsm \<Longrightarrow> welcomed fsm"
  by (auto simp: hears_def welcomed_def)

lemma feed_start:
  assumes "welcomed fsm" "ss_base_sample_index ss = of_nat c0" "c0 < 2 ^ 64"
    "feed (FSegmentStart ss) t fsm l = (fsm', l', out)"
  shows "hears (ss_segment_id ss) c0 c0 fsm'" "list_all (event_ok pid H) out" "heard_pcm out = []" "fsm_pod_id fsm' = fsm_pod_id fsm"
  using assms
  by (auto simp: welcomed_def hears_def feed_def feed_idle_def feed_in_segment_def open_segment_def fsm_nonfatal_def
      truncate_open_segment_def event_ok_def unat_of_nat Let_def split: FsmState.splits prod.splits option.splits)

lemma feed_end:
  assumes "hears sid c0 c fsm" "feed (end_frame sid ts k (c - c0) reason) t fsm l = (fsm', l', out)"
  shows "welcomed fsm'" "list_all (event_ok pid H) out" "heard_pcm out = []" "fsm_pod_id fsm' = fsm_pod_id fsm"
  using assms
  by (auto simp: welcomed_def hears_def feed_def feed_in_segment_def close_completed_def end_frame_def event_ok_def)

lemma feed_hello:
  assumes "pid = (if length pod_id \<le> 32 then pod_id else [])"
    and "feed (hello_frame pod_id) t (SessionFsm_new SPINE_FORMAT) l = (fsm', l', out)"
  shows "welcomed fsm'" "list_all (event_ok pid H) out" "heard_pcm out = []"
    "fsm_pod_id fsm' = Some pid"
  using assms
  by (auto simp: welcomed_def feed_def feed_await_hello_def hello_frame_def SessionFsm_new_def format_ok_def
      SPINE_FORMAT_def DEVICE_PLAYBACK_FORMAT_def event_ok_def)

lemma feed_session:
  assumes pid: "pid = (if length pod_id \<le> 32 then pod_id else [])"
    and "session (hello_frame pod_id) H fs" "length H < 2 ^ 64" "map fst xs = fs"
    "feed_all xs (SessionFsm_new SPINE_FORMAT) = (fsm', out)"
  shows "welcomed fsm' \<and> list_all (event_ok pid H) out \<and> heard_pcm out = decode_pcm (concat (map frame_samples fs)) \<and>
    fsm_pod_id fsm' = Some pid \<and> even (length (concat (map frame_samples fs)))"
  using assms(2-)
proof (induction arbitrary: xs fsm' out rule: session.induct)
  case hello
  obtain t l where xs: "xs = [(hello_frame pod_id, t, l)]" using hello.prems(2) by auto
  obtain fsm1 l1 out1 where f: "feed (hello_frame pod_id) t (SessionFsm_new SPINE_FORMAT) l = (fsm1, l1, out1)"
    by (metis prod_cases3)
  have "frame_samples (hello_frame pod_id) = []" by (simp add: hello_frame_def)
  then show ?case using hello.prems(3) xs f feed_hello [OF pid f] by simp
next
  case (segment fs start c0 gs k c ending)
  obtain ys t l zs us where xs: "xs = ys @ (FSegmentStart start, t, l) # zs @ us" "map fst ys = fs" "map fst zs = gs" "map fst us = ending"
  proof -
    obtain ys t l vs where "xs = ys @ (FSegmentStart start, t, l) # vs" "map fst ys = fs" "map fst vs = gs @ ending"
      using segment.prems(2) by (auto simp: map_eq_append_conv map_eq_Cons_conv append_eq_map_conv)
    then show ?thesis using that by (auto simp: map_eq_append_conv)
  qed
  obtain fsm1 out1 where ys: "feed_all ys (SessionFsm_new SPINE_FORMAT) = (fsm1, out1)" by fastforce
  obtain fsm2 l2 out2 where st: "feed (FSegmentStart start) t fsm1 l = (fsm2, l2, out2)" by (metis prod_cases3)
  obtain fsm3 out3 where zs: "feed_all zs fsm2 = (fsm3, out3)" by fastforce
  obtain fsm4 out4 where us: "feed_all us fsm3 = (fsm4, out4)" by fastforce
  have c0: "c0 < 2 ^ 64" using segment.hyps(4) segment.prems(1) by simp
  note IH = segment.IH [OF segment.prems(1) xs(2) ys]
  note S = feed_start [OF conjunct1 [OF IH] segment.hyps(3) c0 st]
  note G = feed_segment [OF segment.hyps(2) segment.prems(1) xs(3) S(1) zs]
  have E: "welcomed fsm4" "list_all (event_ok pid H) out4" "heard_pcm out4 = []" "fsm_pod_id fsm4 = fsm_pod_id fsm3"
    "concat (map frame_samples ending) = []"
  proof -
    have "us = [] \<and> ending = [] \<or> (\<exists>u m ts reason. us = [(end_frame (ss_segment_id start) ts k (c - c0) reason, u, m)] \<and>
        ending = [end_frame (ss_segment_id start) ts k (c - c0) reason])"
      using segment.hyps(5) xs(4) by (auto simp: map_eq_Cons_conv)
    then show "welcomed fsm4" "list_all (event_ok pid H) out4" "heard_pcm out4 = []" "fsm_pod_id fsm4 = fsm_pod_id fsm3"
      "concat (map frame_samples ending) = []"
      using us G hears_welcomed [of "ss_segment_id start" c0 c fsm3] feed_end [of "ss_segment_id start" c0 c fsm3]
      by (auto simp: end_frame_def split: prod.splits)
  qed
  show ?case
    using segment.prems(3) xs(1) ys st zs us IH S G E(1-4) seg_frames_even [OF segment.hyps(2)]
    by (auto simp: feed_all_append decode_pcm_append E(5))
qed

section \<open>The connection's read loop\<close>

text \<open>
  \<open>ce_read_exact armed n\<close> is \<open>select!\<close> over the two tokens and \<open>read_exact\<close> of \<open>n\<close> bytes, under a
  deadline when \<open>armed\<close>. \<open>ce_await_superseded pod\<close> registers the connection for \<open>pod\<close> and, when it replaces a live
  one, waits for that one's close; \<open>False\<close> when it is itself superseded meanwhile.
\<close>

datatype exact_read = Filled bytes | ExactEof | ExactFailed | Elapsed | CutShutdown | CutSuperseded

record 'e conn_env =
  ce_read_exact :: "bool \<Rightarrow> nat \<Rightarrow> 'e \<Rightarrow> exact_read \<times> 'e"
  ce_now :: "'e \<Rightarrow> HostMicros \<times> 'e"
  ce_await_superseded :: "bytes \<Rightarrow> 'e \<Rightarrow> bool \<times> 'e"
  ce_others :: "ResumeLedger \<Rightarrow> 'e \<Rightarrow> ResumeLedger \<times> 'e"

record conn =
  cn_fsm :: SessionFsm
  cn_registered_pod :: "bytes option"
  cn_tapped :: "(HostMicros \<times> bytes) list"
  cn_events :: "SessionEvent list"

datatype conn_result = Reading conn | ConnClosed CloseCause bool conn

definition conn_open :: conn where
  "conn_open = \<lparr>cn_fsm = SessionFsm_new SPINE_FORMAT, cn_registered_pod = None, cn_tapped = [], cn_events = []\<rparr>"

definition conn_finish ::
  "'e conn_env \<Rightarrow> CloseCause \<Rightarrow> bool \<Rightarrow> conn \<Rightarrow> ResumeLedger \<Rightarrow> 'e \<Rightarrow> conn_result \<times> ResumeLedger \<times> 'e" where
  "conn_finish env close_cause fatal_close c ledger e =
     (let (at, e1) = ce_now env e; (fsm, ledger', out) = fsm_close close_cause at (cn_fsm c) ledger
      in (ConnClosed close_cause fatal_close (c\<lparr>cn_fsm := fsm, cn_events := cn_events c @ out\<rparr>), ledger', e1))"

text \<open>The pass over the events of one feed: \<open>Some (cause, fatal)\<close> to leave the loop.\<close>

fun conn_scan ::
  "'e conn_env \<Rightarrow> bytes \<Rightarrow> SessionEvent list \<Rightarrow> bool \<Rightarrow> conn \<Rightarrow> 'e \<Rightarrow> (CloseCause \<times> bool) option \<times> conn \<times> 'e" where
  "conn_scan env auth [] fatal c e = ((if fatal then Some (Eof, True) else None), c, e)"
| "conn_scan env auth (ev # evs) fatal c e =
     (case ev of
        HelloAccepted pod _ \<Rightarrow>
          if pod \<noteq> auth then (Some (Eof, True), c, e)
          else
            let c1 = c\<lparr>cn_registered_pod := Some pod\<rparr>; (finished, e1) = ce_await_superseded env pod e
            in if finished then conn_scan env auth evs fatal c1 e1 else (Some (Superseded, False), c1, e1)
      | ProtocolError _ f _ \<Rightarrow> conn_scan env auth evs (fatal \<or> f) c e
      | _ \<Rightarrow> conn_scan env auth evs fatal c e)"

definition conn_frame ::
  "postcard \<Rightarrow> 'e conn_env \<Rightarrow> bytes \<Rightarrow> bytes \<Rightarrow> conn \<Rightarrow> ResumeLedger \<Rightarrow> 'e \<Rightarrow> conn_result \<times> ResumeLedger \<times> 'e" where
  "conn_frame pc env auth frame_bytes c ledger e =
     (let (host_rx, e1) = ce_now env e; c1 = c\<lparr>cn_tapped := cn_tapped c @ [(host_rx, frame_bytes)]\<rparr> in
      case decode_frame pc frame_bytes of
        Inl _ \<Rightarrow> conn_finish env CcDecodeError False c1 ledger e1
      | Inr frame \<Rightarrow>
          let (fsm, ledger1, out) = feed frame host_rx (cn_fsm c1) ledger;
              (leave, c2, e2) = conn_scan env auth out False (c1\<lparr>cn_fsm := fsm, cn_events := cn_events c1 @ out\<rparr>) e1
          in (case leave of
                None \<Rightarrow> (Reading c2, ledger1, e2)
              | Some (cause, fatal) \<Rightarrow> conn_finish env cause fatal c2 ledger1 e2))"

definition conn_turn ::
  "postcard \<Rightarrow> 'e conn_env \<Rightarrow> bytes \<Rightarrow> conn \<Rightarrow> ResumeLedger \<Rightarrow> 'e \<Rightarrow> conn_result \<times> ResumeLedger \<times> 'e" where
  "conn_turn pc env auth c ledger e =
     (case ce_read_exact env (cn_registered_pod c = None) 2 e of
        (CutShutdown, e1) \<Rightarrow> conn_finish env Shutdown False c ledger e1
      | (CutSuperseded, e1) \<Rightarrow> conn_finish env Superseded False c ledger e1
      | (Elapsed, e1) \<Rightarrow> conn_finish env ReadError False c ledger e1
      | (ExactEof, e1) \<Rightarrow> conn_finish env Eof False c ledger e1
      | (ExactFailed, e1) \<Rightarrow> conn_finish env ReadError False c ledger e1
      | (Filled len_bytes, e1) \<Rightarrow>
          let payload_len = unat (u16_from_le_bytes (len_bytes ! 0) (len_bytes ! 1)) in
          if payload_len = 0 \<or> MAX_FRAME_BYTES < payload_len then conn_finish env ReadError False c ledger e1
          else
            (case ce_read_exact env True payload_len e1 of
               (CutShutdown, e2) \<Rightarrow> conn_finish env Shutdown False c ledger e2
             | (CutSuperseded, e2) \<Rightarrow> conn_finish env Superseded False c ledger e2
             | (Filled payload, e2) \<Rightarrow> conn_frame pc env auth (len_bytes @ payload) c ledger e2
             | (_, e2) \<Rightarrow> conn_finish env ReadError False c ledger e2))"

fun conn_step ::
  "postcard \<Rightarrow> 'e conn_env \<Rightarrow> bytes \<Rightarrow> conn_result \<times> ResumeLedger \<times> 'e \<Rightarrow> conn_result \<times> ResumeLedger \<times> 'e" where
  "conn_step pc env auth (Reading c, ledger, e) =
     (let (ledger1, e1) = ce_others env ledger e in conn_turn pc env auth c ledger1 e1)"
| "conn_step pc env auth (ConnClosed cause fatal c, ledger, e) = (ConnClosed cause fatal c, ledger, e)"

text \<open>The first \<open>n\<close> turns of the read loop of \<open>connection\<close>.\<close>

definition connection ::
  "postcard \<Rightarrow> 'e conn_env \<Rightarrow> bytes \<Rightarrow> nat \<Rightarrow> ResumeLedger \<Rightarrow> 'e \<Rightarrow> conn_result \<times> ResumeLedger \<times> 'e" where
  "connection pc env auth n ledger e = (conn_step pc env auth ^^ n) (Reading conn_open, ledger, e)"
section \<open>What the loop has fed\<close>

text \<open>\<open>got\<close>: the bytes the connection has consumed from the socket.\<close>

definition conn_env_ok :: "'e conn_env \<Rightarrow> ('e \<Rightarrow> bytes) \<Rightarrow> bool" where
  "conn_env_ok env got \<longleftrightarrow>
     (\<forall>b n e r e'. ce_read_exact env b n e = (r, e') \<longrightarrow>
        (case r of Filled bs \<Rightarrow> length bs = n \<and> got e' = got e @ bs | _ \<Rightarrow> prefix (got e) (got e'))) \<and>
     (\<forall>e t e'. ce_now env e = (t, e') \<longrightarrow> got e' = got e) \<and>
     (\<forall>p e b e'. ce_await_superseded env p e = (b, e') \<longrightarrow> got e' = got e) \<and>
     (\<forall>l e l' e'. ce_others env l e = (l', e') \<longrightarrow> got e' = got e)"

lemma conn_env_okD:
  assumes "conn_env_ok env got"
  shows "ce_read_exact env b n e = (Filled bs, e') \<Longrightarrow> length bs = n \<and> got e' = got e @ bs"
    "ce_read_exact env b n e = (r, e') \<Longrightarrow> prefix (got e) (got e')"
    "ce_now env e = (t, e') \<Longrightarrow> got e' = got e"
    "ce_await_superseded env p e = (w, e') \<Longrightarrow> got e' = got e"
    "ce_others env l e = (l', e') \<Longrightarrow> got e' = got e"
proof -
  have r: "case r of Filled bs \<Rightarrow> length bs = n \<and> got e' = got e @ bs | _ \<Rightarrow> prefix (got e) (got e')"
    if "ce_read_exact env b n e = (r, e')" for b n e r e' using assms that unfolding conn_env_ok_def by blast
  show "ce_read_exact env b n e = (Filled bs, e') \<Longrightarrow> length bs = n \<and> got e' = got e @ bs" using r by fastforce
  show "ce_read_exact env b n e = (r, e') \<Longrightarrow> prefix (got e) (got e')" using r [of b n e r e'] by (cases r) auto
  show "ce_now env e = (t, e') \<Longrightarrow> got e' = got e" "ce_await_superseded env p e = (w, e') \<Longrightarrow> got e' = got e"
    "ce_others env l e = (l', e') \<Longrightarrow> got e' = got e"
    using assms unfolding conn_env_ok_def by blast+
qed

definition sendable :: "postcard \<Rightarrow> StreamFrame \<Rightarrow> bool" where
  "sendable pc f \<longleftrightarrow> frame_fits f \<and> length (pc_to_vec pc f) \<le> MAX_FRAME_BYTES"

text \<open>A length prefix and as many bytes, taken from the front of framed output, are its first frame.\<close>

lemma take_first_frame:
  assumes "prefix (len_bytes @ payload) (wire_frame pc g @ rest)" "length len_bytes = 2"
    "length payload = unat (u16_from_le_bytes (len_bytes ! 0) (len_bytes ! 1))" "length (pc_to_vec pc g) \<le> MAX_FRAME_BYTES"
  shows "len_bytes @ payload = wire_frame pc g"
proof -
  obtain a b where ab: "len_bytes = [a, b]" using assms(2) by (cases len_bytes; cases "tl len_bytes") auto
  have "unat (u16_from_le_bytes a b) = prefix_len (wire_frame pc g @ [])"
    using assms(1) ab by (auto simp: prefix_len_def prefix_def wire_frame_def)
  then have "length (len_bytes @ payload) = length (wire_frame pc g)"
    using wire_frame_head(2) [OF assms(4), of "[]"] assms(3) ab by simp
  moreover obtain zs where "wire_frame pc g @ rest = (len_bytes @ payload) @ zs" using assms(1) by (auto simp: prefix_def)
  ultimately show ?thesis by (metis append_eq_append_conv)
qed

lemma next_frame:
  assumes gs: "prefix gs fs" and fs: "\<forall>f \<in> set fs. sendable pc f" and part: "sendable pc f" "m < length (wire_frame pc f)"
    and p: "prefix (wire_frames pc gs @ len_bytes @ payload) (wire_frames pc fs @ take m (wire_frame pc f))"
    and len: "length len_bytes = 2" "length payload = unat (u16_from_le_bytes (len_bytes ! 0) (len_bytes ! 1))"
  obtains g where "len_bytes @ payload = wire_frame pc g" "prefix (gs @ [g]) fs"
proof -
  obtain hs where hs: "fs = gs @ hs" using gs by (auto simp: prefix_def)
  have p1: "prefix (len_bytes @ payload) (wire_frames pc hs @ take m (wire_frame pc f))" using p hs by simp
  show ?thesis
  proof (cases hs)
    case Nil
    have "prefix (take m (wire_frame pc f)) (wire_frame pc f)" by (rule take_is_prefix)
    then have "prefix (len_bytes @ payload) (wire_frame pc f @ [])"
      using p1 Nil prefix_order.trans [of "len_bytes @ payload"] by auto
    from take_first_frame [OF this len] part prefix_length_le [OF p1] Nil show ?thesis by (simp add: sendable_def)
  next
    case (Cons g hs')
    then have "prefix (len_bytes @ payload) (wire_frame pc g @ wire_frames pc hs' @ take m (wire_frame pc f))"
      using p1 by (simp add: wire_frames_def)
    moreover have "length (pc_to_vec pc g) \<le> MAX_FRAME_BYTES" using fs hs Cons by (simp add: sendable_def)
    ultimately show ?thesis using that take_first_frame [OF _ len] hs Cons by auto
  qed
qed

lemma decode_wire_frame: "postcard_ok pc \<Longrightarrow> sendable pc f \<Longrightarrow> decode_frame pc (wire_frame pc f) = Inr f"
  using wire_frame_head(3) [of pc f] postcard_okD(4) [of pc f] by (simp add: sendable_def decode_frame_def)

lemma conn_scan_ok:
  assumes "conn_env_ok env got"
  shows "list_all (event_ok auth H) out \<Longrightarrow> conn_scan env auth out False c e = (leave, c', e') \<Longrightarrow>
    (leave = None \<or> leave = Some (Superseded, False)) \<and> cn_fsm c' = cn_fsm c \<and> cn_events c' = cn_events c \<and> got e' = got e"
proof (induction out arbitrary: c e)
  case (Cons ev out)
  obtain w e1 where w: "ce_await_superseded env auth e = (w, e1)" by fastforce
  note got = conn_env_okD(4) [OF assms w]
  show ?case
    using Cons w got by (cases ev) (auto simp: event_ok_def Let_def split: if_splits)
qed simp
fun conn_ok :: "postcard \<Rightarrow> StreamFrame list \<Rightarrow> ('e \<Rightarrow> bytes) \<Rightarrow> conn_result \<times> ResumeLedger \<times> 'e \<Rightarrow> bool" where
  "conn_ok pc fs got (Reading c, l, e) =
     (\<exists>xs. prefix (map fst xs) fs \<and> got e = wire_frames pc (map fst xs) \<and>
        feed_all xs (SessionFsm_new SPINE_FORMAT) = (cn_fsm c, cn_events c))"
| "conn_ok pc fs got (ConnClosed cause fatal c, l, e) =
     (\<not> fatal \<and> cause \<noteq> CcDecodeError \<and>
      (\<exists>xs fsm out closing. prefix (map fst xs) fs \<and> feed_all xs (SessionFsm_new SPINE_FORMAT) = (fsm, out) \<and>
         cn_events c = out @ closing \<and> (closing = [] \<or> (\<exists>sid t. closing = [SegmentClosed sid (SegTruncated cause) t]))))"

lemma fed_prefix_ok:
  assumes "session (hello_frame pod_id) H fs" "length H < 2 ^ 64" "pid = (if length pod_id \<le> 32 then pod_id else [])"
    "prefix (map fst xs) fs" "feed_all xs (SessionFsm_new SPINE_FORMAT) = (fsm, out)"
  shows "list_all (event_ok pid H) out" "prefix (heard_pcm out) (decode_pcm (concat (map frame_samples fs)))"
    "map fst xs = fs \<Longrightarrow> heard_pcm out = decode_pcm (concat (map frame_samples fs))"
proof -
  obtain hs where hs: "fs = map fst xs @ hs" using assms(4) by (auto simp: prefix_def)
  define ys where "ys = xs @ map (\<lambda>h. (h, HostMicros 0, ResumeLedger_new)) hs"
  have ys: "map fst ys = fs" by (simp add: ys_def hs comp_def)
  obtain fsm2 out2 where y: "feed_all ys (SessionFsm_new SPINE_FORMAT) = (fsm2, out @ out2)"
    using assms(5) that by (cases "feed_all (map (\<lambda>h. (h, HostMicros 0, ResumeLedger_new)) hs) fsm")
      (simp add: ys_def feed_all_append)
  show "list_all (event_ok pid H) out" "prefix (heard_pcm out) (decode_pcm (concat (map frame_samples fs)))"
    using feed_session [OF assms(3,1,2) ys y] by (simp_all, metis heard_simps(2) prefixI)
  show "map fst xs = fs \<Longrightarrow> heard_pcm out = decode_pcm (concat (map frame_samples fs))"
    using feed_session [OF assms(3,1,2) _ assms(5)] by simp
qed

lemma conn_finish_ok:
  assumes "prefix (map fst xs) fs" "feed_all xs (SessionFsm_new SPINE_FORMAT) = (cn_fsm c, cn_events c)" "cause \<noteq> CcDecodeError"
  shows "conn_ok pc fs got (conn_finish env cause False c l e)"
proof -
  obtain t e1 where t: "ce_now env e = (t, e1)" by fastforce
  obtain fsm l' out where f: "fsm_close cause t (cn_fsm c) l = (fsm, l', out)" by (metis prod_cases3)
  have "out = [] \<or> (\<exists>sid t. out = [SegmentClosed sid (SegTruncated cause) t])"
    using f by (auto simp: fsm_close_def truncate_open_segment_def Let_def split: FsmState.splits prod.splits)
  then show ?thesis using assms t f by (fastforce simp: conn_finish_def)
qed

text \<open>What every operation of the environment but a read keeps, the handling of a frame keeps.\<close>

definition conn_keeps :: "'e conn_env \<Rightarrow> ('e \<Rightarrow> 'e \<Rightarrow> bool) \<Rightarrow> bool" where
  "conn_keeps env R \<longleftrightarrow> reflp R \<and> transp R \<and>
     (\<forall>e t e'. ce_now env e = (t, e') \<longrightarrow> R e e') \<and>
     (\<forall>p e b e'. ce_await_superseded env p e = (b, e') \<longrightarrow> R e e') \<and>
     (\<forall>l e l' e'. ce_others env l e = (l', e') \<longrightarrow> R e e')"

lemma conn_keepsD:
  assumes "conn_keeps env R"
  shows "R e e" "R e e1 \<Longrightarrow> R e1 e2 \<Longrightarrow> R e e2" "ce_now env e = (t, e') \<Longrightarrow> R e e'"
    "ce_await_superseded env p e = (w, e') \<Longrightarrow> R e e'" "ce_others env l e = (l', e') \<Longrightarrow> R e e'"
  using assms unfolding conn_keeps_def by (blast dest: reflpD transpD)+

lemma conn_finish_keeps:
  "conn_keeps env R \<Longrightarrow> conn_finish env cause fatal c l e = (r, l', e') \<Longrightarrow> R e e'"
  by (auto simp: conn_finish_def Let_def dest: conn_keepsD(3) split: prod.splits)

lemma conn_scan_keeps:
  assumes K: "conn_keeps env R"
  shows "conn_scan env auth out fatal c e = (leave, c', e') \<Longrightarrow> R e e'"
proof (induction out arbitrary: fatal c e)
  case Nil
  then show ?case using conn_keepsD(1) [OF K] by auto
next
  case (Cons ev out)
  obtain p w e1 where w: "ce_await_superseded env auth e = (w, e1)" by fastforce
  note e1 = conn_keepsD(4) [OF K w]
  show ?case
    using Cons w e1 conn_keepsD(1) [OF K] conn_keepsD(2) [OF K e1]
    by (cases ev) (auto simp: Let_def split: if_splits prod.splits)
qed

lemma conn_frame_keeps:
  assumes K: "conn_keeps env R" and f: "conn_frame pc env auth bs c l e = (r, l', e')"
  shows "R e e'"
proof -
  obtain t e1 where t: "ce_now env e = (t, e1)" by fastforce
  note e1 = conn_keepsD(3) [OF K t]
  have step: "R e e3" if "R e1 e2" "conn_finish env cause fatal c l e2 = (r, l', e3)" for cause fatal c l r l' e2 e3
    by (rule conn_keepsD(2) [OF K conn_keepsD(2) [OF K e1 that(1)] conn_finish_keeps [OF K that(2)]])
  show ?thesis
    using f t step [OF conn_keepsD(1) [OF K]] step [OF conn_scan_keeps [OF K]] conn_keepsD(2) [OF K e1 conn_scan_keeps [OF K]]
    by (auto simp: conn_frame_def Let_def split: sum.splits prod.splits option.splits)
qed

lemma conn_turn_keeps:
  assumes K: "conn_keeps env R" and read: "\<And>b n e r e'. ce_read_exact env b n e = (r, e') \<Longrightarrow> R e e'"
    and t: "conn_turn pc env auth c l e = (r, l', e')"
  shows "R e e'"
proof -
  obtain x e1 where x: "ce_read_exact env (cn_registered_pod c = None) 2 e = (x, e1)" by fastforce
  note e1 = read [OF x]
  have fin: "R e e3" if "R e e2" "conn_finish env cause fatal c l e2 = (r, l', e3)" for cause fatal c l r l' e2 e3
    by (rule conn_keepsD(2) [OF K that(1) conn_finish_keeps [OF K that(2)]])
  show ?thesis
  proof (cases x)
    case (Filled len_bytes)
    obtain y e2 where y: "ce_read_exact env True (unat (u16_from_le_bytes (len_bytes ! 0) (len_bytes ! 1))) e1 = (y, e2)"
      by fastforce
    have e2: "R e e2" by (rule conn_keepsD(2) [OF K e1 read [OF y]])
    show ?thesis
      using t x y Filled fin [OF e1] fin [OF e2] conn_keepsD(2) [OF K e2 conn_frame_keeps [OF K]]
      by (auto simp: conn_turn_def Let_def split: exact_read.splits if_splits)
  qed (use t x fin [OF e1] in \<open>auto simp: conn_turn_def\<close>)
qed

lemma connection_keeps:
  assumes K: "conn_keeps env R" and read: "\<And>b n e r e'. ce_read_exact env b n e = (r, e') \<Longrightarrow> R e e'"
  shows "connection pc env auth n l e = (r, l', e') \<Longrightarrow> R e e'"
proof (induction n arbitrary: r l' e')
  case 0
  then show ?case using conn_keepsD(1) [OF K] by (simp add: connection_def)
next
  case (Suc n)
  obtain r1 l1 e1 where run: "connection pc env auth n l e = (r1, l1, e1)" by (metis prod_cases3)
  note e1 = Suc.IH [OF run]
  have step: "conn_step pc env auth (r1, l1, e1) = (r, l', e')" using Suc.prems run by (simp add: connection_def)
  show ?case
  proof (cases r1)
    case (Reading c)
    obtain l2 e2 where o: "ce_others env l1 e1 = (l2, e2)" by fastforce
    have "R e e2" by (rule conn_keepsD(2) [OF K e1 conn_keepsD(5) [OF K o]])
    then show ?thesis using conn_keepsD(2) [OF K _ conn_turn_keeps [OF K read]] step Reading o by auto
  qed (use step e1 in auto)
qed

lemma got_kept:
  assumes "conn_env_ok env got"
  shows "conn_keeps env (\<lambda>e e'. got e' = got e)" "conn_keeps env (\<lambda>e e'. prefix (got e) (got e'))"
  using conn_env_okD(3-5) [OF assms] unfolding conn_keeps_def
  by (auto simp: reflp_def transp_def intro: prefix_order.trans)

lemma conn_turn_got:
  assumes "conn_env_ok env got" "conn_turn pc env auth c l e = (r, l', e')"
  shows "prefix (got e) (got e')"
  by (rule conn_turn_keeps [OF got_kept(2) [OF assms(1)] conn_env_okD(2) [OF assms(1)] assms(2)])

lemma conn_frame_ok:
  assumes env: "conn_env_ok env got" and pc: "postcard_ok pc" "sendable pc g"
    and ses: "session (hello_frame pod_id) H fs" "length H < 2 ^ 64" "auth = (if length pod_id \<le> 32 then pod_id else [])"
    and xs: "prefix (map fst xs @ [g]) fs" "feed_all xs (SessionFsm_new SPINE_FORMAT) = (cn_fsm c, cn_events c)"
    and got: "got e = wire_frames pc (map fst xs @ [g])"
  shows "conn_ok pc fs got (conn_frame pc env auth (wire_frame pc g) c l e)"
proof -
  obtain t e1 where t: "ce_now env e = (t, e1)" by fastforce
  obtain fsm l1 out where f: "feed g t (cn_fsm c) l = (fsm, l1, out)" by (metis prod_cases3)
  define c1 where "c1 = c\<lparr>cn_tapped := cn_tapped c @ [(t, wire_frame pc g)], cn_fsm := fsm, cn_events := cn_events c @ out\<rparr>"
  obtain leave c2 e2 where s: "conn_scan env auth out False c1 e1 = (leave, c2, e2)" by (metis prod_cases3)
  define ys where "ys = xs @ [(g, t, l)]"
  have ys: "prefix (map fst ys) fs" "feed_all ys (SessionFsm_new SPINE_FORMAT) = (fsm, cn_events c @ out)"
    using xs f by (simp_all add: ys_def feed_all_append)
  have "list_all (event_ok auth H) out" using fed_prefix_ok(1) [OF ses ys] by simp
  note S = conn_scan_ok [OF env this s]
  have step: "conn_frame pc env auth (wire_frame pc g) c l e =
      (case leave of None \<Rightarrow> (Reading c2, l1, e2) | Some (cause, fatal) \<Rightarrow> conn_finish env cause fatal c2 l1 e2)"
    using t f s decode_wire_frame [OF pc] by (simp add: conn_frame_def c1_def)
  have c2: "feed_all ys (SessionFsm_new SPINE_FORMAT) = (cn_fsm c2, cn_events c2)" "got e2 = wire_frames pc (map fst ys)"
    using ys(2) S got conn_env_okD(3) [OF env t] by (simp_all add: c1_def ys_def)
  show "conn_ok pc fs got (conn_frame pc env auth (wire_frame pc g) c l e)"
  proof (cases leave)
    case None
    have "\<exists>xs. prefix (map fst xs) fs \<and> got e2 = wire_frames pc (map fst xs) \<and>
        feed_all xs (SessionFsm_new SPINE_FORMAT) = (cn_fsm c2, cn_events c2)"
      by (rule exI [of _ ys]) (use ys(1) c2 in simp)
    then show ?thesis using None step by simp
  qed (use S step conn_finish_ok [OF ys(1) c2(1), of Superseded] in auto)
qed
lemma conn_turn_ok:
  assumes env: "conn_env_ok env got" and pc: "postcard_ok pc"
    and ses: "session (hello_frame pod_id) H fs" "length H < 2 ^ 64" "auth = (if length pod_id \<le> 32 then pod_id else [])"
    and fs: "\<forall>f \<in> set fs. sendable pc f" and part: "sendable pc f" "m < length (wire_frame pc f)"
    and inv: "conn_ok pc fs got (Reading c, l0, e)" and t: "conn_turn pc env auth c l e = (r, l', e')"
    and S: "prefix (got e') (wire_frames pc fs @ take m (wire_frame pc f))"
  shows "conn_ok pc fs got (r, l', e')"
proof -
  obtain xs where xs: "prefix (map fst xs) fs" "got e = wire_frames pc (map fst xs)"
    "feed_all xs (SessionFsm_new SPINE_FORMAT) = (cn_fsm c, cn_events c)" using inv by auto
  note fin = conn_finish_ok [OF xs(1,3), of _ pc got env l]
  obtain x e1 where x: "ce_read_exact env (cn_registered_pod c = None) 2 e = (x, e1)" by fastforce
  show ?thesis
  proof (cases x)
    case (Filled len_bytes)
    let ?n = "unat (u16_from_le_bytes (len_bytes ! 0) (len_bytes ! 1))"
    note len = conn_env_okD(1) [OF env x [unfolded Filled]]
    obtain y e2 where y: "ce_read_exact env True ?n e1 = (y, e2)" by fastforce
    show ?thesis
    proof (cases "\<exists>payload. y = Filled payload \<and> \<not> (?n = 0 \<or> MAX_FRAME_BYTES < ?n)")
      case True
      then obtain payload where pl: "y = Filled payload" by blast
      note P = conn_env_okD(1) [OF env y [unfolded pl]]
      have turn: "conn_frame pc env auth (len_bytes @ payload) c l e2 = (r, l', e')"
        using t x y Filled pl True by (simp add: conn_turn_def)
      have "got e2 = wire_frames pc (map fst xs) @ len_bytes @ payload" using xs(2) len P by simp
      moreover have "got e' = got e2" by (rule conn_frame_keeps [OF got_kept(1) [OF env] turn])
      ultimately obtain g where g: "len_bytes @ payload = wire_frame pc g" "prefix (map fst xs @ [g]) fs"
        using next_frame [OF xs(1) fs part] S len P by metis
      have "g \<in> set fs" using g(2) by (auto simp: prefix_def)
      then have "sendable pc g" using fs by blast
      from conn_frame_ok [OF env pc this ses g(2) xs(3), of e2 l] turn g(1) xs(2) len P show ?thesis by simp
    next
      case False
      then have "conn_ok pc fs got (conn_turn pc env auth c l e)"
        using x y Filled fin by (auto simp: conn_turn_def Let_def simp del: conn_ok.simps split: exact_read.splits)
      then show ?thesis by (simp only: t)
    qed
  qed (use x fin in \<open>simp_all add: conn_turn_def del: conn_ok.simps flip: t\<close>)
qed

lemma connection_ok:
  assumes env: "conn_env_ok env got" and pc: "postcard_ok pc"
    and ses: "session (hello_frame pod_id) H fs" "length H < 2 ^ 64" "auth = (if length pod_id \<le> 32 then pod_id else [])"
    and fs: "\<forall>f \<in> set fs. sendable pc f" and part: "sendable pc f" "m < length (wire_frame pc f)" and e: "got e = []"
  shows "connection pc env auth n l e = (r, l', e') \<Longrightarrow>
    prefix (got e') (wire_frames pc fs @ take m (wire_frame pc f)) \<Longrightarrow> conn_ok pc fs got (r, l', e')"
proof (induction n arbitrary: r l' e')
  case 0
  have "\<exists>xs. prefix (map fst xs) fs \<and> [] = wire_frames pc (map fst xs) \<and>
      feed_all xs (SessionFsm_new SPINE_FORMAT) = (SessionFsm_new SPINE_FORMAT, [])" by (rule exI [of _ "[]"]) simp
  then show ?case using 0 e by (simp add: connection_def conn_open_def) (metis conn_ok.simps(1) conn.select_convs(1,4))
next
  case (Suc n)
  obtain r1 l1 e1 where run: "connection pc env auth n l e = (r1, l1, e1)" by (metis prod_cases3)
  have step: "conn_step pc env auth (r1, l1, e1) = (r, l', e')" using Suc.prems(1) run by (simp add: connection_def)
  show ?case
  proof (cases r1)
    case (Reading c)
    obtain l2 e2 where o: "ce_others env l1 e1 = (l2, e2)" by fastforce
    have turn: "conn_turn pc env auth c l2 e2 = (r, l', e')" using step Reading o by simp
    have g: "got e2 = got e1" by (rule conn_env_okD(5) [OF env o])
    have "prefix (got e1) (got e')" using conn_turn_got [OF env turn] g by simp
    then have "conn_ok pc fs got (r1, l1, e1)" using Suc.IH [OF run] Suc.prems(2) prefix_order.trans by blast
    then have "conn_ok pc fs got (Reading c, l2, e2)" using Reading g by simp
    from conn_turn_ok [OF env pc ses fs part this turn Suc.prems(2)] show ?thesis .
  next
    case (ConnClosed cause fatal c)
    then have "(r, l', e') = (r1, l1, e1)" using step by simp
    then show ?thesis using Suc.IH [OF run] Suc.prems(2) by simp
  qed
qed
section \<open>A scripted connection\<close>

text \<open>A socket that delivers a given byte string and then ends, with nobody else connected.\<close>

record script_conn =
  sc_left :: bytes
  sc_got :: bytes

definition script_conn_env :: "script_conn conn_env" where
  "script_conn_env =
     \<lparr>ce_read_exact = (\<lambda>b n e.
        if n \<le> length (sc_left e)
        then (Filled (take n (sc_left e)), e\<lparr>sc_left := drop n (sc_left e), sc_got := sc_got e @ take n (sc_left e)\<rparr>)
        else (ExactEof, e\<lparr>sc_left := [], sc_got := sc_got e @ sc_left e\<rparr>)),
      ce_now = (\<lambda>e. (HostMicros 0, e)), ce_await_superseded = (\<lambda>p e. (True, e)), ce_others = (\<lambda>l e. (l, e))\<rparr>"

lemma script_conn_ok: "conn_env_ok script_conn_env sc_got"
  by (auto simp: conn_env_ok_def script_conn_env_def)

lemma script_conn_prefix:
  assumes "connection pc script_conn_env auth n l \<lparr>sc_left = bs, sc_got = []\<rparr> = (res, l', e')"
  shows "prefix (sc_got e') bs"
proof -
  let ?R = "\<lambda>e e'. sc_got e' @ sc_left e' = sc_got e @ sc_left e"
  have "conn_keeps script_conn_env ?R" by (auto simp: conn_keeps_def script_conn_env_def reflp_def transp_def)
  moreover have "?R e e'" if "ce_read_exact script_conn_env b n e = (r, e')" for b n e r e'
    using that by (auto simp: script_conn_env_def split: if_splits)
  ultimately have "sc_got e' @ sc_left e' = bs" using connection_keeps [OF _ _ assms] by fastforce
  then show ?thesis by (metis prefixI)
qed

lemma wire_frames_eq_prefix: "prefix gs fs \<Longrightarrow> wire_frames pc gs = wire_frames pc fs \<Longrightarrow> gs = fs"
proof -
  assume "prefix gs fs" "wire_frames pc gs = wire_frames pc fs"
  moreover from this obtain hs where hs: "fs = gs @ hs" by (auto simp: prefix_def)
  ultimately have e: "wire_frames pc hs = []" by simp
  have "hs = []" using e wire_frame_nonempty [of pc "hd hs"] by (cases hs) (auto simp: wire_frames_def)
  then show "gs = fs" using hs by simp
qed

end
