(* ===== verification/Frame_Log.thy ===== *)
theory Frame_Log
  imports Uplink
begin

text \<open>
  The host's record of what a pod sent: the frame-log format of
  \<^verbatim>\<open>host/crates/pod-ingest/src/framelog.rs\<close>, opening a log by reference (\<^verbatim>\<open>segref.rs\<close>), and the
  splice of a replayed log into a buffer (\<^verbatim>\<open>readback.rs\<close>).

  The JSON serialiser of the header is a parameter; files are an environment whose operations
  may fail. A write through the \<open>BufWriter\<close> counts as a write to the file. Reading retries an
  interrupted read for ever, so the read loops are partial functions; on a file they return.

  The lemmas: a log that was written, cut anywhere after its header and opened again yields its
  header and the whole records before the cut; the splice of a recorded session leaves captured
  samples at their own index.
\<close>

section \<open>Integers on disk\<close>

fun le_bytes :: "nat \<Rightarrow> nat \<Rightarrow> bytes" where
  "le_bytes 0 n = []"
| "le_bytes (Suc k) n = of_nat (n mod 256) # le_bytes k (n div 256)"

fun le_value :: "bytes \<Rightarrow> nat" where
  "le_value [] = 0"
| "le_value (b # bs) = unat b + 256 * le_value bs"

lemma length_le_bytes [simp]: "length (le_bytes k n) = k"
  by (induction k arbitrary: n) auto

lemma le_value_le_bytes: "n < 256 ^ k \<Longrightarrow> le_value (le_bytes k n) = n"
proof (induction k arbitrary: n)
  case (Suc k)
  then have "n div 256 < 256 ^ k" by (simp add: less_mult_imp_div_less mult.commute)
  then show ?case using Suc.IH by (simp add: unat_of_nat)
qed simp

section \<open>Records\<close>

definition MAGIC :: bytes where "MAGIC = [82, 83, 70, 76]"
definition FORMAT_VERSION :: u16 where "FORMAT_VERSION = 1"
definition RECORD_HEADER_BYTES :: nat where "RECORD_HEADER_BYTES = 10"

record LogMeta =
  lm_build_id :: bytes
  lm_created_epoch_us :: HostMicros
  lm_conn_seq :: u64
  lm_rolled_from :: "bytes option"

datatype LogItem = LogRecord HostMicros bytes | TornTail

datatype FrameLogError = FlIo io_error | BadMagic | UnsupportedVersion u16 | BadMeta | CorruptLength nat

record meta_codec =
  mc_to_vec :: "LogMeta \<Rightarrow> bytes option"
  mc_from_slice :: "bytes \<Rightarrow> LogMeta option"

section \<open>Paths\<close>

text \<open>The parts of \<open>std::path\<close> for Unix that the code uses. A path is its bytes.\<close>

type_synonym path = bytes

datatype path_component = RootDir | CurDir | ParentDir | Normal bytes

fun split_slash :: "path \<Rightarrow> path list" where
  "split_slash [] = [[]]"
| "split_slash (b # bs) =
     (if b = 47 then [] # split_slash bs
      else (case split_slash bs of p # ps \<Rightarrow> (b # p) # ps | [] \<Rightarrow> [[b]]))"

fun body_components :: "path list \<Rightarrow> path_component list" where
  "body_components [] = []"
| "body_components (p # ps) =
     (if p = [] \<or> p = [46] then body_components ps
      else (if p = [46, 46] then ParentDir else Normal p) # body_components ps)"

definition path_components :: "path \<Rightarrow> path_component list" where
  "path_components path =
     (case split_slash path of
        [] \<Rightarrow> []
      | p # ps \<Rightarrow>
          (if p = [46] then [CurDir] else if p = [] \<and> ps \<noteq> [] then [RootDir] else []) @ body_components (p # ps))"

definition path_join :: "path \<Rightarrow> path \<Rightarrow> path" where
  "path_join p q = (if q \<noteq> [] \<and> hd q = 47 then q else if p = [] \<or> last p = 47 then p @ q else p @ [47] @ q)"

definition file_name_string :: "path \<Rightarrow> bytes" where
  "file_name_string path =
     (case rev (path_components path) of Normal n # _ \<Rightarrow> n | _ \<Rightarrow> [])"

section \<open>The writer\<close>

text \<open>An open file is a handle of the environment.\<close>

record 'e file_env =
  fe_create_new :: "path \<Rightarrow> 'e \<Rightarrow> (io_error + nat) \<times> 'e"
  fe_write_all :: "nat \<Rightarrow> bytes \<Rightarrow> 'e \<Rightarrow> io_error option \<times> 'e"
  fe_flush :: "nat \<Rightarrow> 'e \<Rightarrow> io_error option \<times> 'e"
  fe_rename :: "path \<Rightarrow> path \<Rightarrow> 'e \<Rightarrow> io_error option \<times> 'e"

record FrameLogWriter =
  fl_writer :: nat
  fl_path :: path
  fl_bytes :: u64
  fl_created :: HostMicros
  fl_hello :: "(HostMicros \<times> bytes) option"

fun write_alls :: "'e file_env \<Rightarrow> nat \<Rightarrow> bytes list \<Rightarrow> 'e \<Rightarrow> io_error option \<times> 'e" where
  "write_alls fe w [] e = (None, e)"
| "write_alls fe w (b # bs) e =
     (case fe_write_all fe w b e of
        (None, e1) \<Rightarrow> write_alls fe w bs e1
      | (Some err, e1) \<Rightarrow> (Some err, e1))"

definition write_header :: "'e file_env \<Rightarrow> meta_codec \<Rightarrow> nat \<Rightarrow> LogMeta \<Rightarrow> 'e \<Rightarrow> (io_error + u64) \<times> 'e" where
  "write_header fe mc w meta e =
     (case mc_to_vec mc meta of
        None \<Rightarrow> (Inl (IoError InvalidDataKind ''''), e)
      | Some json \<Rightarrow>
          if 65535 < length json
          then (Inl (IoError InvalidDataKind ''frame-log header metadata exceeds 64 KiB''), e)
          else
            (case write_alls fe w [MAGIC, le_bytes 2 (unat FORMAT_VERSION), le_bytes 2 (length json), json] e of
               (None, e1) \<Rightarrow> (Inr (of_nat (length MAGIC + 2 + 2 + length json)), e1)
             | (Some err, e1) \<Rightarrow> (Inl err, e1)))"

definition write_record :: "'e file_env \<Rightarrow> nat \<Rightarrow> HostMicros \<Rightarrow> bytes \<Rightarrow> 'e \<Rightarrow> (io_error + u64) \<times> 'e" where
  "write_record fe w host_rx payload e =
     (case write_alls fe w [le_bytes 8 (unat (hm_us host_rx)), le_bytes 2 (length payload mod 65536), payload] e of
        (None, e1) \<Rightarrow> (Inr (of_nat (RECORD_HEADER_BYTES + length payload)), e1)
      | (Some err, e1) \<Rightarrow> (Inl err, e1))"

definition log_create ::
  "'e file_env \<Rightarrow> meta_codec \<Rightarrow> path \<Rightarrow> LogMeta \<Rightarrow> 'e \<Rightarrow> (io_error + FrameLogWriter) \<times> 'e" where
  "log_create fe mc path meta e =
     (case fe_create_new fe path e of
        (Inl err, e1) \<Rightarrow> (Inl err, e1)
      | (Inr file, e1) \<Rightarrow>
          (case write_header fe mc file meta e1 of
             (Inl err, e2) \<Rightarrow> (Inl err, e2)
           | (Inr n, e2) \<Rightarrow>
               (Inr \<lparr>fl_writer = file, fl_path = path, fl_bytes = n, fl_created = lm_created_epoch_us meta,
                  fl_hello = None\<rparr>, e2)))"

definition log_append ::
  "'e file_env \<Rightarrow> HostMicros \<Rightarrow> bytes \<Rightarrow> FrameLogWriter \<Rightarrow> 'e \<Rightarrow> io_error option \<times> FrameLogWriter \<times> 'e" where
  "log_append fe host_rx payload w e =
     (if payload = [] \<or> MAX_FRAME_BYTES < length payload
      then (Some (IoError InvalidInputKind ''frame-log payload length out of range''), w, e)
      else
        (case write_record fe (fl_writer w) host_rx payload e of
           (Inl err, e1) \<Rightarrow> (Some err, w, e1)
         | (Inr n, e1) \<Rightarrow> (None, w\<lparr>fl_bytes := fl_bytes w + n\<rparr>, e1)))"

definition note_hello :: "HostMicros \<Rightarrow> bytes \<Rightarrow> FrameLogWriter \<Rightarrow> FrameLogWriter" where
  "note_hello host_rx payload w = w\<lparr>fl_hello := Some (host_rx, payload)\<rparr>"

definition rename_to :: "'e file_env \<Rightarrow> path \<Rightarrow> FrameLogWriter \<Rightarrow> 'e \<Rightarrow> io_error option \<times> FrameLogWriter \<times> 'e" where
  "rename_to fe path w e =
     (case fe_rename fe (fl_path w) path e of
        (Some err, e1) \<Rightarrow> (Some err, w, e1)
      | (None, e1) \<Rightarrow> (None, w\<lparr>fl_path := path\<rparr>, e1))"

definition roll_to ::
  "'e file_env \<Rightarrow> meta_codec \<Rightarrow> path \<Rightarrow> LogMeta \<Rightarrow> FrameLogWriter \<Rightarrow> 'e \<Rightarrow> io_error option \<times> FrameLogWriter \<times> 'e" where
  "roll_to fe mc path meta w e =
     (case fe_flush fe (fl_writer w) e of
        (Some err, e1) \<Rightarrow> (Some err, w, e1)
      | (None, e1) \<Rightarrow>
          (case fe_create_new fe path e1 of
             (Inl err, e2) \<Rightarrow> (Some err, w, e2)
           | (Inr file, e2) \<Rightarrow>
               (case write_header fe mc file (meta\<lparr>lm_rolled_from := Some (file_name_string (fl_path w))\<rparr>) e2 of
                  (Inl err, e3) \<Rightarrow> (Some err, w, e3)
                | (Inr n, e3) \<Rightarrow>
                    (case (case fl_hello w of None \<Rightarrow> (Inr 0, e3)
                           | Some (host_rx, payload) \<Rightarrow> write_record fe file host_rx payload e3) of
                       (Inl err, e4) \<Rightarrow> (Some err, w, e4)
                     | (Inr k, e4) \<Rightarrow>
                         (None, w\<lparr>fl_writer := file, fl_path := path, fl_created := lm_created_epoch_us meta,
                            fl_bytes := n + k\<rparr>, e4)))))"

definition log_age :: "FrameLogWriter \<Rightarrow> HostMicros \<Rightarrow> u64" where
  "log_age w now = (case host_checked_delta now (fl_created w) of Some d \<Rightarrow> d | None \<Rightarrow> 0)"

section \<open>The reader\<close>

text \<open>The common loop of \<open>read_exact\<close> and \<open>read_full\<close>: the bytes read, and an error that ended it.\<close>

partial_function (option) read_loop ::
  "'r reader \<Rightarrow> nat \<Rightarrow> bytes \<Rightarrow> 'r \<Rightarrow> (io_error option \<times> bytes \<times> 'r) option" where
  "read_loop rd n filled r =
     (if n \<le> length filled then Some (None, filled, r)
      else
        case rd (n - length filled) r of
          (ReadOk bs, r1) \<Rightarrow> if bs = [] then Some (None, filled, r1) else read_loop rd n (filled @ bs) r1
        | (ReadErr err, r1) \<Rightarrow>
            if kind err = InterruptedKind then read_loop rd n filled r1 else Some (Some err, filled, r1))"

datatype ReadFull = RfOk | RfEof | RfPartial

definition read_full :: "'r reader \<Rightarrow> nat \<Rightarrow> 'r \<Rightarrow> ((io_error + ReadFull) \<times> bytes \<times> 'r) option" where
  "read_full rd n r =
     (case read_loop rd n [] r of
        None \<Rightarrow> None
      | Some (Some err, bs, r1) \<Rightarrow> Some (Inl err, bs, r1)
      | Some (None, bs, r1) \<Rightarrow>
          Some (Inr (if n \<le> length bs then RfOk else if bs = [] then RfEof else RfPartial), bs, r1))"

definition read_exact :: "'r reader \<Rightarrow> nat \<Rightarrow> 'r \<Rightarrow> ((io_error + bytes) \<times> 'r) option" where
  "read_exact rd n r =
     (case read_loop rd n [] r of
        None \<Rightarrow> None
      | Some (Some err, bs, r1) \<Rightarrow> Some (Inl err, r1)
      | Some (None, bs, r1) \<Rightarrow>
          Some (if n \<le> length bs then Inr bs else Inl (IoError UnexpectedEofKind ''failed to fill whole buffer''), r1))"

record 'r FrameLogReader =
  flr_reader :: 'r
  flr_meta :: LogMeta
  flr_done :: bool

text \<open>\<open>?\<close> on the result of a read.\<close>

definition then_read ::
  "((io_error + bytes) \<times> 'r) option \<Rightarrow> (bytes \<Rightarrow> 'r \<Rightarrow> (FrameLogError + 'a) option) \<Rightarrow> (FrameLogError + 'a) option" where
  "then_read x f =
     (case x of
        None \<Rightarrow> None
      | Some (Inl err, r) \<Rightarrow> Some (Inl (FlIo err))
      | Some (Inr bs, r) \<Rightarrow> f bs r)"

definition log_open ::
  "meta_codec \<Rightarrow> (path \<Rightarrow> io_error + 'r) \<Rightarrow> 'r reader \<Rightarrow> path \<Rightarrow> (FrameLogError + 'r FrameLogReader) option" where
  "log_open mc open_file rd path =
     (case open_file path of
        Inl err \<Rightarrow> Some (Inl (FlIo err))
      | Inr r \<Rightarrow>
          then_read (read_exact rd 4 r) (\<lambda>magic r1.
            if magic \<noteq> MAGIC then Some (Inl BadMagic)
            else then_read (read_exact rd 2 r1) (\<lambda>version r2.
              if of_nat (le_value version) \<noteq> FORMAT_VERSION
              then Some (Inl (UnsupportedVersion (of_nat (le_value version))))
              else then_read (read_exact rd 2 r2) (\<lambda>meta_len r3.
                then_read (read_exact rd (le_value meta_len) r3) (\<lambda>meta_bytes r4.
                  Some (case mc_from_slice mc meta_bytes of
                          None \<Rightarrow> Inl BadMeta
                        | Some meta \<Rightarrow> Inr \<lparr>flr_reader = r4, flr_meta = meta, flr_done = False\<rparr>))))))"

definition log_next ::
  "'r reader \<Rightarrow> 'r FrameLogReader \<Rightarrow> ((FrameLogError + LogItem) option \<times> 'r FrameLogReader) option" where
  "log_next rd lr =
     (if flr_done lr then Some (None, lr)
      else
        case read_full rd RECORD_HEADER_BYTES (flr_reader lr) of
          None \<Rightarrow> None
        | Some (Inr RfEof, _, r1) \<Rightarrow> Some (None, lr\<lparr>flr_reader := r1, flr_done := True\<rparr>)
        | Some (Inr RfPartial, _, r1) \<Rightarrow> Some (Some (Inr TornTail), lr\<lparr>flr_reader := r1, flr_done := True\<rparr>)
        | Some (Inl err, _, r1) \<Rightarrow> Some (Some (Inl (FlIo err)), lr\<lparr>flr_reader := r1, flr_done := True\<rparr>)
        | Some (Inr RfOk, header, r1) \<Rightarrow>
            let host_rx = HostMicros (of_nat (le_value (take 8 header))); len = le_value (drop 8 header) in
            if len = 0 \<or> MAX_FRAME_BYTES < len
            then Some (Some (Inl (CorruptLength len)), lr\<lparr>flr_reader := r1, flr_done := True\<rparr>)
            else
              (case read_full rd len r1 of
                 None \<Rightarrow> None
               | Some (Inr RfOk, payload, r2) \<Rightarrow> Some (Some (Inr (LogRecord host_rx payload)), lr\<lparr>flr_reader := r2\<rparr>)
               | Some (Inr _, _, r2) \<Rightarrow> Some (Some (Inr TornTail), lr\<lparr>flr_reader := r2, flr_done := True\<rparr>)
               | Some (Inl err, _, r2) \<Rightarrow> Some (Some (Inl (FlIo err)), lr\<lparr>flr_reader := r2, flr_done := True\<rparr>)))"

section \<open>Opening by reference\<close>

record SegmentRef =
  sref_log :: bytes
  sref_segment_id :: u32
  sref_part :: u16

datatype 'r Resolved = ResFound "'r FrameLogReader" | ResPruned

datatype ResolveError = InvalidRef bytes | ResFault FrameLogError

definition is_single_normal_component :: "bytes \<Rightarrow> bool" where
  "is_single_normal_component log = (case path_components log of [Normal _] \<Rightarrow> True | _ \<Rightarrow> False)"

definition resolve_open ::
  "meta_codec \<Rightarrow> (path \<Rightarrow> io_error + 'r) \<Rightarrow> 'r reader \<Rightarrow> path \<Rightarrow> SegmentRef \<Rightarrow> (ResolveError + 'r Resolved) option" where
  "resolve_open mc open_file rd store_root sr =
     (if \<not> is_single_normal_component (sref_log sr) then Some (Inl (InvalidRef (sref_log sr)))
      else
        case log_open mc open_file rd (path_join store_root (sref_log sr)) of
          None \<Rightarrow> None
        | Some (Inr reader) \<Rightarrow> Some (Inr (ResFound reader))
        | Some (Inl (FlIo err)) \<Rightarrow> Some (if kind err = NotFoundKind then Inr ResPruned else Inl (ResFault (FlIo err)))
        | Some (Inl err) \<Rightarrow> Some (Inl (ResFault err)))"

section \<open>Splicing a log into a buffer\<close>

text \<open>The text of \<open>Corrupt\<close> is kept as the error it renders.\<close>

datatype SpliceStop = SsTornTail | SsCorrupt "FrameLogError + DecodeError" | SsProtocolFatal

record SpliceOutcome =
  so_samples_written :: u64
  so_stopped :: "SpliceStop option"
  so_protocol_errors :: u64

definition splice_event ::
  "u64 \<Rightarrow> i16 list \<Rightarrow> u64 \<Rightarrow> u64 \<Rightarrow> i16 list \<Rightarrow> u64 \<Rightarrow> i16 list \<times> u64" where
  "splice_event first_sample_index pcm start_sample end_sample out samples_written =
     (let event_end = u64_saturating_add first_sample_index (of_nat (length pcm)) in
      if event_end \<le> start_sample \<or> end_sample \<le> first_sample_index then (out, samples_written)
      else
        let overlap_start = max first_sample_index start_sample; overlap_end = min event_end end_sample;
            src_offset = unat (overlap_start - first_sample_index); dst_offset = unat (overlap_start - start_sample);
            len = unat (overlap_end - overlap_start)
        in (take dst_offset out @ take len (drop src_offset pcm) @ drop (dst_offset + len) out,
            samples_written + of_nat len))"

record splice =
  sp_out :: "i16 list"
  sp_written :: u64
  sp_errors :: u64

definition splice_outcome :: "SpliceStop option \<Rightarrow> splice \<Rightarrow> SpliceOutcome" where
  "splice_outcome stopped s =
     \<lparr>so_samples_written = sp_written s, so_stopped = stopped, so_protocol_errors = sp_errors s\<rparr>"

text \<open>The events of one feed: \<open>Some stopped\<close> when the replay returns among them.\<close>

fun splice_events :: "u64 \<Rightarrow> u64 \<Rightarrow> SessionEvent list \<Rightarrow> splice \<Rightarrow> SpliceStop option option \<times> splice" where
  "splice_events start_sample end_sample [] s = (None, s)"
| "splice_events start_sample end_sample (ev # evs) s =
     (case ev of
        EvAudio _ first_sample_index pcm _ _ _ \<Rightarrow>
          if end_sample \<le> first_sample_index then (Some None, s)
          else
            let (out, w) = splice_event first_sample_index pcm start_sample end_sample (sp_out s) (sp_written s)
            in splice_events start_sample end_sample evs (s\<lparr>sp_out := out, sp_written := w\<rparr>)
      | ProtocolError _ fatal _ \<Rightarrow>
          if fatal then (Some (Some SsProtocolFatal), s)
          else splice_events start_sample end_sample evs (s\<lparr>sp_errors := sp_errors s + 1\<rparr>)
      | _ \<Rightarrow> splice_events start_sample end_sample evs s)"

partial_function (option) splice_loop ::
  "postcard \<Rightarrow> 'r reader \<Rightarrow> u64 \<Rightarrow> u64 \<Rightarrow> 'r FrameLogReader \<Rightarrow> SessionFsm \<Rightarrow> ResumeLedger \<Rightarrow> splice \<Rightarrow>
     ((FrameLogError + SpliceOutcome) \<times> i16 list) option" where
  "splice_loop pc rd start_sample end_sample lr fsm ledger s =
     (case log_next rd lr of
        None \<Rightarrow> None
      | Some (None, lr1) \<Rightarrow> Some (Inr (splice_outcome None s), sp_out s)
      | Some (Some (Inr TornTail), lr1) \<Rightarrow> Some (Inr (splice_outcome (Some SsTornTail) s), sp_out s)
      | Some (Some (Inl err), lr1) \<Rightarrow>
          Some (case err of FlIo _ \<Rightarrow> Inl err | _ \<Rightarrow> Inr (splice_outcome (Some (SsCorrupt (Inl err))) s), sp_out s)
      | Some (Some (Inr (LogRecord host_rx payload)), lr1) \<Rightarrow>
          (case decode_frame pc payload of
             Inl err \<Rightarrow> Some (Inr (splice_outcome (Some (SsCorrupt (Inr err))) s), sp_out s)
           | Inr frame \<Rightarrow>
               (case feed frame host_rx fsm ledger of
                  (fsm1, ledger1, evs) \<Rightarrow>
                    (case splice_events start_sample end_sample evs s of
                       (Some stopped, s1) \<Rightarrow> Some (Inr (splice_outcome stopped s1), sp_out s1)
                     | (None, s1) \<Rightarrow> splice_loop pc rd start_sample end_sample lr1 fsm1 ledger1 s1))))"

definition splice_log_into ::
  "postcard \<Rightarrow> 'r reader \<Rightarrow> 'r FrameLogReader \<Rightarrow> FormatConstraint \<Rightarrow> u64 \<Rightarrow> i16 list \<Rightarrow>
     ((FrameLogError + SpliceOutcome) \<times> i16 list) option" where
  "splice_log_into pc rd reader constraint start_sample out =
     splice_loop pc rd start_sample (u64_saturating_add start_sample (of_nat (length out))) reader
       (SessionFsm_new constraint) ResumeLedger_new \<lparr>sp_out = out, sp_written = 0, sp_errors = 0\<rparr>"

lemma le_value_u64: "le_value (le_bytes 8 (unat (x :: u64))) = unat x"
proof -
  have "unat x < 2 ^ LENGTH(64)" by (rule unsigned_less)
  then show ?thesis by (intro le_value_le_bytes) simp
qed

section \<open>Reading a file\<close>

text \<open>
  \<open>left\<close>: what an open file has not delivered yet. A read returns some of it, and nothing only at its end;
  it may be interrupted, \<open>retries\<close> times at most before it delivers.
\<close>

definition file_ok :: "'r reader \<Rightarrow> ('r \<Rightarrow> bytes) \<Rightarrow> ('r \<Rightarrow> nat) \<Rightarrow> bool" where
  "file_ok rd left retries \<longleftrightarrow>
     (\<forall>n r. 0 < n \<longrightarrow>
        (case rd n r of
           (ReadOk bs, r1) \<Rightarrow> left r = bs @ left r1 \<and> length bs \<le> n \<and> (bs = [] \<longrightarrow> left r = [])
         | (ReadErr err, r1) \<Rightarrow> kind err = InterruptedKind \<and> left r1 = left r \<and> retries r1 < retries r))"

lemma read_loop_file:
  assumes "file_ok rd left retries"
  shows "\<exists>r1. read_loop rd n filled r = Some (None, filled @ take (n - length filled) (left r), r1) \<and>
    left r1 = drop (n - length filled) (left r)"
proof (induction r arbitrary: filled rule: wf_induct [OF wf_measures [of "[\<lambda>r. length (left r), retries]"]])
  case (1 r)
  show ?case
  proof (cases "n \<le> length filled")
    case False
    have ok: "case rd (n - length filled) r of
         (ReadOk bs, r1) \<Rightarrow> left r = bs @ left r1 \<and> length bs \<le> n - length filled \<and> (bs = [] \<longrightarrow> left r = [])
       | (ReadErr err, r1) \<Rightarrow> kind err = InterruptedKind \<and> left r1 = left r \<and> retries r1 < retries r"
      using assms False unfolding file_ok_def by simp
    show ?thesis
    proof (cases "rd (n - length filled) r")
      case (Pair res r1)
      show ?thesis
      proof (cases res)
        case (ReadOk bs)
        have l: "left r = bs @ left r1" "length bs \<le> n - length filled" "bs = [] \<Longrightarrow> left r = []"
          using ok Pair ReadOk by auto
        have step: "read_loop rd n filled r = (if bs = [] then Some (None, filled, r1) else read_loop rd n (filled @ bs) r1)"
          using False Pair ReadOk by (subst read_loop.simps) simp
        show ?thesis
        proof (cases "bs = []")
          case True
          then show ?thesis using step l by simp
        next
          case ne: False
          then have "(r1, r) \<in> measures [\<lambda>r. length (left r), retries]" using l(1) by simp
          from 1 [rule_format, OF this, of "filled @ bs"] show ?thesis using step ne l by simp
        qed
      next
        case (ReadErr err)
        have l: "kind err = InterruptedKind" "left r1 = left r" "(r1, r) \<in> measures [\<lambda>r. length (left r), retries]"
          using ok Pair ReadErr by auto
        have "read_loop rd n filled r = read_loop rd n filled r1"
          using False Pair ReadErr l(1) by (subst read_loop.simps) simp
        then show ?thesis using 1 [rule_format, OF l(3), of filled] l(2) by simp
      qed
    qed
  next
    case True
    then show ?thesis by (subst read_loop.simps) simp
  qed
qed

lemma read_exact_file:
  assumes "file_ok rd left retries" "left r = xs @ ys" "length xs = n"
  obtains r1 where "read_exact rd n r = Some (Inr xs, r1)" "left r1 = ys"
  using read_loop_file [OF assms(1), of n "[]" r] assms(2,3) by (auto simp: read_exact_def)

lemma read_full_file:
  assumes "file_ok rd left retries"
  obtains r1 where "read_full rd n r = Some (Inr (if n \<le> length (left r) then RfOk else if left r = [] then RfEof else RfPartial),
      take n (left r), r1)" "left r1 = drop n (left r)"
  using read_loop_file [OF assms, of n "[]" r] by (fastforce simp: read_full_def min_def)

section \<open>The image of a log\<close>

definition header_bytes :: "bytes \<Rightarrow> bytes" where
  "header_bytes json = MAGIC @ le_bytes 2 (unat FORMAT_VERSION) @ le_bytes 2 (length json) @ json"

definition record_bytes :: "HostMicros \<times> bytes \<Rightarrow> bytes" where
  "record_bytes rec = le_bytes 8 (unat (hm_us (fst rec))) @ le_bytes 2 (length (snd rec)) @ snd rec"

definition records_bytes :: "(HostMicros \<times> bytes) list \<Rightarrow> bytes" where
  "records_bytes recs = concat (map record_bytes recs)"

lemma records_bytes_simps [simp]:
  "records_bytes [] = []" "records_bytes (x # xs) = record_bytes x @ records_bytes xs"
  "records_bytes (xs @ ys) = records_bytes xs @ records_bytes ys"
  by (simp_all add: records_bytes_def)

definition loggable :: "bytes \<Rightarrow> bool" where
  "loggable payload \<longleftrightarrow> payload \<noteq> [] \<and> length payload \<le> MAX_FRAME_BYTES"

lemma MAX_FRAME_BYTES_lt: "MAX_FRAME_BYTES < 65536"
  by (simp add: MAX_FRAME_BYTES_def MAX_AUDIO_PAYLOAD_def)

lemma length_record_bytes: "length (record_bytes rec) = RECORD_HEADER_BYTES + length (snd rec)"
  by (simp add: record_bytes_def RECORD_HEADER_BYTES_def)

lemma length_MAGIC: "length MAGIC = 4"
  by (simp add: MAGIC_def)

lemma log_open_file:
  assumes f: "file_ok rd left retries" and o: "open_file path = Inr r" "left r = header_bytes json @ rest"
    and j: "length json \<le> 65535" "mc_from_slice mc json = Some meta"
  obtains lr where "log_open mc open_file rd path = Some (Inr lr)" "flr_meta lr = meta" "\<not> flr_done lr" "left (flr_reader lr) = rest"
proof -
  obtain r1 where 1: "read_exact rd 4 r = Some (Inr MAGIC, r1)"
      "left r1 = le_bytes 2 (unat FORMAT_VERSION) @ le_bytes 2 (length json) @ json @ rest"
    by (rule read_exact_file [OF f, of r MAGIC]) (simp_all add: o header_bytes_def length_MAGIC)
  obtain r2 where 2: "read_exact rd 2 r1 = Some (Inr (le_bytes 2 (unat FORMAT_VERSION)), r2)"
      "left r2 = le_bytes 2 (length json) @ json @ rest"
    by (rule read_exact_file [OF f 1(2)]) simp_all
  obtain r3 where 3: "read_exact rd 2 r2 = Some (Inr (le_bytes 2 (length json)), r3)" "left r3 = json @ rest"
    by (rule read_exact_file [OF f 2(2)]) simp_all
  obtain r4 where 4: "read_exact rd (length json) r3 = Some (Inr json, r4)" "left r4 = rest"
    by (rule read_exact_file [OF f 3(2)]) simp_all
  have v: "le_value (le_bytes 2 (unat FORMAT_VERSION)) = unat FORMAT_VERSION" "le_value (le_bytes 2 (length json)) = length json"
    using j(1) by (simp_all add: le_value_le_bytes FORMAT_VERSION_def)
  have "log_open mc open_file rd path = Some (Inr \<lparr>flr_reader = r4, flr_meta = meta, flr_done = False\<rparr>)"
    using 1(1) 2(1) 3(1) 4(1) o(1) j(2) by (simp add: log_open_def then_read_def v)
  then show ?thesis using that 4(2) by simp
qed

text \<open>The three things the iterator finds at a record boundary of a log that may have been cut.\<close>

lemma log_next_record:
  assumes f: "file_ok rd left retries" and "\<not> flr_done lr" "left (flr_reader lr) = record_bytes (t, payload) @ rest" "loggable payload"
  obtains lr1 where "log_next rd lr = Some (Some (Inr (LogRecord t payload)), lr1)" "\<not> flr_done lr1" "left (flr_reader lr1) = rest"
    "flr_meta lr1 = flr_meta lr"
proof -
  let ?h = "le_bytes 8 (unat (hm_us t)) @ le_bytes 2 (length payload)"
  obtain r1 where 1: "read_full rd RECORD_HEADER_BYTES (flr_reader lr) = Some (Inr RfOk, ?h, r1)" "left r1 = payload @ rest"
    by (rule read_full_file [OF f, of RECORD_HEADER_BYTES "flr_reader lr"])
      (simp add: assms(3) record_bytes_def RECORD_HEADER_BYTES_def)
  obtain r2 where 2: "read_full rd (length payload) r1 = Some (Inr RfOk, payload, r2)" "left r2 = rest"
    by (rule read_full_file [OF f, of "length payload" r1]) (simp add: 1(2))
  have "le_value (le_bytes 8 (unat (hm_us t))) = unat (hm_us t)" by (rule le_value_u64)
  moreover have "le_value (le_bytes 2 (length payload)) = length payload"
    using assms(4) MAX_FRAME_BYTES_lt by (simp add: le_value_le_bytes loggable_def)
  moreover have "payload \<noteq> []" "\<not> MAX_FRAME_BYTES < length payload" using assms(4) by (simp_all add: loggable_def)
  ultimately have "log_next rd lr = Some (Some (Inr (LogRecord t payload)), lr\<lparr>flr_reader := r2\<rparr>)"
    using 1(1) 2(1) assms(2) by (simp add: log_next_def Let_def)
  then show ?thesis using that 2(2) assms(2) by simp
qed

lemma log_next_end:
  assumes "file_ok rd left retries" "\<not> flr_done lr" "left (flr_reader lr) = []"
  obtains lr1 where "log_next rd lr = Some (None, lr1)"
proof -
  obtain r1 where "read_full rd RECORD_HEADER_BYTES (flr_reader lr) = Some (Inr RfEof, [], r1)"
    by (rule read_full_file [OF assms(1), of RECORD_HEADER_BYTES "flr_reader lr"]) (simp add: assms(3) RECORD_HEADER_BYTES_def)
  then show ?thesis using that assms(2) by (simp add: log_next_def)
qed

lemma log_next_torn:
  assumes f: "file_ok rd left retries" and "\<not> flr_done lr" "left (flr_reader lr) = take k (record_bytes (t, payload))"
    "0 < k" "k < length (record_bytes (t, payload))" "loggable payload"
  obtains lr1 where "log_next rd lr = Some (Some (Inr TornTail), lr1)"
proof -
  let ?h = "le_bytes 8 (unat (hm_us t)) @ le_bytes 2 (length payload)"
  have ne: "record_bytes (t, payload) \<noteq> []" using assms(5) by auto
  have k: "k < 10 + length payload" using assms(5) by (simp add: length_record_bytes RECORD_HEADER_BYTES_def)
  obtain r1 where 1: "read_full rd RECORD_HEADER_BYTES (flr_reader lr) =
      Some (Inr (if 10 \<le> k then RfOk else RfPartial), take 10 (take k (record_bytes (t, payload))), r1)"
      "left r1 = drop 10 (take k (record_bytes (t, payload)))"
    by (rule read_full_file [OF f, of RECORD_HEADER_BYTES "flr_reader lr"])
      (use assms(3-5) k ne in \<open>auto simp: RECORD_HEADER_BYTES_def length_record_bytes split: if_splits\<close>)
  show ?thesis
  proof (cases "10 \<le> k")
    case True
    have h: "take 10 (take k (record_bytes (t, payload))) = ?h" "left r1 = take (k - 10) payload"
      using True 1(2) by (simp_all add: record_bytes_def take_append drop_take min_def)
    obtain r2 rf where 2: "read_full rd (length payload) r1 = Some (Inr rf, take (length payload) (left r1), r2)" "rf \<noteq> RfOk"
      by (rule read_full_file [OF f, of "length payload" r1]) (use h k assms(6) in \<open>auto simp: loggable_def split: if_splits\<close>)
    have "le_value (le_bytes 2 (length payload)) = length payload"
      using assms(6) MAX_FRAME_BYTES_lt by (simp add: le_value_le_bytes loggable_def)
    then show ?thesis
      using that 1(1) 2 True h(1) assms(2,6) by (cases rf) (auto simp: log_next_def Let_def loggable_def)
  next
    case False
    then show ?thesis using that 1(1) assms(2) by (simp add: log_next_def)
  qed
qed

text \<open>The whole iteration, as a consumer that keeps every item sees it.\<close>

partial_function (option) log_items :: "'r reader \<Rightarrow> 'r FrameLogReader \<Rightarrow> (FrameLogError + LogItem) list option" where
  "log_items rd lr =
     (case log_next rd lr of
        None \<Rightarrow> None
      | Some (None, lr1) \<Rightarrow> Some []
      | Some (Some item, lr1) \<Rightarrow>
          Option.bind (log_items rd lr1) (\<lambda>items. Some (item # items)))"

lemma log_next_done:
  assumes "log_next rd lr = Some (Some (Inr TornTail), lr1)"
  shows "log_items rd lr1 = Some []"
proof -
  have "flr_done lr1" using assms
    by (auto simp: log_next_def Let_def split: if_splits option.splits prod.splits sum.splits ReadFull.splits)
  then show ?thesis by (subst log_items.simps) (simp add: log_next_def)
qed

text \<open>What survives of \<open>recs\<close> in its first \<open>k\<close> bytes.\<close>

fun kept_records :: "nat \<Rightarrow> (HostMicros \<times> bytes) list \<Rightarrow> (HostMicros \<times> bytes) list \<times> bool" where
  "kept_records k [] = ([], False)"
| "kept_records k (x # xs) =
     (if length (record_bytes x) \<le> k
      then (let (ys, torn) = kept_records (k - length (record_bytes x)) xs in (x # ys, torn))
      else ([], 0 < k))"

lemma kept_records_prefix: "prefix (fst (kept_records k recs)) recs"
  by (induction k recs rule: kept_records.induct) (auto split: prod.splits)

lemma kept_records_all: "length (records_bytes recs) \<le> k \<Longrightarrow> kept_records k recs = (recs, False)"
  by (induction k recs rule: kept_records.induct) (auto split: prod.splits)

lemma kept_records_whole: "kept_records (length (records_bytes xs)) (xs @ ys) = (xs, False)"
  by (induction xs) (simp_all, cases ys, simp_all add: length_record_bytes RECORD_HEADER_BYTES_def)

lemma log_items_file:
  assumes f: "file_ok rd left retries"
  shows "list_all loggable (map snd recs) \<Longrightarrow> \<not> flr_done lr \<Longrightarrow> left (flr_reader lr) = take k (records_bytes recs) \<Longrightarrow>
    log_items rd lr = Some (map (\<lambda>(t, p). Inr (LogRecord t p)) (fst (kept_records k recs)) @
      (if snd (kept_records k recs) then [Inr TornTail] else []))"
proof (induction recs arbitrary: k lr)
  case Nil
  then obtain lr1 where "log_next rd lr = Some (None, lr1)" using log_next_end [OF f, of lr] by auto
  then show ?case by (subst log_items.simps) simp
next
  case (Cons x recs)
  obtain t p where x: "x = (t, p)" by fastforce
  have p: "loggable p" "list_all loggable (map snd recs)" using Cons.prems(1) x by simp_all
  consider "length (record_bytes x) \<le> k" | "k = 0" | "0 < k" "k < length (record_bytes x)" by linarith
  then show ?case
  proof cases
    case 1
    then have "left (flr_reader lr) = record_bytes (t, p) @ take (k - length (record_bytes x)) (records_bytes recs)"
      using Cons.prems(3) x by simp
    from log_next_record [OF f Cons.prems(2) this p(1)] obtain lr1 where
      lr1: "log_next rd lr = Some (Some (Inr (LogRecord t p)), lr1)" "\<not> flr_done lr1"
        "left (flr_reader lr1) = take (k - length (record_bytes x)) (records_bytes recs)" by metis
    show ?thesis using Cons.IH [OF p(2) lr1(2,3)] lr1(1) 1 x by (subst log_items.simps) (simp split: prod.splits)
  next
    case 2
    then obtain lr1 where "log_next rd lr = Some (None, lr1)" using log_next_end [OF f Cons.prems(2)] Cons.prems(3) by auto
    then show ?thesis using 2 by (subst log_items.simps) (simp add: length_record_bytes RECORD_HEADER_BYTES_def)
  next
    case 3
    then have "left (flr_reader lr) = take k (record_bytes (t, p))" using Cons.prems(3) x by simp
    from log_next_torn [OF f Cons.prems(2) this _ _ p(1)] 3 x obtain lr1 where
      lr1: "log_next rd lr = Some (Some (Inr TornTail), lr1)" by metis
    then show ?thesis using log_next_done [OF lr1] 3 by (subst log_items.simps) simp
  qed
qed

section \<open>What the writer leaves on disk\<close>

text \<open>
  \<open>content e w\<close>: what has been written to the file of handle \<open>w\<close>. A new file is empty, a write that
  succeeds appends, and no operation touches a file it is not given.
\<close>

definition store_ok :: "'e file_env \<Rightarrow> ('e \<Rightarrow> nat \<Rightarrow> bytes) \<Rightarrow> bool" where
  "store_ok fe content \<longleftrightarrow>
     (\<forall>p e w e'. fe_create_new fe p e = (Inr w, e') \<longrightarrow> content e' w = []) \<and>
     (\<forall>w bs e e'. fe_write_all fe w bs e = (None, e') \<longrightarrow> content e' = (content e)(w := content e w @ bs))"

lemma write_alls_content:
  assumes "store_ok fe content"
  shows "write_alls fe w bss e = (None, e') \<Longrightarrow> content e' w = content e w @ concat bss"
proof (induction bss arbitrary: e)
  case (Cons bs bss)
  then obtain e1 where e1: "fe_write_all fe w bs e = (None, e1)" "write_alls fe w bss e1 = (None, e')"
    by (auto split: prod.splits option.splits)
  have "content e1 = (content e)(w := content e w @ bs)" using assms e1(1) unfolding store_ok_def by blast
  then show ?case using Cons.IH [OF e1(2)] by simp
qed simp

lemma log_create_content:
  assumes s: "store_ok fe content" and c: "log_create fe mc path meta e = (Inr w, e1)"
  obtains json where "mc_to_vec mc meta = Some json" "length json \<le> 65535" "content e1 (fl_writer w) = header_bytes json"
    "fl_bytes w = of_nat (length (header_bytes json))" "fl_path w = path"
proof -
  obtain h0 e0 where f: "fe_create_new fe path e = (Inr h0, e0)" "content e0 h0 = []"
    using c s by (auto simp: log_create_def store_ok_def split: prod.splits sum.splits)
  obtain n where h: "write_header fe mc h0 meta e0 = (Inr n, e1)" "fl_writer w = h0" "fl_bytes w = n" "fl_path w = path"
    using c f(1) by (auto simp: log_create_def split: prod.splits sum.splits)
  obtain json where j: "mc_to_vec mc meta = Some json" "length json \<le> 65535" "n = of_nat (length MAGIC + 2 + 2 + length json)"
      "write_alls fe h0 [MAGIC, le_bytes 2 (unat FORMAT_VERSION), le_bytes 2 (length json), json] e0 = (None, e1)"
    using h(1) by (auto simp: write_header_def split: prod.splits option.splits if_splits)
  show ?thesis
    using that [OF j(1,2)] write_alls_content [OF s j(4)] f(2) h j(3) by (simp add: header_bytes_def add.assoc)
qed

lemma log_append_content:
  assumes s: "store_ok fe content" and a: "log_append fe t payload w e = (None, w', e')"
  shows "loggable payload" "content e' (fl_writer w') = content e (fl_writer w) @ record_bytes (t, payload)"
    "fl_bytes w' = fl_bytes w + of_nat (length (record_bytes (t, payload)))"
    "fl_writer w' = fl_writer w" "fl_path w' = fl_path w"
proof -
  have p: "payload \<noteq> []" "length payload \<le> MAX_FRAME_BYTES" using a by (auto simp: log_append_def split: if_splits)
  then show "loggable payload" by (simp add: loggable_def)
  obtain n where n: "write_record fe (fl_writer w) t payload e = (Inr n, e')" "w' = w\<lparr>fl_bytes := fl_bytes w + n\<rparr>"
    using a p by (auto simp: log_append_def split: prod.splits sum.splits)
  have m: "write_alls fe (fl_writer w) [le_bytes 8 (unat (hm_us t)), le_bytes 2 (length payload mod 65536), payload] e = (None, e')"
    "n = of_nat (RECORD_HEADER_BYTES + length payload)"
    using n(1) by (auto simp: write_record_def split: prod.splits option.splits)
  have "length payload mod 65536 = length payload" using p(2) MAX_FRAME_BYTES_lt by simp
  then show "content e' (fl_writer w') = content e (fl_writer w) @ record_bytes (t, payload)"
    "fl_bytes w' = fl_bytes w + of_nat (length (record_bytes (t, payload)))" "fl_writer w' = fl_writer w" "fl_path w' = fl_path w"
    using write_alls_content [OF s m(1)] m(2) n(2) by (simp_all add: record_bytes_def RECORD_HEADER_BYTES_def)
qed

fun log_appends ::
  "'e file_env \<Rightarrow> (HostMicros \<times> bytes) list \<Rightarrow> FrameLogWriter \<Rightarrow> 'e \<Rightarrow> io_error option \<times> FrameLogWriter \<times> 'e" where
  "log_appends fe [] w e = (None, w, e)"
| "log_appends fe ((t, payload) # recs) w e =
     (case log_append fe t payload w e of
        (None, w1, e1) \<Rightarrow> log_appends fe recs w1 e1
      | (Some err, w1, e1) \<Rightarrow> (Some err, w1, e1))"

lemma log_appends_content:
  assumes "store_ok fe content"
  shows "log_appends fe recs w e = (None, w', e') \<Longrightarrow>
    list_all loggable (map snd recs) \<and> content e' (fl_writer w') = content e (fl_writer w) @ records_bytes recs \<and>
    fl_bytes w' = fl_bytes w + of_nat (length (records_bytes recs)) \<and> fl_path w' = fl_path w"
proof (induction recs arbitrary: w e)
  case (Cons x recs)
  obtain t p where x: "x = (t, p)" by fastforce
  obtain w1 e1 where a: "log_append fe t p w e = (None, w1, e1)" "log_appends fe recs w1 e1 = (None, w', e')"
    using Cons.prems x by (auto split: prod.splits option.splits)
  show ?case using Cons.IH [OF a(2)] log_append_content [OF assms a(1)] x by simp
qed simp

section \<open>What a splice writes\<close>

lemma unat_saturating_add: "unat (u64_saturating_add a b) = min (unat a + unat b) (2 ^ 64 - 1)"
proof (cases "unat a + unat b < 2 ^ 64")
  case True
  then have "unat (a + b) = unat a + unat b" by (simp add: unat_word_ariths)
  then show ?thesis using True by (simp add: u64_saturating_add_def)
next
  case False
  have "unat (- 1 :: u64) = 2 ^ 64 - 1" by (simp add: unsigned_minus_1_eq_mask mask_eq_exp_minus_1)
  then show ?thesis using False by (simp add: u64_saturating_add_def)
qed

lemma splice_nth:
  assumes "out' = take d out @ take n (drop s pcm) @ drop (d + n) out" "d + n \<le> length out" "s + n \<le> length pcm"
  shows "length out' = length out \<and> (\<forall>j < length out. out' ! j = (if d \<le> j \<and> j < d + n then pcm ! (s + (j - d)) else out ! j))"
  using assms by (auto simp: nth_append not_less)

lemma splice_event_nth:
  assumes n: "length out < 2 ^ 64" "end_sample = u64_saturating_add start (of_nat (length out))"
    and h: "c + length pcm \<le> length H" "length H < 2 ^ 64" "pcm = take (length pcm) (drop c H)"
    and s: "splice_event (of_nat c) pcm start end_sample out w = (out', w')"
  shows "length out' = length out \<and> (\<forall>j < length out. out' ! j =
       (if c \<le> unat start + j \<and> unat start + j < c + length pcm \<and> unat start + j < unat end_sample
        then H ! (unat start + j) else out ! j))"
proof -
  let ?S = "unat start" and ?E = "unat end_sample" and ?L = "length pcm" and ?ee = "u64_saturating_add (of_nat c) (of_nat (length pcm))"
  have st: "?S < 2 ^ LENGTH(64)" by (rule unsigned_less)
  have E: "?E \<le> ?S + length out" "?S \<le> ?E" using n st by (simp_all add: unat_saturating_add unat_of_nat)
  have c: "unat (of_nat c :: u64) = c" "unat (of_nat ?L :: u64) = ?L" "c + ?L < 2 ^ 64" using h(1,2) by (simp_all add: unat_of_nat)
  have ee: "unat ?ee = c + ?L" using c by (simp add: unat_saturating_add)
  have pcm: "pcm ! q = H ! (c + q)" if "q < ?L" for q
    using that h(1) by (subst h(3)) simp
  show ?thesis
  proof (cases "c + ?L \<le> ?S \<or> ?E \<le> c")
    case True
    then have "out' = out" using s ee c by (simp add: splice_event_def word_le_nat_alt)
    then show ?thesis using True by auto
  next
    case False
    define a where "a = max c ?S"
    define b where "b = min (c + ?L) ?E"
    have ab: "a \<le> b" "c \<le> a" "?S \<le> a" "b \<le> c + ?L" "b \<le> ?E" using False E(2) by (auto simp: a_def b_def)
    have mx: "unat (max (of_nat c) start) = a" "unat (min ?ee end_sample) = b"
      using c ee by (simp_all add: a_def b_def max_def min_def word_le_nat_alt)
    have sub: "unat (max (of_nat c) start - of_nat c) = a - c" "unat (max (of_nat c) start - start) = a - ?S"
      "unat (min ?ee end_sample - max (of_nat c) start) = b - a"
      using mx c ab by (simp_all add: unat_sub word_le_nat_alt)
    have "out' = take (a - ?S) out @ take (b - a) (drop (a - c) pcm) @ drop (a - ?S + (b - a)) out"
      using s ee c False sub unfolding splice_event_def Let_def by (simp add: word_le_nat_alt)
    moreover have "a - ?S + (b - a) \<le> length out" "a - c + (b - a) \<le> ?L" using ab E(1) by simp_all
    ultimately have out': "length out' = length out"
      "j < length out \<Longrightarrow> out' ! j = (if a - ?S \<le> j \<and> j < a - ?S + (b - a) then pcm ! (a - c + (j - (a - ?S))) else out ! j)" for j
      using splice_nth [of out'] by auto
    have "out' ! j = (if c \<le> ?S + j \<and> ?S + j < c + ?L \<and> ?S + j < ?E then H ! (?S + j) else out ! j)" if "j < length out" for j
    proof (cases "a \<le> ?S + j \<and> ?S + j < b")
      case True
      then have "a - c + (j - (a - ?S)) = ?S + j - c" "?S + j - c < ?L" using ab by linarith+
      then show ?thesis using out'(2) [OF that] True ab pcm [of "?S + j - c"] by (auto simp: a_def b_def)
    next
      case False
      then show ?thesis using out'(2) [OF that] ab by (auto simp: a_def b_def)
    qed
    then show ?thesis using out'(1) by simp
  qed
qed

text \<open>
  \<open>spliced\<close>: every sample of the buffer is as it was, or the captured sample of its index; and every event seen
  so far has left its samples in place.
\<close>

definition spliced :: "i16 list \<Rightarrow> u64 \<Rightarrow> i16 list \<Rightarrow> i16 list \<Rightarrow> bool" where
  "spliced H start out0 out \<longleftrightarrow> length out = length out0 \<and>
     (\<forall>j < length out0. out ! j = out0 ! j \<or> unat start + j < length H \<and> out ! j = H ! (unat start + j))"

definition covers :: "i16 list \<Rightarrow> u64 \<Rightarrow> u64 \<Rightarrow> i16 list \<Rightarrow> u64 \<times> i16 list \<Rightarrow> bool" where
  "covers H start end_sample out ch \<longleftrightarrow>
     (\<forall>j. unat (fst ch) \<le> unat start + j \<and> unat start + j < unat (fst ch) + length (snd ch) \<and>
        unat start + j < unat end_sample \<longrightarrow> out ! j = H ! (unat start + j))"

fun chunks :: "SessionEvent list \<Rightarrow> (u64 \<times> i16 list) list" where
  "chunks [] = []"
| "chunks (EvAudio _ i pcm _ _ _ # evs) = (i, pcm) # chunks evs"
| "chunks (_ # evs) = chunks evs"

lemma splice_events_ok:
  assumes n: "length out0 < 2 ^ 64" "end_sample = u64_saturating_add start (of_nat (length out0))" and H: "length H < 2 ^ 64"
  shows "list_all (event_ok pid H) evs \<Longrightarrow> spliced H start out0 (sp_out s) \<Longrightarrow>
    splice_events start end_sample evs s = (stop, s') \<Longrightarrow>
    spliced H start out0 (sp_out s') \<and> (stop = None \<or> stop = Some None \<and> (\<exists>ch \<in> set (chunks evs). end_sample \<le> fst ch)) \<and>
    (\<forall>ch. covers H start end_sample (sp_out s) ch \<longrightarrow> covers H start end_sample (sp_out s') ch) \<and>
    (stop = None \<longrightarrow> (\<forall>ch \<in> set (chunks evs). covers H start end_sample (sp_out s') ch))"
proof (induction evs arbitrary: s)
  case Nil
  then show ?case by simp
next
  case (Cons ev evs)
  have ev: "event_ok pid H ev" "list_all (event_ok pid H) evs" using Cons.prems(1) by simp_all
  show ?case
  proof (cases "\<exists>sid i pcm ts gap t. ev = EvAudio sid i pcm ts gap t")
    case True
    then obtain sid i pcm ts gap t where a: "ev = EvAudio sid i pcm ts gap t" by blast
    then obtain c where c: "i = of_nat c" "c + length pcm \<le> length H" "pcm = take (length pcm) (drop c H)"
      using ev(1) by (auto simp: event_ok_def)
    show ?thesis
    proof (cases "end_sample \<le> i")
      case True
      then show ?thesis using Cons.prems(2,3) a by auto
    next
      case False
      obtain out w where o: "splice_event i pcm start end_sample (sp_out s) (sp_written s) = (out, w)" by fastforce
      have l: "length (sp_out s) = length out0" using Cons.prems(2) by (simp add: spliced_def)
      have nth: "length out = length out0"
        "\<And>j. j < length out0 \<Longrightarrow> out ! j = (if c \<le> unat start + j \<and> unat start + j < c + length pcm \<and> unat start + j < unat end_sample
           then H ! (unat start + j) else sp_out s ! j)"
        using splice_event_nth [OF _ _ c(2) H c(3) o [unfolded c(1)]] n l by auto
      have uc: "unat i = c" using c(1,2) H by (simp add: unat_of_nat)
      have E: "unat end_sample \<le> unat start + length out0" using n by (simp add: unat_saturating_add unat_of_nat)
      let ?s = "s\<lparr>sp_out := out, sp_written := w\<rparr>"
      have sp: "spliced H start out0 (sp_out ?s)" using Cons.prems(2) nth c(2) by (simp add: spliced_def)
      have cv: "covers H start end_sample out (i, pcm)" using nth E uc by (simp add: covers_def)
      have keep: "covers H start end_sample out ch" if "covers H start end_sample (sp_out s) ch" for ch
        using that nth E by (simp add: covers_def)
      have "splice_events start end_sample evs ?s = (stop, s')" using Cons.prems(3) a False o by simp
      from Cons.IH [OF ev(2) sp this] show ?thesis using a cv keep by auto
    qed
  next
    case False
    have ch: "chunks (ev # evs) = chunks evs" using False by (cases ev) auto
    obtain s1 where s1: "splice_events start end_sample evs s1 = (stop, s')" "sp_out s1 = sp_out s"
      using Cons.prems(3) ev(1) False by (cases ev) (auto simp: event_ok_def)
    show ?thesis using Cons.IH [OF ev(2) _ s1(1)] Cons.prems(2) unfolding ch s1(2) by blast
  qed
qed

fun frame_chunk :: "StreamFrame \<Rightarrow> (u64 \<times> i16 list) list" where
  "frame_chunk (FAudio a) = [(af_first_sample_index a, decode_pcm (af_pcm a))]"
| "frame_chunk _ = []"

lemma feed_chunks:
  assumes "feed f t fsm l = (fsm', l', evs)" "fsm_state fsm \<noteq> FsmDead" "list_all (event_ok pid H) evs"
  shows "fsm_state fsm' \<noteq> FsmDead \<and> chunks evs = frame_chunk f"
  using assms
  by (cases f; cases "fsm_state fsm")
    (auto simp: feed_def feed_defs close_completed_def accept_audio_def truncate_open_segment_def event_ok_def Let_def
      split: if_splits option.splits prod.splits)

text \<open>The log of a session: each frame's wire bytes with a receive time.\<close>

definition session_records :: "postcard \<Rightarrow> (HostMicros \<times> StreamFrame) list \<Rightarrow> (HostMicros \<times> bytes) list" where
  "session_records pc tgs = map (\<lambda>(t, g). (t, wire_frame pc g)) tgs"

lemma splice_loop_steps:
  "log_next rd lr = Some (None, lr1) \<Longrightarrow> splice_loop pc rd start end_sample lr fsm ledger s = Some (Inr (splice_outcome None s), sp_out s)"
  "log_next rd lr = Some (Some (Inr TornTail), lr1) \<Longrightarrow>
    splice_loop pc rd start end_sample lr fsm ledger s = Some (Inr (splice_outcome (Some SsTornTail) s), sp_out s)"
  "log_next rd lr = Some (Some (Inr (LogRecord t payload)), lr1) \<Longrightarrow> decode_frame pc payload = Inr g \<Longrightarrow>
    feed g t fsm ledger = (fsm1, ledger1, evs) \<Longrightarrow> splice_events start end_sample evs s = (stop, s1) \<Longrightarrow>
    splice_loop pc rd start end_sample lr fsm ledger s =
      (case stop of Some stopped \<Rightarrow> Some (Inr (splice_outcome stopped s1), sp_out s1)
       | None \<Rightarrow> splice_loop pc rd start end_sample lr1 fsm1 ledger1 s1)"
  by (subst splice_loop.simps, simp split: option.splits)+

lemma splice_loop_file:
  assumes f: "file_ok rd left retries" and pc: "postcard_ok pc" "\<forall>g \<in> set fs. sendable pc g"
    and pod: "session (hello_frame pod_id) H fs" "length H < 2 ^ 64"
    and n: "length out0 < 2 ^ 64" "end_sample = u64_saturating_add start (of_nat (length out0))"
  shows "list_all loggable (map snd (session_records pc tgs)) \<Longrightarrow> \<not> flr_done lr \<Longrightarrow>
    left (flr_reader lr) = take k (records_bytes (session_records pc tgs)) \<Longrightarrow> map fst xs @ map snd tgs = fs \<Longrightarrow>
    feed_all xs (SessionFsm_new SPINE_FORMAT) = (fsm, evs0) \<Longrightarrow> fsm_state fsm \<noteq> FsmDead \<Longrightarrow> spliced H start out0 (sp_out s) \<Longrightarrow>
    \<forall>ch \<in> set (concat (map frame_chunk (map fst xs))). covers H start end_sample (sp_out s) ch \<Longrightarrow>
    \<exists>outcome out. splice_loop pc rd start end_sample lr fsm ledger s = Some (Inr outcome, out) \<and> spliced H start out0 out \<and>
      (so_stopped outcome = None \<or> so_stopped outcome = Some SsTornTail) \<and>
      (length (records_bytes (session_records pc tgs)) \<le> k \<and> (\<forall>ch \<in> set (concat (map frame_chunk fs)). fst ch < end_sample) \<longrightarrow>
         so_stopped outcome = None \<and> (\<forall>ch \<in> set (concat (map frame_chunk fs)). covers H start end_sample out ch))"
proof (induction tgs arbitrary: k lr xs fsm evs0 ledger s)
  case Nil
  obtain lr1 where e: "log_next rd lr = Some (None, lr1)"
    using log_next_end [OF f, of lr] Nil.prems(2,3) by (auto simp: session_records_def)
  show ?case using Nil.prems(4,7,8) splice_loop_steps(1) [OF e] by (simp add: splice_outcome_def)
next
  case (Cons tg tgs)
  obtain t g where tg: "tg = (t, g)" by fastforce
  let ?rec = "(t, wire_frame pc g)" and ?rest = "session_records pc tgs"
  have recs: "session_records pc (tg # tgs) = ?rec # ?rest" by (simp add: session_records_def tg)
  have log: "loggable (wire_frame pc g)" "list_all loggable (map snd ?rest)" using Cons.prems(1) by (simp_all add: recs)
  have g: "sendable pc g" using pc(2) Cons.prems(4) tg by auto
  consider "length (record_bytes ?rec) \<le> k" | "k = 0" | "0 < k" "k < length (record_bytes ?rec)" by linarith
  then show ?case
  proof cases
    case 1
    then have "left (flr_reader lr) = record_bytes ?rec @ take (k - length (record_bytes ?rec)) (records_bytes ?rest)"
      using Cons.prems(3) by (simp add: recs)
    from log_next_record [OF f Cons.prems(2) this log(1)] obtain lr1 where
      lr1: "log_next rd lr = Some (Some (Inr (LogRecord t (wire_frame pc g))), lr1)" "\<not> flr_done lr1"
        "left (flr_reader lr1) = take (k - length (record_bytes ?rec)) (records_bytes ?rest)" by metis
    obtain fsm1 ledger1 evs where fd: "feed g t fsm ledger = (fsm1, ledger1, evs)" by (metis prod_cases3)
    obtain stop s1 where se: "splice_events start end_sample evs s = (stop, s1)" by fastforce
    note step = splice_loop_steps(3) [OF lr1(1) decode_wire_frame [OF pc(1) g] fd se]
    let ?xs = "xs @ [(g, t, ledger)]"
    have fa: "feed_all ?xs (SessionFsm_new SPINE_FORMAT) = (fsm1, evs0 @ evs)"
      using Cons.prems(5) fd by (simp add: feed_all_append)
    have all: "map fst ?xs @ map snd tgs = fs" using Cons.prems(4) tg by simp
    then have "prefix (map fst ?xs) fs" by (metis prefixI)
    from fed_prefix_ok(1) [OF pod refl this fa] have ok: "list_all (event_ok (if length pod_id \<le> 32 then pod_id else []) H) evs" by simp
    have ch: "fsm_state fsm1 \<noteq> FsmDead" "chunks evs = frame_chunk g" using feed_chunks [OF fd Cons.prems(6) ok] by simp_all
    note S = splice_events_ok [OF n pod(2) ok Cons.prems(7) se]
    show ?thesis
    proof (cases stop)
      case None
      have cov: "\<forall>ch \<in> set (concat (map frame_chunk (map fst ?xs))). covers H start end_sample (sp_out s1) ch"
        using S None ch(2) Cons.prems(8) by auto
      have k: "length (records_bytes (session_records pc (tg # tgs))) \<le> k \<longleftrightarrow>
          length (records_bytes ?rest) \<le> k - length (record_bytes ?rec)" using 1 by (simp add: recs, linarith)
      show ?thesis
        using Cons.IH [OF log(2) lr1(2,3) all fa ch(1) conjunct1 [OF S] cov, of ledger1] step None unfolding k by simp
    next
      case (Some stopped)
      then have st: "stopped = None" "\<exists>c \<in> set (frame_chunk g). end_sample \<le> fst c" using S ch(2) by auto
      moreover have "set (frame_chunk g) \<subseteq> set (concat (map frame_chunk fs))" using all by auto
      ultimately have "\<not> (\<forall>ch \<in> set (concat (map frame_chunk fs)). fst ch < end_sample)"
        by (meson leD subsetD)
      then show ?thesis using step Some S st(1) by (simp add: splice_outcome_def) blast
    qed
  next
    case 2
    then obtain lr1 where e: "log_next rd lr = Some (None, lr1)" using log_next_end [OF f Cons.prems(2)] Cons.prems(3) by auto
    show ?thesis
      using 2 Cons.prems(7) splice_loop_steps(1) [OF e] by (simp add: splice_outcome_def recs length_record_bytes RECORD_HEADER_BYTES_def)
  next
    case 3
    then have "left (flr_reader lr) = take k (record_bytes ?rec)" using Cons.prems(3) by (simp add: recs)
    from log_next_torn [OF f Cons.prems(2) this 3 log(1)] obtain lr1 where
      e: "log_next rd lr = Some (Some (Inr TornTail), lr1)" by metis
    show ?thesis using 3 Cons.prems(7) splice_loop_steps(2) [OF e] by (simp add: splice_outcome_def recs)
  qed
qed

text \<open>The serialiser's round trip.\<close>

definition codec_ok :: "meta_codec \<Rightarrow> bool" where
  "codec_ok mc \<longleftrightarrow> (\<forall>meta json. mc_to_vec mc meta = Some json \<longrightarrow> mc_from_slice mc json = Some meta)"

text \<open>A log written, closed, cut anywhere after its header, and opened again.\<close>

lemma reopened_log:
  assumes laws: "store_ok fe content" "codec_ok mc" "file_ok rd left retries"
    and written: "log_create fe mc path meta e = (Inr w, e1)" "log_appends fe recs w e1 = (None, w', e2)"
    and opened: "open_file path = Inr r" "left r = take k (content e2 (fl_writer w'))" "unat (fl_bytes w) \<le> k"
  obtains lr where "log_open mc open_file rd path = Some (Inr lr)" "flr_meta lr = meta" "\<not> flr_done lr"
    "left (flr_reader lr) = take (k - unat (fl_bytes w)) (records_bytes recs)" "list_all loggable (map snd recs)"
    "fl_bytes w' = of_nat (length (content e2 (fl_writer w')))"
    "length (content e2 (fl_writer w')) \<le> k \<longleftrightarrow> length (records_bytes recs) \<le> k - unat (fl_bytes w)"
proof -
  obtain json where j: "mc_to_vec mc meta = Some json" "length json \<le> 65535" "content e1 (fl_writer w) = header_bytes json"
      "fl_bytes w = of_nat (length (header_bytes json))"
    using log_create_content [OF laws(1) written(1)] by metis
  have "length (header_bytes json) < 2 ^ 64" using j(2) by (simp add: header_bytes_def length_MAGIC)
  then have n: "unat (fl_bytes w) = length (header_bytes json)" by (simp add: j(4) unat_of_nat)
  have m: "mc_from_slice mc json = Some meta" using laws(2) j(1) unfolding codec_ok_def by blast
  have c: "list_all loggable (map snd recs)" "content e2 (fl_writer w') = header_bytes json @ records_bytes recs"
    "fl_bytes w' = fl_bytes w + of_nat (length (records_bytes recs))"
    using log_appends_content [OF laws(1) written(2)] j(3) by simp_all
  have "left r = header_bytes json @ take (k - unat (fl_bytes w)) (records_bytes recs)"
    using opened(2,3) c(2) n by simp
  from log_open_file [where open_file = open_file and path = path, OF laws(3) opened(1) this j(2) m] obtain lr where
    "log_open mc open_file rd path = Some (Inr lr)" "flr_meta lr = meta" "\<not> flr_done lr"
    "left (flr_reader lr) = take (k - unat (fl_bytes w)) (records_bytes recs)" by metis
  then show ?thesis using that c j(4) n opened(3) by (simp add: le_diff_conv2 add.commute)
qed

section \<open>Scripted files\<close>

text \<open>
  A store with one content per handle, a file that is interrupted some number of times before it delivers, and
  a serialiser for headers that roll from no other log.
\<close>

definition script_store :: "(nat \<times> (nat \<Rightarrow> bytes)) file_env" where
  "script_store =
     \<lparr>fe_create_new = \<lambda>_ e. (Inr (fst e), (Suc (fst e), (snd e)(fst e := []))),
      fe_write_all = \<lambda>w bs e. (None, (fst e, (snd e)(w := snd e w @ bs))),
      fe_flush = \<lambda>_ e. (None, e), fe_rename = \<lambda>_ _ e. (None, e)\<rparr>"

lemma script_store_ok: "store_ok script_store snd"
  by (auto simp: store_ok_def script_store_def)

definition script_file :: "(bytes \<times> nat) reader" where
  "script_file n r =
     (if 0 < snd r then (ReadErr (IoError InterruptedKind []), (fst r, snd r - 1))
      else (ReadOk (take n (fst r)), (drop n (fst r), 0)))"

lemma script_file_ok: "file_ok script_file fst snd"
  by (auto simp: file_ok_def script_file_def)

definition script_codec :: meta_codec where
  "script_codec =
     \<lparr>mc_to_vec = \<lambda>m. if lm_rolled_from m = None
        then Some (le_bytes 8 (unat (hm_us (lm_created_epoch_us m))) @ le_bytes 8 (unat (lm_conn_seq m)) @ lm_build_id m) else None,
      mc_from_slice = \<lambda>bs. if length bs < 16 then None
        else Some \<lparr>lm_build_id = drop 16 bs, lm_created_epoch_us = HostMicros (of_nat (le_value (take 8 bs))),
               lm_conn_seq = of_nat (le_value (take 8 (drop 8 bs))), lm_rolled_from = None\<rparr>\<rparr>"

lemma script_codec_ok: "codec_ok script_codec"
  by (auto simp: codec_ok_def script_codec_def le_value_u64)

lemma script_appends: "list_all loggable (map snd recs) \<Longrightarrow> \<exists>w' e'. log_appends script_store recs w e = (None, w', e')"
  by (induction recs arbitrary: w e) (auto simp: loggable_def log_append_def write_record_def script_store_def)

end
