(* ===== verification/Assembler.thy ===== *)
theory Assembler
  imports Frame_Log
begin

text \<open>
  The segment assembler of \<^verbatim>\<open>host/crates/speech-pipeline/src/assembler.rs\<close> and the segment types of
  \<^verbatim>\<open>types.rs\<close>: one connection's session events are folded into whole segments, and a segment that
  reaches the host's length cap is cut into parts.

  \<open>debug_assert!\<close> is not part of a release build; the stamps of the later stages stay \<open>None\<close> here.

  The lemmas: whatever a peer sends, the session automaton never breaks the ordering the assembler
  relies on, and the audio of the segments is the audio of the events; for a pod of this
  repository each segment is one stretch of the capture, at the index the segment names.
\<close>

section \<open>Segments\<close>

datatype SegmentEndCause = CauseVadRelease | CauseOverrun | CauseTruncated | CauseInternalError | CauseHostCapped

record SegmentEndInfo =
  sei_cause :: SegmentEndCause
  sei_truncated :: bool
  sei_resumed :: bool
  sei_gap_count :: u32
  sei_cross_check :: "CrossCheck option"

definition SegmentEndInfo_new :: "SegmentEndCause \<Rightarrow> bool \<Rightarrow> u32 \<Rightarrow> CrossCheck option \<Rightarrow> SegmentEndInfo" where
  "SegmentEndInfo_new cause resumed gap_count cross_check =
     \<lparr>sei_cause = cause, sei_truncated = (cause = CauseTruncated \<or> cause = CauseHostCapped), sei_resumed = resumed,
      sei_gap_count = gap_count, sei_cross_check = cross_check\<rparr>"

type_synonym SegmentTelemetry = "int \<times> TelemetryKind"

record StageTimings =
  stt_first_frame_rx :: "HostMicros option"
  stt_segment_end_rx :: "HostMicros option"
  stt_assembled :: "HostMicros option"
  stt_tracking_emitted :: "HostMicros option"
  stt_first_audio_rx :: "HostMicros option"
  stt_t0_projected :: "bool option"
  stt_vad_high_est :: "HostMicros option"
  stt_wake_detected_rx :: "HostMicros option"
  stt_onset_rx :: "HostMicros option"
  stt_soft_endpoint_rx :: "HostMicros option"
  stt_stt_started :: "HostMicros option"
  stt_transcribed :: "HostMicros option"
  stt_brain_dispatched :: "HostMicros option"
  stt_synth_started :: "HostMicros option"
  stt_synth_completed :: "HostMicros option"

definition StageTimings_default :: StageTimings where
  "StageTimings_default =
     \<lparr>stt_first_frame_rx = None, stt_segment_end_rx = None, stt_assembled = None, stt_tracking_emitted = None,
      stt_first_audio_rx = None, stt_t0_projected = None, stt_vad_high_est = None, stt_wake_detected_rx = None,
      stt_onset_rx = None, stt_soft_endpoint_rx = None, stt_stt_started = None, stt_transcribed = None,
      stt_brain_dispatched = None, stt_synth_started = None, stt_synth_completed = None\<rparr>"

record AssembledSegment =
  sg_pod :: bytes
  sg_room :: bytes
  sg_segment_id :: u32
  sg_base_sample_index :: u64
  sg_preroll_samples :: u32
  sg_pcm :: "i16 list"
  sg_device_ts :: DeviceMicros
  sg_host_rx :: HostMicros
  sg_end :: SegmentEndInfo
  sg_telemetry :: "SegmentTelemetry list"
  sg_audio_ref :: SegmentRef
  sg_timings :: StageTimings

section \<open>The assembler\<close>

record AssemblerLimits =
  al_max_segment_samples :: u64
  al_max_telemetry_readings :: nat

definition AssemblerLimits_default :: AssemblerLimits where
  "AssemblerLimits_default = \<lparr>al_max_segment_samples = 960000, al_max_telemetry_readings = 4096\<rparr>"

record AssemblerStats =
  as_telemetry_dropped :: u64
  as_contract_violations :: u64

record InProgress =
  ip_segment_id :: u32
  ip_part :: u16
  ip_base_sample_index :: u64
  ip_preroll_samples :: u32
  ip_base_device_ts :: DeviceMicros
  ip_first_frame_rx :: HostMicros
  ip_is_resume :: bool
  ip_pcm :: "i16 list"
  ip_telemetry :: "SegmentTelemetry list"
  ip_gap_count :: u32

datatype CurrentSegment = CurIdle | CurOpen InProgress

record SegmentAssembler =
  sa_pod :: bytes
  sa_room :: bytes
  sa_limits :: AssemblerLimits
  sa_current :: CurrentSegment
  sa_stats :: AssemblerStats

definition SegmentAssembler_new :: "bytes \<Rightarrow> bytes \<Rightarrow> AssemblerLimits \<Rightarrow> SegmentAssembler" where
  "SegmentAssembler_new pod room limits =
     \<lparr>sa_pod = pod, sa_room = room, sa_limits = limits, sa_current = CurIdle,
      sa_stats = \<lparr>as_telemetry_dropped = 0, as_contract_violations = 0\<rparr>\<rparr>"

definition contract_violated :: "SegmentAssembler \<Rightarrow> SegmentAssembler" where
  "contract_violated a =
     a\<lparr>sa_stats := (sa_stats a)\<lparr>as_contract_violations := as_contract_violations (sa_stats a) + 1\<rparr>\<rparr>"

definition build_segment ::
  "SegmentAssembler \<Rightarrow> InProgress \<Rightarrow> SegmentEndInfo \<Rightarrow> HostMicros option \<Rightarrow> bytes \<Rightarrow> AssembledSegment" where
  "build_segment a ip end_info segment_end_rx audio_ref_log =
     \<lparr>sg_pod = sa_pod a, sg_room = sa_room a, sg_segment_id = ip_segment_id ip,
      sg_base_sample_index = ip_base_sample_index ip, sg_preroll_samples = ip_preroll_samples ip, sg_pcm = ip_pcm ip,
      sg_device_ts = ip_base_device_ts ip, sg_host_rx = ip_first_frame_rx ip, sg_end = end_info, sg_telemetry = ip_telemetry ip,
      sg_audio_ref = \<lparr>sref_log = audio_ref_log, sref_segment_id = ip_segment_id ip, sref_part = ip_part ip\<rparr>,
      sg_timings = StageTimings_default\<lparr>stt_first_frame_rx := Some (ip_first_frame_rx ip), stt_segment_end_rx := segment_end_rx\<rparr>\<rparr>"

fun end_cause_of :: "EndReason \<Rightarrow> SegmentEndCause" where
  "end_cause_of VadRelease = CauseVadRelease"
| "end_cause_of Overrun = CauseOverrun"
| "end_cause_of InternalError = CauseInternalError"

fun end_info_from_close :: "SegmentClose \<Rightarrow> u32 \<Rightarrow> bool \<Rightarrow> SegmentEndInfo" where
  "end_info_from_close (SegCompleted end_reason _ _ cross_check) gap_count resumed =
     SegmentEndInfo_new (end_cause_of end_reason) resumed gap_count (Some cross_check)"
| "end_info_from_close (SegTruncated _) gap_count resumed = SegmentEndInfo_new CauseTruncated resumed gap_count None"

definition on_audio ::
  "InProgress \<Rightarrow> u64 \<Rightarrow> i16 list \<Rightarrow> DeviceMicros \<Rightarrow> Gap option \<Rightarrow> HostMicros \<Rightarrow> bytes \<Rightarrow> SegmentAssembler \<Rightarrow>
     AssembledSegment option \<times> SegmentAssembler" where
  "on_audio ip first_sample_index pcm device_ts gap host_rx audio_ref_log a =
     (let ip1 = ip\<lparr>ip_pcm := ip_pcm ip @ pcm,
                   ip_gap_count := (if gap \<noteq> None then ip_gap_count ip + 1 else ip_gap_count ip)\<rparr> in
      if al_max_segment_samples (sa_limits a) \<le> of_nat (length (ip_pcm ip1)) then
        let successor =
              \<lparr>ip_segment_id = ip_segment_id ip1, ip_part = ip_part ip1 + 1,
               ip_base_sample_index = first_sample_index + of_nat (length pcm), ip_preroll_samples = 0,
               ip_base_device_ts = device_ts, ip_first_frame_rx = host_rx, ip_is_resume = False, ip_pcm = [],
               ip_telemetry = [], ip_gap_count = 0\<rparr>;
            end_info = SegmentEndInfo_new CauseHostCapped (ip_is_resume ip1) (ip_gap_count ip1) None
        in (Some (build_segment a ip1 end_info None audio_ref_log), a\<lparr>sa_current := CurOpen successor\<rparr>)
      else (None, a\<lparr>sa_current := CurOpen ip1\<rparr>))"

definition on_telemetry :: "InProgress \<Rightarrow> int \<Rightarrow> TelemetryKind \<Rightarrow> SegmentAssembler \<Rightarrow> SegmentAssembler" where
  "on_telemetry ip sample_offset knd a =
     (if length (ip_telemetry ip) < al_max_telemetry_readings (sa_limits a)
      then a\<lparr>sa_current := CurOpen (ip\<lparr>ip_telemetry := ip_telemetry ip @ [(sample_offset, knd)]\<rparr>)\<rparr>
      else a\<lparr>sa_stats := (sa_stats a)\<lparr>as_telemetry_dropped := as_telemetry_dropped (sa_stats a) + 1\<rparr>\<rparr>)"

definition on_event :: "SessionEvent \<Rightarrow> bytes \<Rightarrow> SegmentAssembler \<Rightarrow> AssembledSegment option \<times> SegmentAssembler" where
  "on_event ev audio_ref_log a =
     (case ev of
        SegmentOpened segment_id base_sample_index preroll_samples base_device_ts is_resume host_rx \<Rightarrow>
          let a1 = (if sa_current a = CurIdle then a else contract_violated a) in
          (None,
           a1\<lparr>sa_current := CurOpen
             \<lparr>ip_segment_id = segment_id, ip_part = 0, ip_base_sample_index = base_sample_index,
              ip_preroll_samples = preroll_samples, ip_base_device_ts = base_device_ts, ip_first_frame_rx = host_rx,
              ip_is_resume = is_resume, ip_pcm = [], ip_telemetry = [], ip_gap_count = 0\<rparr>\<rparr>)
      | EvAudio segment_id first_sample_index pcm device_ts gap host_rx \<Rightarrow>
          (case sa_current a of
             CurOpen ip \<Rightarrow>
               if ip_segment_id ip = segment_id then on_audio ip first_sample_index pcm device_ts gap host_rx audio_ref_log a
               else (None, contract_violated a)
           | CurIdle \<Rightarrow> (None, contract_violated a))
      | EvTelemetry segment_id sample_offset knd _ _ \<Rightarrow>
          (case sa_current a of
             CurOpen ip \<Rightarrow> (None, if ip_segment_id ip = segment_id then on_telemetry ip sample_offset knd a else contract_violated a)
           | CurIdle \<Rightarrow> (None, contract_violated a))
      | SegmentClosed segment_id close host_rx \<Rightarrow>
          (case sa_current a of
             CurOpen ip \<Rightarrow>
               if ip_segment_id ip = segment_id
               then (Some (build_segment a ip (end_info_from_close close (ip_gap_count ip) (ip_is_resume ip)) (Some host_rx) audio_ref_log),
                     a\<lparr>sa_current := CurIdle\<rparr>)
               else (None, contract_violated a)
           | CurIdle \<Rightarrow> (None, contract_violated a))
      | HelloAccepted _ _ \<Rightarrow> (None, a)
      | ProtocolError _ _ _ \<Rightarrow> (None, a))"

text \<open>The events of a run, each with the frame log of that moment.\<close>

fun on_events :: "(SessionEvent \<times> bytes) list \<Rightarrow> SegmentAssembler \<Rightarrow> AssembledSegment list \<times> SegmentAssembler" where
  "on_events [] a = ([], a)"
| "on_events ((ev, log) # rest) a =
     (let (done, a1) = on_event ev log a; (segs, a2) = on_events rest a1
      in ((case done of None \<Rightarrow> [] | Some s \<Rightarrow> [s]) @ segs, a2))"

lemma on_events_append:
  "on_events (xs @ ys) a = (let (s1, a1) = on_events xs a; (s2, a2) = on_events ys a1 in (s1 @ s2, a2))"
  by (induction xs a rule: on_events.induct) (simp_all add: Let_def split: prod.splits)

section \<open>The assembler follows the automaton\<close>

fun open_pcm :: "CurrentSegment \<Rightarrow> i16 list" where
  "open_pcm CurIdle = []"
| "open_pcm (CurOpen ip) = ip_pcm ip"

text \<open>
  The ordering contract between the two: which events may follow when the open segment is \<open>cur\<close>, and
  the segment that is open after them; \<open>None\<close> when an event breaks the contract.
\<close>

fun event_order :: "u32 option \<Rightarrow> SessionEvent \<Rightarrow> u32 option option" where
  "event_order cur (SegmentOpened sid _ _ _ _ _) = (if cur = None then Some (Some sid) else None)"
| "event_order cur (EvAudio sid _ _ _ _ _) = (if cur = Some sid then Some cur else None)"
| "event_order cur (EvTelemetry sid _ _ _ _) = (if cur = Some sid then Some cur else None)"
| "event_order cur (SegmentClosed sid _ _) = (if cur = Some sid then Some None else None)"
| "event_order cur _ = Some cur"

fun events_order :: "u32 option \<Rightarrow> SessionEvent list \<Rightarrow> u32 option option" where
  "events_order cur [] = Some cur"
| "events_order cur (ev # evs) = Option.bind (event_order cur ev) (\<lambda>cur1. events_order cur1 evs)"

lemma events_order_append: "events_order cur (xs @ ys) = Option.bind (events_order cur xs) (\<lambda>cur1. events_order cur1 ys)"
  by (induction xs arbitrary: cur) (auto split: bind_splits)

definition fsm_open :: "SessionFsm \<Rightarrow> u32 option" where
  "fsm_open fsm = (case fsm_state fsm of FsmInSegment seg \<Rightarrow> Some (sgs_segment_id seg) | _ \<Rightarrow> None)"

fun cur_open :: "CurrentSegment \<Rightarrow> u32 option" where
  "cur_open CurIdle = None"
| "cur_open (CurOpen ip) = Some (ip_segment_id ip)"

text \<open>The provider's side: every frame of any peer, and the close.\<close>

lemma feed_ordered:
  assumes "feed frame t fsm l = (fsm', l', evs)"
  shows "events_order (fsm_open fsm) evs = Some (fsm_open fsm')"
  using assms
  by (cases "fsm_state fsm"; cases frame)
    (auto simp: feed_def feed_defs fsm_open_def Let_def split: if_splits prod.splits)

lemma close_ordered:
  assumes "fsm_close cause t fsm l = (fsm', l', evs)"
  shows "events_order (fsm_open fsm) evs = Some None"
  using assms
  by (auto simp: fsm_close_def truncate_open_segment_def fsm_open_def split: FsmState.splits)

lemma feed_all_ordered: "feed_all xs fsm = (fsm', evs) \<Longrightarrow> events_order (fsm_open fsm) evs = Some (fsm_open fsm')"
proof (induction xs arbitrary: fsm evs)
  case (Cons x xs)
  obtain frame t l where x: "x = (frame, t, l)" by (cases x)
  obtain fsm1 l1 out1 where f: "feed frame t fsm l = (fsm1, l1, out1)" by (metis prod_cases3)
  show ?case using Cons feed_ordered [OF f] x f by (auto simp: events_order_append split: prod.splits)
qed simp

text \<open>The client's side.\<close>

lemmas on_event_defs = on_event_def on_audio_def on_telemetry_def build_segment_def contract_violated_def Let_def

lemma on_event_ordered:
  assumes "event_order (cur_open (sa_current a)) ev = Some cur" "on_event ev log a = (fin, a')"
  shows "cur_open (sa_current a') = cur" "as_contract_violations (sa_stats a') = as_contract_violations (sa_stats a)"
    "(case fin of None \<Rightarrow> [] | Some s \<Rightarrow> sg_pcm s) @ open_pcm (sa_current a') = open_pcm (sa_current a) @ event_pcm ev"
    "sa_limits a' = sa_limits a"
  using assms
  by (cases ev; cases "sa_current a"; auto simp: on_event_defs split: if_splits)+

lemma on_events_ordered:
  "events_order (cur_open (sa_current a)) (map fst xs) = Some cur \<Longrightarrow> on_events xs a = (segs, a') \<Longrightarrow>
   cur_open (sa_current a') = cur \<and> as_contract_violations (sa_stats a') = as_contract_violations (sa_stats a) \<and>
   concat (map sg_pcm segs) @ open_pcm (sa_current a') = open_pcm (sa_current a) @ heard_pcm (map fst xs)"
proof (induction xs arbitrary: a segs)
  case (Cons x xs)
  obtain ev log where x: "x = (ev, log)" by fastforce
  obtain fin a1 where f: "on_event ev log a = (fin, a1)" by fastforce
  obtain segs1 where g: "on_events xs a1 = (segs1, a')" using Cons.prems(2) x f by (auto simp: Let_def split: prod.splits)
  obtain cur1 where c: "event_order (cur_open (sa_current a)) ev = Some cur1" "events_order cur1 (map fst xs) = Some cur"
    using Cons.prems(1) x by (auto split: bind_splits)
  note E = on_event_ordered [OF c(1) f]
  have "cur_open (sa_current a') = cur \<and> as_contract_violations (sa_stats a') = as_contract_violations (sa_stats a1) \<and>
      concat (map sg_pcm segs1) @ open_pcm (sa_current a') = open_pcm (sa_current a1) @ heard_pcm (map fst xs)"
    using Cons.IH [OF _ g] c(2) E(1) by simp
  moreover have "segs = (case fin of None \<Rightarrow> [] | Some s \<Rightarrow> [s]) @ segs1" using Cons.prems(2) x f g by simp
  moreover have "(case fin of None \<Rightarrow> [] | Some s \<Rightarrow> sg_pcm s) @ open_pcm (sa_current a1) @ z =
      open_pcm (sa_current a) @ event_pcm ev @ z" for z
    using E(3) by (metis append.assoc)
  ultimately show ?case using E(2) x by (cases fin) simp_all
qed simp

section \<open>Segments of the capture\<close>

text \<open>A part that has audio is a stretch of the capture at its own index.\<close>

definition stretch :: "i16 list \<Rightarrow> u64 \<Rightarrow> i16 list \<Rightarrow> bool" where
  "stretch H base pcm \<longleftrightarrow>
     pcm \<noteq> [] \<longrightarrow> unat base + length pcm \<le> length H \<and> pcm = take (length pcm) (drop (unat base) H)"

text \<open>
  For a peer that leaves no gap: the open segment and the index its next frame has, before and after
  an event.
\<close>

fun event_track :: "(u32 \<times> u64) option \<Rightarrow> SessionEvent \<Rightarrow> (u32 \<times> u64) option option" where
  "event_track cur (SegmentOpened sid base _ _ _ _) = (if cur = None then Some (Some (sid, base)) else None)"
| "event_track cur (EvAudio sid i pcm _ _ _) = (if cur = Some (sid, i) then Some (Some (sid, i + of_nat (length pcm))) else None)"
| "event_track cur (EvTelemetry sid _ _ _ _) = (if map_option fst cur = Some sid then Some cur else None)"
| "event_track cur (SegmentClosed sid _ _) = (if map_option fst cur = Some sid then Some None else None)"
| "event_track cur _ = Some cur"

fun events_track :: "(u32 \<times> u64) option \<Rightarrow> SessionEvent list \<Rightarrow> (u32 \<times> u64) option option" where
  "events_track cur [] = Some cur"
| "events_track cur (ev # evs) = Option.bind (event_track cur ev) (\<lambda>cur1. events_track cur1 evs)"

lemma events_track_append: "events_track cur (xs @ ys) = Option.bind (events_track cur xs) (\<lambda>cur1. events_track cur1 ys)"
  by (induction xs arbitrary: cur) (auto split: bind_splits)

definition fsm_next :: "SessionFsm \<Rightarrow> (u32 \<times> u64) option" where
  "fsm_next fsm =
     (case fsm_state fsm of
        FsmInSegment seg \<Rightarrow> Some (sgs_segment_id seg, sgs_last_index seg + sgs_last_samples seg)
      | _ \<Rightarrow> None)"

fun cur_next :: "CurrentSegment \<Rightarrow> (u32 \<times> u64) option" where
  "cur_next CurIdle = None"
| "cur_next (CurOpen ip) = Some (ip_segment_id ip, ip_base_sample_index ip + of_nat (length (ip_pcm ip)))"

fun cur_stretch :: "i16 list \<Rightarrow> CurrentSegment \<Rightarrow> bool" where
  "cur_stretch H CurIdle = True"
| "cur_stretch H (CurOpen ip) = stretch H (ip_base_sample_index ip) (ip_pcm ip)"

lemma feed_tracked:
  assumes "feed frame t fsm l = (fsm', l', evs)" "fsm_constraint fsm = SPINE_FORMAT" "list_all (event_ok pid H) evs"
  shows "events_track (fsm_next fsm) evs = Some (fsm_next fsm') \<and> fsm_constraint fsm' = SPINE_FORMAT"
  using assms
  by (cases "fsm_state fsm"; cases frame)
    (auto simp: feed_def feed_defs fsm_next_def Let_def event_ok_def u64_checked_add_def SPINE_FORMAT_def split: if_splits prod.splits)

lemma feed_all_tracked:
  "feed_all xs fsm = (fsm', evs) \<Longrightarrow> fsm_constraint fsm = SPINE_FORMAT \<Longrightarrow> list_all (event_ok pid H) evs \<Longrightarrow>
    events_track (fsm_next fsm) evs = Some (fsm_next fsm')"
proof (induction xs arbitrary: fsm evs)
  case (Cons x xs)
  obtain frame t l where x: "x = (frame, t, l)" by (cases x)
  obtain fsm1 l1 out1 where f: "feed frame t fsm l = (fsm1, l1, out1)" by (metis prod_cases3)
  obtain out2 where g: "feed_all xs fsm1 = (fsm', out2)" "evs = out1 @ out2"
    using Cons.prems(1) x f by (auto simp: Let_def split: prod.splits)
  show ?case
    using Cons.IH [OF g(1)] feed_tracked [OF f Cons.prems(2), of pid H] Cons.prems(3) g(2) by (simp add: events_track_append)
qed simp

lemma stretch_append:
  assumes "stretch H base pcm" "i = base + of_nat (length pcm)" "i = of_nat c" "c + length new \<le> length H"
    "new = take (length new) (drop c H)" "length H < 2 ^ 64"
  shows "stretch H base (pcm @ new)"
proof (cases "pcm = []")
  case True
  have "unat (of_nat c :: u64) = c" using assms(4,6) by (simp add: unat_of_nat)
  then show ?thesis using assms True by (simp add: stretch_def)
next
  case False
  then have b: "unat base + length pcm \<le> length H" "pcm = take (length pcm) (drop (unat base) H)" using assms(1) by (auto simp: stretch_def)
  have "unat base + length pcm < 2 ^ 64" using b(1) assms(6) by simp
  then have "unat i = unat base + length pcm" using assms(2) by (simp add: unat_word_ariths unat_of_nat)
  moreover have "unat i = c" using assms(3,4,6) by (simp add: unat_of_nat)
  ultimately have c: "c = unat base + length pcm" by simp
  have "take (length pcm + length new) (drop (unat base) H) =
      take (length pcm) (drop (unat base) H) @ take (length new) (drop c H)"
    by (simp only: c take_add drop_drop add.commute [of "unat base" "length pcm"])
  then show ?thesis using b(2) assms(4,5) c by (simp add: stretch_def)
qed

lemma on_event_tracked:
  assumes "event_track (cur_next (sa_current a)) ev = Some nx" "event_ok pid H ev" "length H < 2 ^ 64" "cur_stretch H (sa_current a)"
    "on_event ev log a = (fin, a')"
  shows "cur_next (sa_current a') = nx \<and> cur_stretch H (sa_current a') \<and>
    (case fin of None \<Rightarrow> True | Some s \<Rightarrow> stretch H (sg_base_sample_index s) (sg_pcm s))"
proof (cases "\<exists>sid i pcm ts gap t. ev = EvAudio sid i pcm ts gap t")
  case True
  then obtain sid i pcm ts gap t where ev: "ev = EvAudio sid i pcm ts gap t" by blast
  obtain ip where ip: "sa_current a = CurOpen ip" "ip_segment_id ip = sid" "i = ip_base_sample_index ip + of_nat (length (ip_pcm ip))"
      "nx = Some (sid, i + of_nat (length pcm))"
    using assms(1) ev by (cases "sa_current a") (auto split: if_splits)
  obtain c where c: "i = of_nat c" "c + length pcm \<le> length H" "pcm = take (length pcm) (drop c H)"
    using assms(2) ev by (auto simp: event_ok_def)
  have "stretch H (ip_base_sample_index ip) (ip_pcm ip @ pcm)"
    using stretch_append [OF _ ip(3) c assms(3)] assms(4) ip(1) by simp
  then show ?thesis
    using assms(5) ev ip by (auto simp: on_event_def on_audio_def build_segment_def stretch_def Let_def add.assoc split: if_splits)
next
  case False
  then show ?thesis
    using assms(1,4,5) by (cases ev; cases "sa_current a") (auto simp: on_event_defs stretch_def split: if_splits)
qed

lemma on_events_tracked:
  "events_track (cur_next (sa_current a)) (map fst xs) = Some nx \<Longrightarrow> list_all (event_ok pid H) (map fst xs) \<Longrightarrow> length H < 2 ^ 64 \<Longrightarrow>
   cur_stretch H (sa_current a) \<Longrightarrow> on_events xs a = (segs, a') \<Longrightarrow>
   cur_stretch H (sa_current a') \<and> (\<forall>s \<in> set segs. stretch H (sg_base_sample_index s) (sg_pcm s))"
proof (induction xs arbitrary: a segs)
  case (Cons x xs)
  obtain ev log where x: "x = (ev, log)" by fastforce
  obtain fin a1 where f: "on_event ev log a = (fin, a1)" by fastforce
  obtain segs1 where g: "on_events xs a1 = (segs1, a')" "segs = (case fin of None \<Rightarrow> [] | Some s \<Rightarrow> [s]) @ segs1"
    using Cons.prems(5) x f by (auto simp: Let_def split: prod.splits)
  obtain nx1 where c: "event_track (cur_next (sa_current a)) ev = Some nx1" "events_track nx1 (map fst xs) = Some nx"
    using Cons.prems(1) x by (auto split: bind_splits)
  have ok: "event_ok pid H ev" "list_all (event_ok pid H) (map fst xs)" using Cons.prems(2) x by simp_all
  note E = on_event_tracked [OF c(1) ok(1) Cons.prems(3,4) f]
  show ?case using Cons.IH [OF _ ok(2) Cons.prems(3) _ g(1)] c(2) E g(2) by (auto split: option.splits)
qed simp

end
