(* ===== verification/Sidecar.thy ===== *)
theory Sidecar
  imports Assembler
begin

text \<open>
  The record store's sidecars: the small JSON file beside each frame log that carries the labels of
  its segments and the pin flag, from \<^verbatim>\<open>host/crates/speech-surface/src/recorder.rs\<close>. The daemon
  rewrites a sidecar at every segment, the \<^verbatim>\<open>pin\<close> command and the wake labels rewrite it out of band, and the pruner
  deletes it; each of them holds the lock of the store directory from its read to its last write.

  A file of the store is its directory and its name. The file system is an environment whose
  operations may fail; \<^verbatim>\<open>serde_json\<close> is a parameter. An operation under the store lock is one step, so what other
  processes do while it waits for the lock happens before it.

  The lemmas: no rewrite clears a pin that is on disk, whatever is in memory, and a label found on disk
  survives a rewrite whose own copy is still unlabelled.
\<close>

section \<open>Names\<close>

definition ascii :: "string \<Rightarrow> bytes" where
  "ascii s = map of_char s"

type_synonym store_file = "path \<times> bytes"

definition full_path :: "store_file \<Rightarrow> path" where
  "full_path f = path_join (fst f) (snd f)"

text \<open>\<open>file_stem\<close> and \<open>extension\<close> of a file name: split at its last dot, unless that is the first byte.\<close>

definition split_name :: "bytes \<Rightarrow> bytes \<times> bytes option" where
  "split_name n =
     (let before = dropWhile (\<lambda>b. b \<noteq> 46) (rev n) in
      if before = [] \<or> before = [46] \<or> n = [46, 46] then (n, None)
      else (rev (tl before), Some (rev (takeWhile (\<lambda>b. b \<noteq> 46) (rev n)))))"

definition sidecar_path :: "store_file \<Rightarrow> store_file" where
  "sidecar_path framelog = (fst framelog, fst (split_name (snd framelog)) @ ascii ''.sidecar.json'')"

definition tmp_path :: "store_file \<Rightarrow> store_file" where
  "tmp_path f = (fst f, snd f @ ascii ''.tmp'')"

section \<open>Data\<close>

definition SIDECAR_FORMAT_VERSION :: u16 where "SIDECAR_FORMAT_VERSION = 1"
definition UNKNOWN_POD :: bytes where "UNKNOWN_POD = ascii ''UNKNOWN_POD''"

datatype WakeClass = WakeUngated | WakePositive | WakeNegative | WakeUnknown

datatype SidecarError = ScNotFound store_file | ScIo path io_error | ScParse store_file

record SidecarSegment =
  sds_segment_id :: u32
  sds_part :: u16
  sds_wake :: WakeClass
  sds_start_epoch_us :: u64
  sds_end_epoch_us :: u64
  sds_end_cause :: SegmentEndCause
  sds_truncated :: bool
  sds_resumed :: bool
  sds_gap_count :: u32
  sds_samples :: u64

record Sidecar =
  sd_format_version :: u16
  sd_pod_id :: bytes
  sd_pinned :: bool
  sd_segments :: "SidecarSegment list"

record MergeSegment =
  ms_segment_id :: u32
  ms_part :: u16
  ms_wake :: WakeClass

record MergeView =
  mv_pinned :: bool
  mv_segments :: "MergeSegment list"

record sidecar_codec =
  sk_to_vec_pretty :: "Sidecar \<Rightarrow> bytes option"
  sk_from_slice :: "bytes \<Rightarrow> Sidecar option"
  sk_merge_from_slice :: "bytes \<Rightarrow> MergeView option"

text \<open>A host-capped segment has no end stamp; its start stands in.\<close>

definition from_segment :: "AssembledSegment \<Rightarrow> SidecarSegment" where
  "from_segment seg =
     (let start = hm_us (sg_host_rx seg) in
      \<lparr>sds_segment_id = sg_segment_id seg, sds_part = sref_part (sg_audio_ref seg), sds_wake = WakeUngated,
       sds_start_epoch_us = start,
       sds_end_epoch_us = (case stt_segment_end_rx (sg_timings seg) of Some h \<Rightarrow> hm_us h | None \<Rightarrow> start),
       sds_end_cause = sei_cause (sg_end seg), sds_truncated = sei_truncated (sg_end seg), sds_resumed = sei_resumed (sg_end seg),
       sds_gap_count = sei_gap_count (sg_end seg), sds_samples = of_nat (length (sg_pcm seg))\<rparr>)"

definition Sidecar_new :: "bytes \<Rightarrow> Sidecar" where
  "Sidecar_new pod_id =
     \<lparr>sd_format_version = SIDECAR_FORMAT_VERSION, sd_pod_id = pod_id, sd_pinned = False, sd_segments = []\<rparr>"

definition sidecar_push :: "SidecarSegment \<Rightarrow> Sidecar \<Rightarrow> Sidecar" where
  "sidecar_push segment sc = sc\<lparr>sd_segments := sd_segments sc @ [segment]\<rparr>"

section \<open>The store\<close>

record 'e store_env =
  se_files :: "'e file_env"
  se_create_dir_all :: "path \<Rightarrow> 'e \<Rightarrow> io_error option \<times> 'e"
  se_lock :: "path \<Rightarrow> 'e \<Rightarrow> io_error option \<times> 'e"
  se_read :: "path \<Rightarrow> 'e \<Rightarrow> (io_error + bytes) \<times> 'e"
  se_write :: "path \<Rightarrow> bytes \<Rightarrow> 'e \<Rightarrow> io_error option \<times> 'e"
  se_remove_file :: "path \<Rightarrow> 'e \<Rightarrow> io_error option \<times> 'e"
  se_metadata :: "path \<Rightarrow> 'e \<Rightarrow> (io_error + nat) \<times> 'e"
  se_read_dir :: "path \<Rightarrow> 'e \<Rightarrow> (io_error + (io_error + bytes) list) \<times> 'e"
  se_now :: "'e \<Rightarrow> HostMicros \<times> 'e"

definition sidecar_read ::
  "'e store_env \<Rightarrow> sidecar_codec \<Rightarrow> store_file \<Rightarrow> 'e \<Rightarrow> (SidecarError + Sidecar) \<times> 'e" where
  "sidecar_read env ck path e =
     (case se_read env (full_path path) e of
        (Inl err, e1) \<Rightarrow> (Inl (if kind err = NotFoundKind then ScNotFound path else ScIo (full_path path) err), e1)
      | (Inr bytes, e1) \<Rightarrow> (case sk_from_slice ck bytes of None \<Rightarrow> Inl (ScParse path) | Some s \<Rightarrow> Inr s, e1))"

definition read_merge_view ::
  "'e store_env \<Rightarrow> sidecar_codec \<Rightarrow> store_file \<Rightarrow> 'e \<Rightarrow> (SidecarError + MergeView) \<times> 'e" where
  "read_merge_view env ck path e =
     (case se_read env (full_path path) e of
        (Inl err, e1) \<Rightarrow>
          (if kind err = NotFoundKind then Inr \<lparr>mv_pinned = False, mv_segments = []\<rparr> else Inl (ScIo (full_path path) err), e1)
      | (Inr bytes, e1) \<Rightarrow> (case sk_merge_from_slice ck bytes of None \<Rightarrow> Inl (ScParse path) | Some v \<Rightarrow> Inr v, e1))"

definition store_lock_for :: "'e store_env \<Rightarrow> store_file \<Rightarrow> 'e \<Rightarrow> SidecarError option \<times> 'e" where
  "store_lock_for env path e =
     (let dir = (if fst path = [] then [46] else fst path) in
      case se_lock env dir e of
        (None, e1) \<Rightarrow> (None, e1)
      | (Some err, e1) \<Rightarrow> (Some (ScIo dir err), e1))"

text \<open>The entry with this id and part, the first one, takes the label if it has none.\<close>

fun carry_label :: "MergeSegment \<Rightarrow> SidecarSegment list \<Rightarrow> SidecarSegment list" where
  "carry_label d [] = []"
| "carry_label d (s # ss) =
     (if sds_segment_id s = ms_segment_id d \<and> sds_part s = ms_part d
      then (if sds_wake s = WakeUngated then s\<lparr>sds_wake := ms_wake d\<rparr> else s) # ss
      else s # carry_label d ss)"

fun carry_forward :: "MergeSegment list \<Rightarrow> SidecarSegment list \<Rightarrow> SidecarSegment list" where
  "carry_forward [] ss = ss"
| "carry_forward (d # ds) ss = carry_forward ds (if ms_wake d = WakeUngated then ss else carry_label d ss)"

definition write_within_lock ::
  "'e store_env \<Rightarrow> sidecar_codec \<Rightarrow> store_file \<Rightarrow> Sidecar \<Rightarrow> 'e \<Rightarrow> SidecarError option \<times> Sidecar \<times> 'e" where
  "write_within_lock env ck path sc e =
     (case read_merge_view env ck path e of
        (Inl err, e1) \<Rightarrow> (Some err, sc, e1)
      | (Inr disk, e1) \<Rightarrow>
          let sc1 = sc\<lparr>sd_pinned := sd_pinned sc \<or> mv_pinned disk,
                       sd_segments := carry_forward (mv_segments disk) (sd_segments sc)\<rparr> in
          (case sk_to_vec_pretty ck sc1 of
             None \<Rightarrow> (Some (ScParse path), sc1, e1)
           | Some json \<Rightarrow>
               (case se_write env (full_path (tmp_path path)) json e1 of
                  (Some err, e2) \<Rightarrow> (Some (ScIo (full_path path) err), sc1, e2)
                | (None, e2) \<Rightarrow>
                    (case fe_rename (se_files env) (full_path (tmp_path path)) (full_path path) e2 of
                       (Some err, e3) \<Rightarrow> (Some (ScIo (full_path path) err), sc1, e3)
                     | (None, e3) \<Rightarrow> (None, sc1, e3)))))"

definition write_atomic ::
  "'e store_env \<Rightarrow> sidecar_codec \<Rightarrow> store_file \<Rightarrow> Sidecar \<Rightarrow> 'e \<Rightarrow> SidecarError option \<times> Sidecar \<times> 'e" where
  "write_atomic env ck path sc e =
     (case store_lock_for env path e of
        (Some err, e1) \<Rightarrow> (Some err, sc, e1)
      | (None, e1) \<Rightarrow> write_within_lock env ck path sc e1)"

definition set_pinned :: "'e store_env \<Rightarrow> sidecar_codec \<Rightarrow> store_file \<Rightarrow> 'e \<Rightarrow> SidecarError option \<times> 'e" where
  "set_pinned env ck path e =
     (case store_lock_for env path e of
        (Some err, e1) \<Rightarrow> (Some err, e1)
      | (None, e1) \<Rightarrow>
          (case (case sidecar_read env ck path e1 of
                   (Inr existing, e2) \<Rightarrow> (Inr existing, e2)
                 | (Inl (ScNotFound _), e2) \<Rightarrow> (Inr (Sidecar_new UNKNOWN_POD), e2)
                 | (Inl err, e2) \<Rightarrow> (Inl err, e2)) of
             (Inl err, e2) \<Rightarrow> (Some err, e2)
           | (Inr sidecar, e2) \<Rightarrow>
               (case write_within_lock env ck path (sidecar\<lparr>sd_pinned := True\<rparr>) e2 of (res, _, e3) \<Rightarrow> (res, e3))))"

datatype WakeClassUpdate = WcUpdated | WcNoSidecar | WcNoSuchSegment

fun set_label :: "u32 \<Rightarrow> u16 \<Rightarrow> WakeClass \<Rightarrow> SidecarSegment list \<Rightarrow> SidecarSegment list option" where
  "set_label segment_id part wake [] = None"
| "set_label segment_id part wake (s # ss) =
     (if sds_segment_id s = segment_id \<and> sds_part s = part then Some (s\<lparr>sds_wake := wake\<rparr> # ss)
      else map_option (Cons s) (set_label segment_id part wake ss))"

definition set_wake_class ::
  "'e store_env \<Rightarrow> sidecar_codec \<Rightarrow> store_file \<Rightarrow> u32 \<Rightarrow> u16 \<Rightarrow> WakeClass \<Rightarrow> 'e \<Rightarrow> (SidecarError + WakeClassUpdate) \<times> 'e" where
  "set_wake_class env ck path segment_id part wake e =
     (case store_lock_for env path e of
        (Some (ScIo p err), e1) \<Rightarrow> (if kind err = NotFoundKind then Inr WcNoSidecar else Inl (ScIo p err), e1)
      | (Some err, e1) \<Rightarrow> (Inl err, e1)
      | (None, e1) \<Rightarrow>
          (case sidecar_read env ck path e1 of
             (Inl (ScNotFound _), e2) \<Rightarrow> (Inr WcNoSidecar, e2)
           | (Inl err, e2) \<Rightarrow> (Inl err, e2)
           | (Inr sidecar, e2) \<Rightarrow>
               (case set_label segment_id part wake (sd_segments sidecar) of
                  None \<Rightarrow> (Inr WcNoSuchSegment, e2)
                | Some segments \<Rightarrow>
                    (case write_within_lock env ck path (sidecar\<lparr>sd_segments := segments\<rparr>) e2 of
                       (Some err, _, e3) \<Rightarrow> (Inl err, e3)
                     | (None, _, e3) \<Rightarrow> (Inr WcUpdated, e3)))))"

section \<open>What a rewrite keeps\<close>

text \<open>
  \<open>disk\<close>: the content of the files. A failed write may leave anything in the file it wrote, never elsewhere; a
  rename replaces its target, in one step.
\<close>

definition disk_ok :: "'e store_env \<Rightarrow> ('e \<Rightarrow> path \<rightharpoonup> bytes) \<Rightarrow> bool" where
  "disk_ok env disk \<longleftrightarrow>
     (\<forall>d e r e'. se_lock env d e = (r, e') \<longrightarrow> disk e' = disk e) \<and>
     (\<forall>p e r e'. se_read env p e = (r, e') \<longrightarrow> disk e' = disk e \<and>
        (case r of Inr bs \<Rightarrow> disk e p = Some bs | Inl err \<Rightarrow> kind err = NotFoundKind \<longrightarrow> disk e p = None)) \<and>
     (\<forall>p bs e r e'. se_write env p bs e = (r, e') \<longrightarrow>
        (\<forall>q. q \<noteq> p \<longrightarrow> disk e' q = disk e q) \<and> (r = None \<longrightarrow> disk e' p = Some bs)) \<and>
     (\<forall>p q e r e'. fe_rename (se_files env) p q e = (r, e') \<longrightarrow>
        (if r = None then (\<exists>bs. disk e p = Some bs \<and> disk e' = (disk e)(p := None, q := Some bs)) else disk e' = disk e)) \<and>
     (\<forall>p e r e'. se_remove_file env p e = (r, e') \<longrightarrow> disk e' = (if r = None then (disk e)(p := None) else disk e)) \<and>
     (\<forall>p e r e'. se_metadata env p e = (r, e') \<longrightarrow> disk e' = disk e) \<and>
     (\<forall>p e r e'. se_read_dir env p e = (r, e') \<longrightarrow> disk e' = disk e)"

definition merge_view_of :: "Sidecar \<Rightarrow> MergeView" where
  "merge_view_of s =
     \<lparr>mv_pinned = sd_pinned s,
      mv_segments = map (\<lambda>x. \<lparr>ms_segment_id = sds_segment_id x, ms_part = sds_part x, ms_wake = sds_wake x\<rparr>) (sd_segments s)\<rparr>"

text \<open>A written sidecar reads back, and the view reads the fields it names.\<close>

definition sidecar_codec_ok :: "sidecar_codec \<Rightarrow> bool" where
  "sidecar_codec_ok ck \<longleftrightarrow>
     (\<forall>s bs. sk_to_vec_pretty ck s = Some bs \<longrightarrow> sk_from_slice ck bs = Some s) \<and>
     (\<forall>bs s. sk_from_slice ck bs = Some s \<longrightarrow> sk_merge_from_slice ck bs = Some (merge_view_of s))"

lemma disk_okD:
  assumes "disk_ok env disk"
  shows "se_lock env d e = (lr, e') \<Longrightarrow> disk e' = disk e"
    "se_read env p e = (r, e') \<Longrightarrow> disk e' = disk e"
    "se_read env p e = (Inr bs, e') \<Longrightarrow> disk e p = Some bs"
    "se_read env p e = (Inl err, e') \<Longrightarrow> kind err = NotFoundKind \<Longrightarrow> disk e p = None"
    "se_write env p bs e = (wr, e') \<Longrightarrow> q \<noteq> p \<Longrightarrow> disk e' q = disk e q"
    "se_write env p bs e = (None, e') \<Longrightarrow> disk e' p = Some bs"
    "fe_rename (se_files env) p q e = (wr, e') \<Longrightarrow>
       if wr = None then \<exists>bs. disk e p = Some bs \<and> disk e' = (disk e)(p := None, q := Some bs) else disk e' = disk e"
    "se_remove_file env p e = (wr, e') \<Longrightarrow> disk e' = (if wr = None then (disk e)(p := None) else disk e)"
    "se_metadata env p e = (md, e') \<Longrightarrow> disk e' = disk e"
    "se_read_dir env p e = (rdir, e') \<Longrightarrow> disk e' = disk e"
proof -
  note D = assms [unfolded disk_ok_def]
  have rd: "disk e' = disk e \<and> (case r of Inr bs \<Rightarrow> disk e p = Some bs | Inl err \<Rightarrow> kind err = NotFoundKind \<longrightarrow> disk e p = None)"
    if "se_read env p e = (r, e')" for r using D [THEN conjunct2, THEN conjunct1] that by blast
  have wt: "(\<forall>q. q \<noteq> p \<longrightarrow> disk e' q = disk e q) \<and> (wr = None \<longrightarrow> disk e' p = Some bs)"
    if "se_write env p bs e = (wr, e')" for wr using D [THEN conjunct2, THEN conjunct2, THEN conjunct1] that by blast
  show "se_lock env d e = (lr, e') \<Longrightarrow> disk e' = disk e" using D [THEN conjunct1] by blast
  show "se_read env p e = (r, e') \<Longrightarrow> disk e' = disk e" using rd by blast
  show "se_read env p e = (Inr bs, e') \<Longrightarrow> disk e p = Some bs" using rd [of "Inr bs"] by simp
  show "se_read env p e = (Inl err, e') \<Longrightarrow> kind err = NotFoundKind \<Longrightarrow> disk e p = None" using rd [of "Inl err"] by simp
  show "se_write env p bs e = (wr, e') \<Longrightarrow> q \<noteq> p \<Longrightarrow> disk e' q = disk e q" using wt by blast
  show "se_write env p bs e = (None, e') \<Longrightarrow> disk e' p = Some bs" using wt by blast
  show "fe_rename (se_files env) p q e = (wr, e') \<Longrightarrow>
       if wr = None then \<exists>bs. disk e p = Some bs \<and> disk e' = (disk e)(p := None, q := Some bs) else disk e' = disk e"
    using D [THEN conjunct2, THEN conjunct2, THEN conjunct2, THEN conjunct1] by blast
  show "se_remove_file env p e = (wr, e') \<Longrightarrow> disk e' = (if wr = None then (disk e)(p := None) else disk e)"
    using D [THEN conjunct2, THEN conjunct2, THEN conjunct2, THEN conjunct2, THEN conjunct1] by blast
  show "se_metadata env p e = (md, e') \<Longrightarrow> disk e' = disk e" using D [THEN conjunct2, THEN conjunct2, THEN conjunct2, THEN conjunct2, THEN conjunct2, THEN conjunct1] by blast
  show "se_read_dir env p e = (rdir, e') \<Longrightarrow> disk e' = disk e" using D [THEN conjunct2, THEN conjunct2, THEN conjunct2, THEN conjunct2, THEN conjunct2, THEN conjunct2] by blast
qed

text \<open>The sidecar file at \<open>f\<close> can be read and satisfies \<open>P\<close>.\<close>

definition sidecar_at :: "sidecar_codec \<Rightarrow> ('e \<Rightarrow> path \<rightharpoonup> bytes) \<Rightarrow> store_file \<Rightarrow> (Sidecar \<Rightarrow> bool) \<Rightarrow> 'e \<Rightarrow> bool" where
  "sidecar_at ck disk f P e \<longleftrightarrow> (\<exists>bs s. disk e (full_path f) = Some bs \<and> sk_from_slice ck bs = Some s \<and> P s)"

definition is_sidecar :: "store_file \<Rightarrow> bool" where
  "is_sidecar f \<longleftrightarrow> suffix (ascii ''.json'') (snd f)"

lemma suffix_full_path: "suffix (snd f) (full_path f)"
  by (auto simp: full_path_def path_join_def suffix_def)

lemma is_sidecar_path: "is_sidecar (sidecar_path f)"
  by (auto simp: is_sidecar_def sidecar_path_def ascii_def suffix_def)

lemma tmp_not_sidecar:
  assumes "is_sidecar f"
  shows "full_path (tmp_path g) \<noteq> full_path f"
proof
  assume eq: "full_path (tmp_path g) = full_path f"
  have "suffix (ascii ''.tmp'') (full_path (tmp_path g))"
    using suffix_full_path [of "tmp_path g"] by (auto simp: tmp_path_def suffix_def)
  moreover have "suffix (ascii ''.json'') (full_path f)"
    using assms suffix_full_path [of f] suffix_order.trans unfolding is_sidecar_def by blast
  ultimately show False unfolding eq by (auto simp: ascii_def suffix_def)
qed

lemma read_merge_view_disk:
  assumes d: "disk_ok env disk" and c: "sidecar_codec_ok ck" and r: "read_merge_view env ck path e = (r, e')"
  shows "disk e' = disk e" "r = Inr view \<Longrightarrow> disk e (full_path path) = Some old \<Longrightarrow> sk_from_slice ck old = Some s \<Longrightarrow> view = merge_view_of s"
proof -
  obtain x where x: "se_read env (full_path path) e = (x, e')"
    using r by (auto simp: read_merge_view_def split: prod.splits sum.splits)
  show "disk e' = disk e" by (rule disk_okD(2) [OF d x])
  show "view = merge_view_of s" if r': "r = Inr view" and o: "disk e (full_path path) = Some old" "sk_from_slice ck old = Some s"
  proof (cases x)
    case (Inl err)
    then show ?thesis using r r' x o(1) disk_okD(4) [OF d] by (auto simp: read_merge_view_def split: if_splits)
  next
    case (Inr bs)
    then have "bs = old" using disk_okD(3) [OF d] x o(1) by auto
    then show ?thesis using r r' x Inr o(2) c by (auto simp: read_merge_view_def sidecar_codec_ok_def)
  qed
qed

text \<open>Writing the temporary file and renaming it changes, among the sidecars, exactly the target, and only when both succeed.\<close>

lemma replace_disk:
  assumes d: "disk_ok env disk" and f: "is_sidecar f" and w: "se_write env (full_path (tmp_path path)) json e = (wr, e1)"
  shows "disk e1 (full_path f) = disk e (full_path f)"
    "wr = None \<Longrightarrow> fe_rename (se_files env) (full_path (tmp_path path)) (full_path path) e1 = (mv, e2) \<Longrightarrow>
      disk e2 (full_path f) = (if mv = None \<and> full_path f = full_path path then Some json else disk e (full_path f))"
proof -
  note ne = tmp_not_sidecar [OF f, of path]
  show same: "disk e1 (full_path f) = disk e (full_path f)" using disk_okD(5) [OF d w] ne by metis
  show "disk e2 (full_path f) = (if mv = None \<and> full_path f = full_path path then Some json else disk e (full_path f))"
    if "wr = None" and mv: "fe_rename (se_files env) (full_path (tmp_path path)) (full_path path) e1 = (mv, e2)"
    using disk_okD(6) [OF d, of "full_path (tmp_path path)" json e e1] disk_okD(7) [OF d mv] that w same ne
    by (auto split: if_splits)
qed

text \<open>What \<open>write_within_lock\<close> leaves: the merged sidecar at its own path, or everything as it was.\<close>

lemma write_within_lock_disk:
  assumes d: "disk_ok env disk" and c: "sidecar_codec_ok ck" and f: "is_sidecar f"
    and w: "write_within_lock env ck path sc e = (res, sc', e')"
  shows "disk e' (full_path f) = disk e (full_path f) \<or>
    full_path f = full_path path \<and>
    (\<exists>view bs. disk e' (full_path f) = Some bs \<and> sk_from_slice ck bs = Some sc' \<and>
       (\<forall>old s. disk e (full_path f) = Some old \<and> sk_from_slice ck old = Some s \<longrightarrow> view = merge_view_of s) \<and>
       sc' = sc\<lparr>sd_pinned := sd_pinned sc \<or> mv_pinned view, sd_segments := carry_forward (mv_segments view) (sd_segments sc)\<rparr>)"
proof (cases "read_merge_view env ck path e")
  case (Pair r e1)
  note r = read_merge_view_disk [OF d c Pair]
  show ?thesis
  proof (cases r)
    case (Inl err)
    then show ?thesis using w Pair r(1) by (auto simp: write_within_lock_def)
  next
    case (Inr view)
    define sc1 where "sc1 = sc\<lparr>sd_pinned := sd_pinned sc \<or> mv_pinned view,
      sd_segments := carry_forward (mv_segments view) (sd_segments sc)\<rparr>"
    show ?thesis
    proof (cases "sk_to_vec_pretty ck sc1")
      case None
      then show ?thesis using w Pair r(1) Inr by (auto simp: write_within_lock_def Let_def sc1_def)
    next
      case (Some json)
      obtain wr e2 where wr: "se_write env (full_path (tmp_path path)) json e1 = (wr, e2)" by fastforce
      obtain mv e3 where mv: "fe_rename (se_files env) (full_path (tmp_path path)) (full_path path) e2 = (mv, e3)" by fastforce
      have res: "sc' = sc1" "e' = (if wr = None then e3 else e2)"
        using w Pair wr mv Inr Some [unfolded sc1_def] by (auto simp: write_within_lock_def Let_def sc1_def split: option.splits)
      have "sk_from_slice ck json = Some sc1" using c Some unfolding sidecar_codec_ok_def by blast
      then show ?thesis
        using res replace_disk [OF d f wr] mv r Inr unfolding sc1_def by (cases "full_path f = full_path path"; cases wr; cases mv) auto
    qed
  qed
qed

lemma write_within_lock_pinned:
  assumes "disk_ok env disk" "sidecar_codec_ok ck" "is_sidecar f" "write_within_lock env ck path sc e = (res, sc', e')"
    "sidecar_at ck disk f sd_pinned e"
  shows "sidecar_at ck disk f sd_pinned e'"
  using write_within_lock_disk [OF assms(1-4)] assms(5) by (fastforce simp: sidecar_at_def merge_view_of_def)

text \<open>The three rewrites, under their lock.\<close>

lemma rewrites_keep_pin:
  assumes laws: "disk_ok env disk" "sidecar_codec_ok ck" "is_sidecar f" and pin: "sidecar_at ck disk f sd_pinned e"
  shows "write_atomic env ck path sc e = (res, sc', e') \<Longrightarrow> sidecar_at ck disk f sd_pinned e'"
    "set_pinned env ck path e = (res, e') \<Longrightarrow> sidecar_at ck disk f sd_pinned e'"
    "set_wake_class env ck path sid part wake e = (upd, e') \<Longrightarrow> sidecar_at ck disk f sd_pinned e'"
proof -
  obtain lk e1 where l: "store_lock_for env path e = (lk, e1)" by fastforce
  have d1: "disk e1 = disk e" using l disk_okD(1) [OF laws(1)] by (auto simp: store_lock_for_def Let_def split: prod.splits option.splits)
  obtain r e2 where r: "sidecar_read env ck path e1 = (r, e2)" by fastforce
  have d2: "disk e2 = disk e" using r d1 disk_okD(2) [OF laws(1)] by (auto simp: sidecar_read_def split: prod.splits sum.splits)
  have p: "sidecar_at ck disk f sd_pinned e1" "sidecar_at ck disk f sd_pinned e2" using pin d1 d2 by (simp_all add: sidecar_at_def)
  note W = write_within_lock_pinned [OF laws]
  show "write_atomic env ck path sc e = (res, sc', e') \<Longrightarrow> sidecar_at ck disk f sd_pinned e'"
    using l p W by (auto simp: write_atomic_def split: option.splits)
  show "set_pinned env ck path e = (res, e') \<Longrightarrow> sidecar_at ck disk f sd_pinned e'"
    using l r p W by (auto simp: set_pinned_def split: option.splits sum.splits SidecarError.splits prod.splits)
  show "set_wake_class env ck path sid part wake e = (upd, e') \<Longrightarrow> sidecar_at ck disk f sd_pinned e'"
    using l r p W by (auto simp: set_wake_class_def split: option.splits sum.splits SidecarError.splits prod.splits if_splits)
qed

text \<open>A label on disk reaches the entry in memory that has none.\<close>

lemma carry_label_lookup:
  "find (\<lambda>s. sds_segment_id s = i \<and> sds_part s = q) (carry_label d ss) =
   map_option (\<lambda>s. if ms_segment_id d = i \<and> ms_part d = q \<and> sds_wake s = WakeUngated then s\<lparr>sds_wake := ms_wake d\<rparr> else s)
     (find (\<lambda>s. sds_segment_id s = i \<and> sds_part s = q) ss)"
  by (induction d ss rule: carry_label.induct) (auto simp: option.map_ident)

section \<open>Names in one store\<close>

text \<open>A frame log of the store \<open>d\<close>: a plain name with the extension \<open>framelog\<close>.\<close>

definition plain :: "bytes \<Rightarrow> bool" where
  "plain n \<longleftrightarrow> n \<noteq> [] \<and> hd n \<noteq> 47"

definition log_file :: "path \<Rightarrow> store_file \<Rightarrow> bool" where
  "log_file d f \<longleftrightarrow> fst f = d \<and> plain (snd f) \<and> snd (split_name (snd f)) = Some (ascii ''framelog'')"

lemma split_nameD:
  assumes "snd (split_name n) = Some x"
  shows "n = fst (split_name n) @ 46 # x" "fst (split_name n) \<noteq> []"
proof -
  define r where "r = rev n"
  define before where "before = dropWhile (\<lambda>b. b \<noteq> 46) r"
  have b: "before \<noteq> []" "before \<noteq> [46]" "fst (split_name n) = rev (tl before)" "x = rev (takeWhile (\<lambda>b. b \<noteq> 46) r)"
    using assms by (auto simp: split_name_def Let_def before_def r_def split: if_splits)
  have "hd before = 46" using b(1) hd_dropWhile [of "\<lambda>b. b \<noteq> 46" r] by (auto simp: before_def)
  then have before: "before = 46 # tl before" using b(1) by (metis list.collapse)
  have "r = takeWhile (\<lambda>b. b \<noteq> 46) r @ 46 # tl before" using takeWhile_dropWhile_id [of "\<lambda>b. b \<noteq> 46" r] before by (metis before_def)
  then show "n = fst (split_name n) @ 46 # x" using b(3,4) unfolding r_def by (metis append.assoc append_Cons append_Nil rev.simps(2) rev_append rev_rev_ident)
  show "fst (split_name n) \<noteq> []" using b(2,3) before by (metis rev_is_Nil_conv)
qed

lemma path_join_inj: "plain n \<Longrightarrow> plain m \<Longrightarrow> path_join d n = path_join d m \<longleftrightarrow> n = m"
  by (auto simp: path_join_def plain_def)

lemma full_path_log_inj: "log_file d f \<Longrightarrow> log_file d g \<Longrightarrow> full_path f = full_path g \<longleftrightarrow> f = g"
  by (cases f; cases g) (auto simp: log_file_def full_path_def path_join_inj)

lemma plain_append: "plain n \<Longrightarrow> plain (n @ m)"
  by (cases n) (auto simp: plain_def)

lemma log_file_stem:
  assumes "log_file d f"
  shows "snd f = fst (split_name (snd f)) @ ascii ''.framelog''" "plain (fst (split_name (snd f)))"
proof -
  have n: "snd f = fst (split_name (snd f)) @ 46 # ascii ''framelog''" "fst (split_name (snd f)) \<noteq> []"
    using split_nameD [of "snd f"] assms by (auto simp: log_file_def)
  show "snd f = fst (split_name (snd f)) @ ascii ''.framelog''" using n(1) by (simp add: ascii_def)
  have "hd (snd f) = hd (fst (split_name (snd f)))" using n by (metis hd_append2)
  then show "plain (fst (split_name (snd f)))" using n(2) assms by (simp add: plain_def log_file_def)
qed

lemma sidecar_path_inj:
  assumes "log_file d f" "log_file d g"
  shows "full_path (sidecar_path f) = full_path (sidecar_path g) \<longleftrightarrow> f = g"
proof
  assume "full_path (sidecar_path f) = full_path (sidecar_path g)"
  then have "fst (split_name (snd f)) = fst (split_name (snd g))"
    using assms log_file_stem(2) [OF assms(1)] log_file_stem(2) [OF assms(2)]
    by (simp add: full_path_def sidecar_path_def log_file_def path_join_inj plain_append)
  then have "snd f = snd g" using log_file_stem(1) [OF assms(1)] log_file_stem(1) [OF assms(2)] by metis
  then show "f = g" using assms by (simp add: log_file_def prod_eq_iff)
qed simp

lemma log_not_other:
  assumes "log_file d f"
  shows "full_path (sidecar_path g) \<noteq> full_path f" "full_path (tmp_path h) \<noteq> full_path f"
proof -
  have "suffix (ascii ''.framelog'') (snd f)" unfolding suffix_def by (rule exI, rule log_file_stem(1) [OF assms])
  then have f: "suffix (ascii ''.framelog'') (full_path f)" using suffix_full_path [of f] by (rule suffix_order.trans)
  have "suffix (ascii ''.json'') (full_path (sidecar_path g))"
    using is_sidecar_path [of g] suffix_full_path [of "sidecar_path g"] suffix_order.trans unfolding is_sidecar_def by blast
  then show "full_path (sidecar_path g) \<noteq> full_path f" using f by (auto simp: ascii_def suffix_def)
  have "suffix (ascii ''.tmp'') (full_path (tmp_path h))"
    using suffix_full_path [of "tmp_path h"] by (auto simp: tmp_path_def suffix_def)
  then show "full_path (tmp_path h) \<noteq> full_path f" using f by (auto simp: ascii_def suffix_def)
qed

text \<open>A rewrite of a sidecar leaves every frame log alone.\<close>

lemma write_within_lock_log:
  assumes d: "disk_ok env disk" and f: "log_file d f" and w: "write_within_lock env ck (sidecar_path g) sc e = (res, sc', e')"
  shows "disk e' (full_path f) = disk e (full_path f)"
proof -
  note ne = log_not_other(1) [OF f, of g] log_not_other(2) [OF f, of "sidecar_path g"]
  obtain r e1 where r: "read_merge_view env ck (sidecar_path g) e = (r, e1)" by fastforce
  have d1: "disk e1 = disk e" using r disk_okD(2) [OF d] by (auto simp: read_merge_view_def split: prod.splits sum.splits)
  have wr: "disk e3 (full_path f) = disk e2 (full_path f)"
    if "se_write env (full_path (tmp_path (sidecar_path g))) bs e2 = (wr, e3)" for bs e2 wr e3
    using disk_okD(5) [OF d that] ne by metis
  have mv: "disk e3 (full_path f) = disk e2 (full_path f)"
    if "fe_rename (se_files env) (full_path (tmp_path (sidecar_path g))) (full_path (sidecar_path g)) e2 = (mv, e3)" for e2 mv e3
    using disk_okD(7) [OF d that] ne by (auto split: if_splits)
  show ?thesis
    using w r d1 wr mv
    by (auto simp: write_within_lock_def Let_def split: sum.splits option.splits prod.splits)
qed

lemma rewrites_keep_log:
  assumes d: "disk_ok env disk" and f: "log_file d f"
  shows "write_atomic env ck (sidecar_path g) sc e = (res, sc', e') \<Longrightarrow> disk e' (full_path f) = disk e (full_path f)"
    "set_pinned env ck (sidecar_path g) e = (res, e') \<Longrightarrow> disk e' (full_path f) = disk e (full_path f)"
    "set_wake_class env ck (sidecar_path g) sid part wake e = (upd, e') \<Longrightarrow> disk e' (full_path f) = disk e (full_path f)"
proof -
  obtain lk e1 where l: "store_lock_for env (sidecar_path g) e = (lk, e1)" by fastforce
  have d1: "disk e1 = disk e" using l disk_okD(1) [OF d] by (auto simp: store_lock_for_def Let_def split: prod.splits option.splits)
  obtain r e2 where r: "sidecar_read env ck (sidecar_path g) e1 = (r, e2)" by fastforce
  have d2: "disk e2 = disk e" using r d1 disk_okD(2) [OF d] by (auto simp: sidecar_read_def split: prod.splits sum.splits)
  note W = write_within_lock_log [OF d f]
  show "write_atomic env ck (sidecar_path g) sc e = (res, sc', e') \<Longrightarrow> disk e' (full_path f) = disk e (full_path f)"
    using l d1 W by (auto simp: write_atomic_def split: option.splits)
  show "set_pinned env ck (sidecar_path g) e = (res, e') \<Longrightarrow> disk e' (full_path f) = disk e (full_path f)"
    using l r d1 d2 W by (auto simp: set_pinned_def split: option.splits sum.splits SidecarError.splits prod.splits)
  show "set_wake_class env ck (sidecar_path g) sid part wake e = (upd, e') \<Longrightarrow> disk e' (full_path f) = disk e (full_path f)"
    using l r d1 d2 W by (auto simp: set_wake_class_def split: option.splits sum.splits SidecarError.splits prod.splits if_splits)
qed

end
