(* ===== verification/Recorder.thy ===== *)
theory Recorder
  imports Sidecar
begin

text \<open>
  One connection's recorder, from \<^verbatim>\<open>host/crates/speech-surface/src/recorder.rs\<close>: it taps every frame into a frame log,
  renames the log once the pod is known, labels segments in the sidecar, rolls the log between
  segments, and gives up recording for the whole process at the first write that fails.

  The set of open logs, the process-wide latch and the event sink are shared by the connections and
  passed explicitly. A \<open>record_error\<close> line keeps the error it renders.

  The lemmas: what the recorder's calls do to the set of files; a frame longer than a record switches recording off; and
  renaming a log leaves a pin behind that was set before the pod was known. That a log is safe while it is written is
  shown in \<open>Prune\<close>, among the other processes.
\<close>

section \<open>File names\<close>

text \<open>Decimal digits, padded with zeros on the left.\<close>

function decimal :: "nat \<Rightarrow> bytes" where
  "decimal n = (if n < 10 then [48 + of_nat n] else decimal (n div 10) @ [48 + of_nat (n mod 10)])"
  by auto
termination by (relation "measure id") auto

declare decimal.simps [simp del]

definition padded :: "nat \<Rightarrow> nat \<Rightarrow> bytes" where
  "padded width n = replicate (width - length (decimal n)) 48 @ decimal n"

definition safe_byte :: "u8 \<Rightarrow> bool" where
  "safe_byte c \<longleftrightarrow> 97 \<le> c \<and> c \<le> 122 \<or> 65 \<le> c \<and> c \<le> 90 \<or> 48 \<le> c \<and> c \<le> 57 \<or> c = 45 \<or> c = 95"

text \<open>A character is a byte, or the first byte of a longer encoding; each becomes one underscore.\<close>

definition sanitize_filename :: "bytes \<Rightarrow> bytes" where
  "sanitize_filename s =
     (let out = map (\<lambda>c. if safe_byte c then c else 95) (filter (\<lambda>c. \<not> (128 \<le> c \<and> c < 192)) s)
      in if out \<noteq> [] \<and> hd out = 45 then 95 # tl out else out)"

definition epoch_to_datetime :: "nat \<Rightarrow> (nat \<times> nat \<times> nat) \<times> (nat \<times> nat \<times> nat)" where
  "epoch_to_datetime secs =
     (let days_from_epoch = secs div 86400; time_of_day = secs mod 86400;
          h = time_of_day div 3600; m = time_of_day mod 3600 div 60; s = time_of_day mod 60;
          z = days_from_epoch + 719468;
          era = z div 146097;
          doe = z - era * 146097;
          yoe = (doe - doe div 1460 + doe div 36524 - doe div 146096) div 365;
          y = yoe + era * 400;
          doy = doe - (365 * yoe + yoe div 4 - yoe div 100);
          mp = (5 * doy + 2) div 153;
          d = doy - (153 * mp + 2) div 5 + 1;
          mth = (if mp < 10 then mp + 3 else mp - 9);
          yr = (if mth \<le> 2 then y + 1 else y)
      in ((yr, mth, d), (h, m, s)))"

definition iso8601_ms :: "u64 \<Rightarrow> bytes" where
  "iso8601_ms epoch_us =
     (let total_secs = unat epoch_us div 1000000; ms = unat epoch_us mod 1000000 div 1000;
          ((yr, mth, day), (h, m, s)) = epoch_to_datetime total_secs
      in padded 4 yr @ padded 2 mth @ padded 2 day @ ascii ''T'' @ padded 2 h @ padded 2 m @ padded 2 s @ ascii ''_''
           @ padded 3 ms @ ascii ''Z'')"

section \<open>Shared state\<close>

datatype record_cause = CreateCause | CreateDirCause | AppendCause | RenameCause | SidecarWriteCause | FlushCause | RollCause | FinishCause

datatype record_detail = DetailIo io_error | DetailSidecar SidecarError

datatype record_event =
    RecordError record_cause path record_detail
  | RecordRolled path path u64 bool

record RecorderShared =
  sh_open_logs :: "store_file set"
  sh_recording_failed :: bool
  sh_jsonl :: "record_event list"

record Recorder =
  rc_record_dir :: path
  rc_log_name :: bytes
  rc_writer :: "FrameLogWriter option"
  rc_sidecar :: "Sidecar option"
  rc_roll_seq :: u64

definition open_log :: "store_file \<Rightarrow> RecorderShared \<Rightarrow> RecorderShared" where
  "open_log f sh = sh\<lparr>sh_open_logs := insert f (sh_open_logs sh)\<rparr>"

definition drop_log :: "store_file \<Rightarrow> RecorderShared \<Rightarrow> RecorderShared" where
  "drop_log f sh = sh\<lparr>sh_open_logs := sh_open_logs sh - {f}\<rparr>"

definition jsonl_emit :: "record_event \<Rightarrow> RecorderShared \<Rightarrow> RecorderShared" where
  "jsonl_emit ev sh = sh\<lparr>sh_jsonl := sh_jsonl sh @ [ev]\<rparr>"

definition current_log :: "Recorder \<Rightarrow> store_file" where
  "current_log rc = (rc_record_dir rc, rc_log_name rc)"

section \<open>Programs of actions\<close>

text \<open>
  An operation of the recorder runs beside other threads and holds no lock of its own: between any two of its actions
  others may act. It is a program: an action on the state and then, depending on what it met, the rest.
  \<open>run_prog\<close> runs a program alone. One action is one access to the set of open logs, to the latch or to the event
  sink, or one call on the store; writes to the recorder's own open file, and assignments to its own
  fields, which no other thread sees, go with the action they follow.
\<close>

datatype ('s, 'r) prog = Ret 'r | Act "'s \<Rightarrow> ('s, 'r) prog \<times> 's"

primrec run_prog :: "('s, 'r) prog \<Rightarrow> 's \<Rightarrow> 'r \<times> 's" where
  "run_prog (Ret r) = (\<lambda>s. (r, s))"
| "run_prog (Act f) = (\<lambda>s. case map_prod run_prog id (f s) of (rest, s') \<Rightarrow> rest s')"

type_synonym 'e recording = "Recorder \<times> RecorderShared \<times> 'e"

text \<open>The result of a program of the recorder says whether the log was rolled.\<close>

type_synonym 'e rec_prog = "('e recording, bool) prog"

definition on_shared :: "(RecorderShared \<Rightarrow> RecorderShared) \<Rightarrow> 'e rec_prog \<Rightarrow> 'e rec_prog" where
  "on_shared g rest = Act (\<lambda>(rc, sh, e). (rest, rc, g sh, e))"

definition on_fields :: "(Recorder \<Rightarrow> Recorder) \<Rightarrow> bool \<Rightarrow> 'e rec_prog" where
  "on_fields g rolled = Act (\<lambda>(rc, sh, e). (Ret rolled, g rc, sh, e))"

section \<open>The recorder\<close>

definition disable :: "record_cause \<Rightarrow> path \<Rightarrow> store_file \<Rightarrow> record_detail \<Rightarrow> 'e rec_prog" where
  "disable cause path open_path detail =
     Act (\<lambda>(rc, sh, e).
       (on_shared (drop_log open_path) (on_shared (jsonl_emit (RecordError cause path detail)) (Ret False)),
        rc\<lparr>rc_writer := None\<rparr>, sh\<lparr>sh_recording_failed := True\<rparr>, e))"

definition conn_log_name :: "bytes \<Rightarrow> u64 \<Rightarrow> bytes" where
  "conn_log_name accept_iso conn_seq = accept_iso @ ascii ''_'' @ decimal (unat conn_seq) @ ascii ''.framelog''"

definition hello_log_name :: "bytes \<Rightarrow> bytes \<Rightarrow> u64 \<Rightarrow> bytes" where
  "hello_log_name pod_id accept_iso conn_seq =
     sanitize_filename pod_id @ ascii ''_'' @ accept_iso @ ascii ''_'' @ decimal (unat conn_seq) @ ascii ''.framelog''"

definition roll_log_name :: "bytes \<Rightarrow> HostMicros \<Rightarrow> u64 \<Rightarrow> u64 \<Rightarrow> bytes" where
  "roll_log_name pod_id now conn_seq roll_seq =
     sanitize_filename pod_id @ ascii ''_'' @ iso8601_ms (hm_us now) @ ascii ''_'' @ decimal (unat conn_seq)
       @ ascii ''_r'' @ decimal (unat roll_seq) @ ascii ''.framelog''"

definition Recorder_new :: "path \<Rightarrow> u64 \<Rightarrow> bytes \<Rightarrow> Recorder" where
  "Recorder_new record_dir conn_seq accept_iso =
     \<lparr>rc_record_dir = record_dir, rc_log_name = conn_log_name accept_iso conn_seq, rc_writer = None, rc_sidecar = None,
      rc_roll_seq = 0\<rparr>"

text \<open>The log is tracked as open before it exists.\<close>

definition start_create :: "'e store_env \<Rightarrow> meta_codec \<Rightarrow> store_file \<Rightarrow> LogMeta \<Rightarrow> 'e rec_prog" where
  "start_create env mc log meta =
     on_shared (open_log log)
       (Act (\<lambda>(rc, sh, e).
          case log_create (se_files env) mc (full_path log) meta e of
            (Inr w, e1) \<Rightarrow> (Ret False, rc\<lparr>rc_writer := Some w\<rparr>, sh, e1)
          | (Inl err, e1) \<Rightarrow> (disable CreateCause (full_path log) log (DetailIo err), rc, sh, e1)))"

definition start_prog :: "'e store_env \<Rightarrow> meta_codec \<Rightarrow> bytes \<Rightarrow> u64 \<Rightarrow> bool \<Rightarrow> Recorder \<Rightarrow> 'e rec_prog" where
  "start_prog env mc build_id conn_seq recording_on rc =
     (if \<not> recording_on then Ret False
      else
        Act (\<lambda>(rc', sh, e).
          case se_create_dir_all env (rc_record_dir rc) e of
            (Some err, e1) \<Rightarrow> (disable CreateDirCause (rc_record_dir rc) (current_log rc) (DetailIo err), rc', sh, e1)
          | (None, e1) \<Rightarrow>
              let (now, e2) = se_now env e1;
                  meta = \<lparr>lm_build_id = build_id, lm_created_epoch_us = now, lm_conn_seq = conn_seq, lm_rolled_from = None\<rparr>
              in (start_create env mc (current_log rc) meta, rc', sh, e2)))"

definition recorder_start ::
  "'e store_env \<Rightarrow> meta_codec \<Rightarrow> bytes \<Rightarrow> path \<Rightarrow> u64 \<Rightarrow> bytes \<Rightarrow> bool \<Rightarrow> RecorderShared \<Rightarrow> 'e \<Rightarrow> 'e recording" where
  "recorder_start env mc build_id record_dir conn_seq accept_iso recording_on sh e =
     (let rc = Recorder_new record_dir conn_seq accept_iso
      in snd (run_prog (start_prog env mc build_id conn_seq recording_on rc) (rc, sh, e)))"

definition latch_prog :: "'e store_env \<Rightarrow> Recorder \<Rightarrow> 'e rec_prog" where
  "latch_prog env rc =
     (case rc_writer rc of
        None \<Rightarrow> Ret False
      | Some w \<Rightarrow>
          Act (\<lambda>(rc', sh, e).
            if sh_recording_failed sh then
              let (_, e1) = fe_flush (se_files env) (fl_writer w) e
              in (on_shared (drop_log (current_log rc)) (on_fields (\<lambda>rc. rc\<lparr>rc_sidecar := None\<rparr>) False),
                  rc'\<lparr>rc_writer := None\<rparr>, sh, e1)
            else (Ret False, rc', sh, e)))"

definition honor_latch :: "'e store_env \<Rightarrow> Recorder \<Rightarrow> RecorderShared \<Rightarrow> 'e \<Rightarrow> 'e recording" where
  "honor_latch env rc sh e = snd (run_prog (latch_prog env rc) (rc, sh, e))"

definition tap_prog :: "'e store_env \<Rightarrow> HostMicros \<Rightarrow> bytes \<Rightarrow> Recorder \<Rightarrow> 'e rec_prog" where
  "tap_prog env host_rx frame_bytes rc =
     (case rc_writer rc of
        None \<Rightarrow> Ret False
      | Some w \<Rightarrow>
          Act (\<lambda>(rc', sh, e).
            case log_append (se_files env) host_rx frame_bytes w e of
              (None, w1, e1) \<Rightarrow> (Ret False, rc'\<lparr>rc_writer := Some w1\<rparr>, sh, e1)
            | (Some err, w1, e1) \<Rightarrow>
                (disable AppendCause (full_path (current_log rc)) (current_log rc) (DetailIo err),
                 rc'\<lparr>rc_writer := Some w1\<rparr>, sh, e1)))"

definition recorder_tap :: "'e store_env \<Rightarrow> HostMicros \<Rightarrow> bytes \<Rightarrow> Recorder \<Rightarrow> RecorderShared \<Rightarrow> 'e \<Rightarrow> 'e recording" where
  "recorder_tap env host_rx frame_bytes rc sh e = snd (run_prog (tap_prog env host_rx frame_bytes rc) (rc, sh, e))"

text \<open>The new name is tracked before the file has it, the old one until the file no longer has it.\<close>

definition hello_rename ::
  "'e store_env \<Rightarrow> bytes \<Rightarrow> store_file \<Rightarrow> store_file \<Rightarrow> HostMicros \<Rightarrow> bytes \<Rightarrow> FrameLogWriter \<Rightarrow> 'e rec_prog" where
  "hello_rename env pod_id old_log new_log host_rx frame_bytes w =
     on_shared (open_log new_log)
       (Act (\<lambda>(rc, sh, e).
          case rename_to (se_files env) (full_path new_log) w e of
            (None, w1, e1) \<Rightarrow>
              (on_shared (drop_log old_log)
                 (on_fields (\<lambda>rc. rc\<lparr>rc_writer := Some (note_hello host_rx frame_bytes w1), rc_log_name := snd new_log,
                    rc_sidecar := Some (Sidecar_new pod_id)\<rparr>) False),
               rc\<lparr>rc_writer := Some w1\<rparr>, sh, e1)
          | (Some err, w1, e1) \<Rightarrow>
              (on_shared (drop_log new_log)
                 (on_shared (jsonl_emit (RecordError RenameCause (full_path new_log) (DetailIo err)))
                    (on_fields (\<lambda>rc. rc\<lparr>rc_writer := Some (note_hello host_rx frame_bytes w1),
                       rc_sidecar := Some (Sidecar_new pod_id)\<rparr>) False)),
               rc\<lparr>rc_writer := Some w1\<rparr>, sh, e1)))"

definition hello_prog ::
  "'e store_env \<Rightarrow> bytes \<Rightarrow> bytes \<Rightarrow> u64 \<Rightarrow> HostMicros \<Rightarrow> bytes \<Rightarrow> Recorder \<Rightarrow> 'e rec_prog" where
  "hello_prog env pod_id accept_iso conn_seq host_rx frame_bytes rc =
     (case rc_writer rc of
        None \<Rightarrow> on_fields (\<lambda>rc. rc\<lparr>rc_sidecar := Some (Sidecar_new pod_id)\<rparr>) False
      | Some w \<Rightarrow>
          hello_rename env pod_id (current_log rc) (rc_record_dir rc, hello_log_name pod_id accept_iso conn_seq)
            host_rx frame_bytes w)"

definition on_hello ::
  "'e store_env \<Rightarrow> bytes \<Rightarrow> bytes \<Rightarrow> u64 \<Rightarrow> HostMicros \<Rightarrow> bytes \<Rightarrow> Recorder \<Rightarrow> RecorderShared \<Rightarrow> 'e \<Rightarrow> 'e recording" where
  "on_hello env pod_id accept_iso conn_seq host_rx frame_bytes rc sh e =
     snd (run_prog (hello_prog env pod_id accept_iso conn_seq host_rx frame_bytes rc) (rc, sh, e))"

definition segment_prog :: "'e store_env \<Rightarrow> sidecar_codec \<Rightarrow> AssembledSegment \<Rightarrow> Recorder \<Rightarrow> 'e rec_prog" where
  "segment_prog env ck seg rc =
     (case (rc_writer rc, rc_sidecar rc) of
        (Some _, Some sc) \<Rightarrow>
          let sc_path = sidecar_path (current_log rc) in
          Act (\<lambda>(rc', sh, e).
            case write_atomic env ck sc_path (sidecar_push (from_segment seg) sc) e of
              (None, sc1, e1) \<Rightarrow> (Ret False, rc'\<lparr>rc_sidecar := Some sc1\<rparr>, sh, e1)
            | (Some err, sc1, e1) \<Rightarrow>
                (disable SidecarWriteCause (full_path sc_path) (current_log rc) (DetailSidecar err),
                 rc'\<lparr>rc_sidecar := Some sc1\<rparr>, sh, e1))
      | _ \<Rightarrow> Ret False)"

definition record_segment ::
  "'e store_env \<Rightarrow> sidecar_codec \<Rightarrow> AssembledSegment \<Rightarrow> Recorder \<Rightarrow> RecorderShared \<Rightarrow> 'e \<Rightarrow> 'e recording" where
  "record_segment env ck seg rc sh e = snd (run_prog (segment_prog env ck seg rc) (rc, sh, e))"

definition u64_saturating_mul :: "u64 \<Rightarrow> u64 \<Rightarrow> u64" where
  "u64_saturating_mul a b = (if unat a * unat b < 2 ^ 64 then a * b else - 1)"

text \<open>As at the start: the new log is tracked as open before it is created, the old one dropped afterwards.\<close>

definition roll_log ::
  "'e store_env \<Rightarrow> meta_codec \<Rightarrow> bytes \<Rightarrow> store_file \<Rightarrow> store_file \<Rightarrow> LogMeta \<Rightarrow> bool \<Rightarrow> FrameLogWriter \<Rightarrow> 'e rec_prog" where
  "roll_log env mc pod_id old_log new_log meta over_bytes w =
     on_shared (open_log new_log)
       (Act (\<lambda>(rc, sh, e).
          case roll_to (se_files env) mc (full_path new_log) meta w e of
            (None, w1, e1) \<Rightarrow>
              (on_shared (jsonl_emit (RecordRolled (full_path old_log) (full_path new_log) (fl_bytes w) over_bytes))
                 (on_shared (drop_log old_log)
                    (on_fields (\<lambda>rc. rc\<lparr>rc_log_name := snd new_log, rc_sidecar := Some (Sidecar_new pod_id)\<rparr>) True)),
               rc\<lparr>rc_writer := Some w1\<rparr>, sh, e1)
          | (Some err, w1, e1) \<Rightarrow>
              (on_shared (drop_log new_log) (disable RollCause (full_path new_log) old_log (DetailIo err)),
               rc\<lparr>rc_writer := Some w1\<rparr>, sh, e1)))"

definition roll_prog ::
  "'e store_env \<Rightarrow> meta_codec \<Rightarrow> bytes \<Rightarrow> bytes \<Rightarrow> u64 \<Rightarrow> u64 \<Rightarrow> u64 \<Rightarrow> Recorder \<Rightarrow> 'e rec_prog" where
  "roll_prog env mc build_id pod_id conn_seq roll_max_bytes roll_max_age_s rc =
     (case rc_writer rc of
        None \<Rightarrow> Ret False
      | Some w \<Rightarrow>
          Act (\<lambda>(rc', sh, e).
            case fe_flush (se_files env) (fl_writer w) e of
              (Some err, e1) \<Rightarrow> (disable FlushCause (full_path (current_log rc)) (current_log rc) (DetailIo err), rc', sh, e1)
            | (None, e1) \<Rightarrow>
                let (now, e2) = se_now env e1;
                    over_bytes = (roll_max_bytes < fl_bytes w);
                    over_age = (u64_saturating_mul roll_max_age_s 1000000 < log_age w now);
                    roll_seq = rc_roll_seq rc + 1;
                    meta = \<lparr>lm_build_id = build_id, lm_created_epoch_us = now, lm_conn_seq = conn_seq, lm_rolled_from = None\<rparr>
                in if \<not> (over_bytes \<or> over_age) then (Ret False, rc', sh, e2)
                   else (roll_log env mc pod_id (current_log rc) (rc_record_dir rc, roll_log_name pod_id now conn_seq roll_seq) meta
                           over_bytes w, rc'\<lparr>rc_roll_seq := roll_seq\<rparr>, sh, e2)))"

definition maybe_roll ::
  "'e store_env \<Rightarrow> meta_codec \<Rightarrow> bytes \<Rightarrow> bytes \<Rightarrow> u64 \<Rightarrow> u64 \<Rightarrow> u64 \<Rightarrow> Recorder \<Rightarrow> RecorderShared \<Rightarrow> 'e \<Rightarrow> bool \<times> 'e recording" where
  "maybe_roll env mc build_id pod_id conn_seq roll_max_bytes roll_max_age_s rc sh e =
     run_prog (roll_prog env mc build_id pod_id conn_seq roll_max_bytes roll_max_age_s rc) (rc, sh, e)"

definition finish_prog :: "'e store_env \<Rightarrow> Recorder \<Rightarrow> 'e rec_prog" where
  "finish_prog env rc =
     (case rc_writer rc of
        None \<Rightarrow> Ret False
      | Some w \<Rightarrow>
          Act (\<lambda>(rc', sh, e).
            let (res, e1) = fe_flush (se_files env) (fl_writer w) e; rest = on_shared (drop_log (current_log rc)) (Ret False)
            in (case res of
                  None \<Rightarrow> rest
                | Some err \<Rightarrow> on_shared (jsonl_emit (RecordError FinishCause (full_path (current_log rc)) (DetailIo err))) rest,
                rc'\<lparr>rc_writer := None\<rparr>, sh, e1)))"

definition recorder_finish :: "'e store_env \<Rightarrow> Recorder \<Rightarrow> RecorderShared \<Rightarrow> 'e \<Rightarrow> 'e recording" where
  "recorder_finish env rc sh e = snd (run_prog (finish_prog env rc) (rc, sh, e))"

text \<open>An operation run alone.\<close>

lemma run_on_shared [simp]: "run_prog (on_shared g rest) (rc, sh, e) = run_prog rest (rc, g sh, e)"
  by (simp add: on_shared_def)

lemma run_on_fields [simp]: "run_prog (on_fields g rolled) (rc, sh, e) = (rolled, g rc, sh, e)"
  by (simp add: on_fields_def)

lemma run_disable [simp]:
  "run_prog (disable cause path open_path detail) (rc, sh, e) =
     (False, rc\<lparr>rc_writer := None\<rparr>,
      jsonl_emit (RecordError cause path detail) (drop_log open_path (sh\<lparr>sh_recording_failed := True\<rparr>)), e)"
  by (simp add: disable_def)

section \<open>A live log stays\<close>

text \<open>
  What the recorder's own file operations do to the set of files: a new file did not exist before, and writing to
  an open file neither creates nor removes one.
\<close>

definition log_store_ok :: "'e store_env \<Rightarrow> ('e \<Rightarrow> path \<rightharpoonup> bytes) \<Rightarrow> bool" where
  "log_store_ok env disk \<longleftrightarrow>
     (\<forall>p e r e'. fe_create_new (se_files env) p e = (r, e') \<longrightarrow>
        (case r of Inr _ \<Rightarrow> disk e p = None \<and> dom (disk e') = insert p (dom (disk e)) | Inl _ \<Rightarrow> dom (disk e') = dom (disk e))) \<and>
     (\<forall>w bs e r e'. fe_write_all (se_files env) w bs e = (r, e') \<longrightarrow> dom (disk e') = dom (disk e)) \<and>
     (\<forall>w e r e'. fe_flush (se_files env) w e = (r, e') \<longrightarrow> dom (disk e') = dom (disk e)) \<and>
     (\<forall>p e r e'. se_create_dir_all env p e = (r, e') \<longrightarrow> dom (disk e') = dom (disk e)) \<and>
     (\<forall>e t e'. se_now env e = (t, e') \<longrightarrow> dom (disk e') = dom (disk e))"

lemma log_store_okD:
  assumes "log_store_ok env disk"
  shows "fe_create_new (se_files env) p e = (Inr w, e') \<Longrightarrow> disk e p = None \<and> dom (disk e') = insert p (dom (disk e))"
    "fe_create_new (se_files env) p e = (Inl err, e') \<Longrightarrow> dom (disk e') = dom (disk e)"
    "fe_write_all (se_files env) h bs e = (wr, e') \<Longrightarrow> dom (disk e') = dom (disk e)"
    "fe_flush (se_files env) h e = (fr, e') \<Longrightarrow> dom (disk e') = dom (disk e)"
    "se_create_dir_all env p e = (cr, e') \<Longrightarrow> dom (disk e') = dom (disk e)"
    "se_now env e = (t, e') \<Longrightarrow> dom (disk e') = dom (disk e)"
proof -
  note D = assms [unfolded log_store_ok_def]
  have c: "case r of Inr _ \<Rightarrow> disk e p = None \<and> dom (disk e') = insert p (dom (disk e)) | Inl _ \<Rightarrow> dom (disk e') = dom (disk e)"
    if "fe_create_new (se_files env) p e = (r, e')" for r using D [THEN conjunct1] that by blast
  show "fe_create_new (se_files env) p e = (Inr w, e') \<Longrightarrow> disk e p = None \<and> dom (disk e') = insert p (dom (disk e))" using c [of "Inr w"] by simp
  show "fe_create_new (se_files env) p e = (Inl err, e') \<Longrightarrow> dom (disk e') = dom (disk e)" using c [of "Inl err"] by simp
  show "fe_write_all (se_files env) h bs e = (wr, e') \<Longrightarrow> dom (disk e') = dom (disk e)" using D [THEN conjunct2, THEN conjunct1] by blast
  show "fe_flush (se_files env) h e = (fr, e') \<Longrightarrow> dom (disk e') = dom (disk e)" using D [THEN conjunct2, THEN conjunct2, THEN conjunct1] by blast
  show "se_create_dir_all env p e = (cr, e') \<Longrightarrow> dom (disk e') = dom (disk e)" using D [THEN conjunct2, THEN conjunct2, THEN conjunct2, THEN conjunct1] by blast
  show "se_now env e = (t, e') \<Longrightarrow> dom (disk e') = dom (disk e)" using D [THEN conjunct2, THEN conjunct2, THEN conjunct2, THEN conjunct2] by blast
qed

lemma write_alls_dom: "log_store_ok env disk \<Longrightarrow> write_alls (se_files env) h bss e = (r, e') \<Longrightarrow> dom (disk e') = dom (disk e)"
proof (induction bss arbitrary: e)
  case (Cons bs bss)
  obtain x e1 where x: "fe_write_all (se_files env) h bs e = (x, e1)" by fastforce
  then show ?case using Cons log_store_okD(3) [OF Cons.prems(1) x] by (auto split: option.splits)
qed simp

lemma write_header_dom:
  assumes l: "log_store_ok env disk" and h: "write_header (se_files env) mc h meta e = (r, e')"
  shows "dom (disk e') = dom (disk e)"
proof (cases "mc_to_vec mc meta")
  case (Some json)
  let ?bss = "[MAGIC, le_bytes 2 (unat FORMAT_VERSION), le_bytes 2 (length json), json]"
  obtain x e1 where x: "write_alls (se_files env) h ?bss e = (x, e1)" by fastforce
  have "e' = e1 \<or> e' = e" using h x Some unfolding write_header_def by (cases x) (auto split: if_splits)
  then show ?thesis using write_alls_dom [OF l x] by auto
qed (use h in \<open>simp add: write_header_def\<close>)

lemma write_record_dom:
  assumes l: "log_store_ok env disk" and h: "write_record (se_files env) h t payload e = (r, e')"
  shows "dom (disk e') = dom (disk e)"
proof -
  obtain x e1 where x: "write_alls (se_files env) h [le_bytes 8 (unat (hm_us t)), le_bytes 2 (length payload mod 65536), payload] e = (x, e1)"
    by fastforce
  have "e' = e1" using h x unfolding write_record_def by (cases x) auto
  then show ?thesis using write_alls_dom [OF l x] by simp
qed

lemma log_append_dom:
  assumes l: "log_store_ok env disk" and a: "log_append (se_files env) t payload w e = (r, w', e')"
  shows "dom (disk e') = dom (disk e)" "fl_path w' = fl_path w"
proof -
  obtain x e1 where x: "write_record (se_files env) (fl_writer w) t payload e = (x, e1)" by fastforce
  have "e' = e1 \<or> e' = e" and "fl_path w' = fl_path w" using a x unfolding log_append_def by (cases x; auto split: if_splits)+
  then show "dom (disk e') = dom (disk e)" "fl_path w' = fl_path w" using write_record_dom [OF l x] by auto
qed

lemma roll_to_dom:
  assumes l: "log_store_ok env disk" and r: "roll_to (se_files env) mc path meta w e = (None, w', e')"
  shows "disk e path = None" "dom (disk e') = insert path (dom (disk e))" "fl_path w' = path"
proof -
  obtain e1 where 1: "fe_flush (se_files env) (fl_writer w) e = (None, e1)" using r by (auto simp: roll_to_def split: option.splits prod.splits)
  obtain h e2 where 2: "fe_create_new (se_files env) path e1 = (Inr h, e2)" using r 1 by (auto simp: roll_to_def split: sum.splits prod.splits)
  obtain n e3 where 3: "write_header (se_files env) mc h (meta\<lparr>lm_rolled_from := Some (file_name_string (fl_path w))\<rparr>) e2 = (Inr n, e3)"
    using r 1 2 by (auto simp: roll_to_def split: sum.splits prod.splits)
  obtain k where 4: "(case fl_hello w of None \<Rightarrow> (Inr 0, e3) | Some (host_rx, payload) \<Rightarrow> write_record (se_files env) h host_rx payload e3) = (Inr k, e')"
    "fl_path w' = path"
    using r 1 2 3 by (auto simp: roll_to_def split: sum.splits prod.splits)
  have "dom (disk e') = dom (disk e3)" using 4(1) write_record_dom [OF l] by (auto split: option.splits prod.splits)
  moreover note log_store_okD(4) [OF l 1] log_store_okD(1) [OF l 2] write_header_dom [OF l 3]
  ultimately show "dom (disk e') = insert path (dom (disk e))" "disk e path = None" by auto
  show "fl_path w' = path" by (rule 4(2))
qed

lemma roll_to_failed:
  assumes l: "log_store_ok env disk" and r: "roll_to (se_files env) mc path meta w e = (Some err, w', e')"
  shows "w' = w" "dom (disk e) \<subseteq> dom (disk e')"
proof -
  show "w' = w" using r by (auto simp: roll_to_def split: option.splits sum.splits prod.splits)
  obtain x e1 where x: "fe_flush (se_files env) (fl_writer w) e = (x, e1)" by fastforce
  obtain y e2 where y: "fe_create_new (se_files env) path e1 = (y, e2)" by fastforce
  have 2: "dom (disk e) \<subseteq> dom (disk e1) \<and> dom (disk e1) \<subseteq> dom (disk e2)"
    using log_store_okD(4) [OF l x] log_store_okD(1,2) [OF l, of path e1] y by (cases y) auto
  show "dom (disk e) \<subseteq> dom (disk e')"
  proof (cases "x = None \<and> \<not> isl y")
    case True
    obtain z e3 where z: "write_header (se_files env) mc (projr y) (meta\<lparr>lm_rolled_from := Some (file_name_string (fl_path w))\<rparr>) e2 = (z, e3)"
      by fastforce
    have "e' = e3 \<or> (\<exists>t payload v. write_record (se_files env) (projr y) t payload e3 = (v, e'))"
      using r x y z True by (cases y; cases z) (auto simp: roll_to_def split: option.splits sum.splits prod.splits)
    then have "dom (disk e') = dom (disk e2)" using write_header_dom [OF l z] write_record_dom [OF l] by metis
    then show ?thesis using 2 by blast
  next
    case False
    then have "e' = e1 \<or> e' = e2" using r x y by (cases y) (auto simp: roll_to_def split: option.splits)
    then show ?thesis using 2 by auto
  qed
qed

lemma split_name_framelog: "x \<noteq> [] \<Longrightarrow> snd (split_name (x @ ascii ''.framelog'')) = Some (ascii ''framelog'')"
  by (auto simp: split_name_def ascii_def Let_def)

lemma log_file_name: "plain x \<Longrightarrow> log_file d (d, x @ ascii ''.framelog'')"
  using split_name_framelog [of x] by (simp add: log_file_def plain_append) (simp add: plain_def)

lemma sanitize_plain: "plain (sanitize_filename s @ ascii ''_'' @ x)"
  by (auto simp: plain_def sanitize_filename_def ascii_def safe_byte_def Let_def hd_append hd_map split: if_splits)

text \<open>The names a connection gives its logs.\<close>

definition own_log :: "path \<Rightarrow> bytes \<Rightarrow> u64 \<Rightarrow> store_file \<Rightarrow> bool" where
  "own_log d accept_iso conn_seq f \<longleftrightarrow> fst f = d \<and>
     (snd f = conn_log_name accept_iso conn_seq \<or> (\<exists>pod_id. snd f = hello_log_name pod_id accept_iso conn_seq) \<or>
      (\<exists>pod_id now n. snd f = roll_log_name pod_id now conn_seq n))"

lemma own_log_file:
  assumes "plain accept_iso" "own_log d accept_iso conn_seq f"
  shows "log_file d f"
proof -
  have "log_file d (d, conn_log_name accept_iso conn_seq)"
    using log_file_name [of "accept_iso @ ascii ''_'' @ decimal (unat conn_seq)" d] assms(1)
    by (simp add: plain_append conn_log_name_def)
  moreover have "log_file d (d, hello_log_name pod_id accept_iso conn_seq)" for pod_id
    using log_file_name [OF sanitize_plain [of pod_id "accept_iso @ ascii ''_'' @ decimal (unat conn_seq)"], of d]
    by (simp add: hello_log_name_def)
  moreover have "log_file d (d, roll_log_name pod_id now conn_seq n)" for pod_id now n
    using log_file_name [OF sanitize_plain [of pod_id "iso8601_ms (hm_us now) @ ascii ''_'' @ decimal (unat conn_seq)
      @ ascii ''_r'' @ decimal (unat n)"], of d] by (simp add: roll_log_name_def)
  ultimately show ?thesis using assms(2) by (cases f) (auto simp: own_log_def)
qed

lemma hello_name_new: "conn_log_name accept_iso conn_seq \<noteq> hello_log_name pod_id accept_iso conn_seq"
proof
  assume "conn_log_name accept_iso conn_seq = hello_log_name pod_id accept_iso conn_seq"
  then have "length (conn_log_name accept_iso conn_seq) = length (sanitize_filename pod_id @ ascii ''_'' @ conn_log_name accept_iso conn_seq)"
    by (simp add: conn_log_name_def hello_log_name_def)
  then show False by (simp add: ascii_def)
qed

text \<open>Digits tell the names apart: a rolled log's name ends with its number after an \<open>r\<close>, the others' with the connection's.\<close>

definition digit :: "u8 \<Rightarrow> bool" where
  "digit c \<longleftrightarrow> 48 \<le> c \<and> c \<le> 57"

lemma decimal_digit: "n < 10 \<Longrightarrow> digit (48 + of_nat n)" "n < 10 \<Longrightarrow> unat (48 + of_nat n :: u8) = 48 + n"
proof -
  assume n: "n < 10"
  show u: "unat (48 + of_nat n :: u8) = 48 + n" using n by (simp add: unat_word_ariths unat_of_nat)
  show "digit (48 + of_nat n)" using n u by (simp add: digit_def word_le_nat_alt)
qed

lemma decimal_digits: "\<forall>c \<in> set (decimal n). digit c"
proof (induction n rule: decimal.induct)
  case (1 n)
  then show ?case by (subst decimal.simps) (auto simp: decimal_digit)
qed

lemma decimal_inj: "decimal m = decimal n \<Longrightarrow> m = n"
proof (induction m arbitrary: n rule: decimal.induct)
  case (1 m)
  have nz: "decimal k \<noteq> []" for k by (subst decimal.simps) simp
  have last: "unat (last (decimal k)) = 48 + k mod 10" for k by (subst decimal.simps) (simp add: decimal_digit(2))
  have but: "butlast (decimal k) = (if k < 10 then [] else decimal (k div 10))" for k by (subst decimal.simps) simp
  have mod: "m mod 10 = n mod 10" using last [of m] last [of n] 1(2) by simp
  have "(if m < 10 then [] else decimal (m div 10)) = (if n < 10 then [] else decimal (n div 10))"
    using but [of m] but [of n] 1(2) by simp
  then have "m < 10 \<longleftrightarrow> n < 10" "\<not> m < 10 \<Longrightarrow> m div 10 = n div 10" using nz [of "n div 10"] nz [of "m div 10"] 1(1) by (auto split: if_splits dest: sym)
  then show ?case using mod by (cases "m < 10") (simp, metis div_mult_mod_eq)
qed

lemma digits_end:
  assumes "x @ a # ds = y @ b # es" "\<not> digit a" "\<not> digit b" "\<forall>c \<in> set ds. digit c" "\<forall>c \<in> set es. digit c"
  shows "a = b \<and> ds = es"
proof -
  have "takeWhile digit (rev ds @ a # rev x) = takeWhile digit (rev es @ b # rev y)"
    "dropWhile digit (rev ds @ a # rev x) = dropWhile digit (rev es @ b # rev y)"
    using arg_cong [OF assms(1), of rev] by simp_all
  then show ?thesis using assms(2-) by (simp add: takeWhile_append dropWhile_append)
qed

lemma roll_name_new:
  "roll_log_name pod_id now conn_seq n = roll_log_name pod_id' now' conn_seq' m \<Longrightarrow> n = m"
  "roll_log_name pod_id now conn_seq n \<noteq> hello_log_name pod_id' accept_iso conn_seq'"
  "roll_log_name pod_id now conn_seq n \<noteq> conn_log_name accept_iso conn_seq'"
proof -
  have r: "\<exists>x. roll_log_name pod_id now conn_seq n = (x @ 114 # decimal (unat n)) @ ascii ''.framelog''" for pod_id now conn_seq n
    by (simp add: roll_log_name_def ascii_def)
  have h: "\<exists>x. hello_log_name pod_id accept_iso conn_seq = (x @ 95 # decimal (unat conn_seq)) @ ascii ''.framelog''" for pod_id conn_seq
    by (simp add: hello_log_name_def ascii_def)
  have c: "\<exists>x. conn_log_name accept_iso conn_seq = (x @ 95 # decimal (unat conn_seq)) @ ascii ''.framelog''" for conn_seq
    by (simp add: conn_log_name_def ascii_def)
  have nd: "\<not> digit 114" "\<not> digit 95" by (simp_all add: digit_def)
  have ne: "x @ 114 # decimal k \<noteq> y @ 95 # decimal l" for x y k l
    using digits_end [OF _ nd decimal_digits decimal_digits, of x k y l] by auto
  show "n = m" if "roll_log_name pod_id now conn_seq n = roll_log_name pod_id' now' conn_seq' m"
    using that r [of pod_id now conn_seq n] r [of pod_id' now' conn_seq' m] digits_end [OF _ nd(1) nd(1) decimal_digits decimal_digits]
    by (metis append_same_eq decimal_inj word_unat_eq_iff)
  show "roll_log_name pod_id now conn_seq n \<noteq> hello_log_name pod_id' accept_iso conn_seq'"
    using r [of pod_id now conn_seq n] h [of pod_id' conn_seq'] ne by (metis append_same_eq)
  show "roll_log_name pod_id now conn_seq n \<noteq> conn_log_name accept_iso conn_seq'"
    using r [of pod_id now conn_seq n] c [of conn_seq'] ne by (metis append_same_eq)
qed

definition next_roll_new :: "u64 \<Rightarrow> Recorder \<Rightarrow> bool" where
  "next_roll_new conn_seq rc \<longleftrightarrow> (\<forall>pod_id now. rc_log_name rc \<noteq> roll_log_name pod_id now conn_seq (rc_roll_seq rc + 1))"

lemma next_roll_new_simps [simp]:
  "next_roll_new conn_seq (rc\<lparr>rc_writer := w\<rparr>) = next_roll_new conn_seq rc"
  "next_roll_new conn_seq (rc\<lparr>rc_sidecar := sc\<rparr>) = next_roll_new conn_seq rc"
  by (simp_all add: next_roll_new_def)

lemma next_roll_newI:
  "rc_log_name rc = conn_log_name accept_iso conn_seq \<Longrightarrow> next_roll_new conn_seq rc"
  "rc_log_name rc = hello_log_name pod_id accept_iso conn_seq \<Longrightarrow> next_roll_new conn_seq rc"
  "rc_log_name rc = roll_log_name pod_id now conn_seq (rc_roll_seq rc) \<Longrightarrow> next_roll_new conn_seq rc"
  using roll_name_new(1) [where n = "rc_roll_seq rc" and m = "rc_roll_seq rc + 1"]
  by (auto simp: next_roll_new_def roll_name_new [symmetric])

section \<open>Two faults\<close>

text \<open>
  A frame of the largest payload the wire allows is longer than a record, since a record holds the length prefix too:
  tapping it switches recording off.
\<close>

lemma largest_frame_stops_recording:
  assumes "rc_writer rc = Some w" "length frame_bytes = 2 + payload_len" "MAX_FRAME_BYTES - 1 \<le> payload_len"
    "recorder_tap env t frame_bytes rc sh e = (rc', sh', e')"
  shows "rc_writer rc' = None \<and> sh_recording_failed sh'"
proof -
  have "MAX_FRAME_BYTES < length frame_bytes" using assms(2,3) by linarith
  then show ?thesis using assms(1,4) by (auto simp: recorder_tap_def tap_prog_def log_append_def jsonl_emit_def drop_log_def)
qed

text \<open>
  A pin that is set while the log still has its connection's name stays with that name: after the handshake the log
  has another name, and the sidecar of that name is whatever it was.
\<close>

lemma hello_leaves_pin_behind:
  assumes d: "disk_ok env disk" and f: "log_file (rc_record_dir rc) (current_log rc)" and w: "rc_writer rc = Some w" "fl_path w = full_path (current_log rc)"
    and h: "on_hello env pod_id accept_iso conn_seq t frame_bytes rc sh e = (rc', sh', e')" and moved: "rc_log_name rc' \<noteq> rc_log_name rc"
  shows "disk e' (full_path (current_log rc)) = None \<and>
    (\<forall>P. sidecar_at ck disk (sidecar_path (current_log rc')) P e' \<longleftrightarrow> sidecar_at ck disk (sidecar_path (current_log rc')) P e)"
proof -
  define name where "name = hello_log_name pod_id accept_iso conn_seq"
  have lf: "log_file (rc_record_dir rc) (rc_record_dir rc, name)"
    using log_file_name [OF sanitize_plain [of pod_id "accept_iso @ ascii ''_'' @ decimal (unat conn_seq)"], of "rc_record_dir rc"]
    by (simp add: name_def hello_log_name_def)
  obtain r e1 where r: "fe_rename (se_files env) (fl_path w) (full_path (rc_record_dir rc, name)) e = (r, e1)" by fastforce
  have n: "r = None" "rc_log_name rc' = name" "rc_record_dir rc' = rc_record_dir rc" "e' = e1"
    using h w(1) r moved by (cases r; auto simp: on_hello_def hello_prog_def hello_rename_def rename_to_def name_def Let_def)+
  obtain bs where e1: "disk e1 = (disk e)(full_path (current_log rc) := None, full_path (rc_record_dir rc, name) := Some bs)"
    using disk_okD(7) [OF d r] n(1) w(2) by auto
  have "full_path (current_log rc) \<noteq> full_path (rc_record_dir rc, name)"
    using full_path_log_inj [OF f lf] moved n(2) by (auto simp: current_log_def)
  moreover have "full_path (sidecar_path g) \<noteq> full_path (current_log rc)" "full_path (sidecar_path g) \<noteq> full_path (rc_record_dir rc, name)" for g
    using log_not_other(1) [OF f] log_not_other(1) [OF lf] by blast+
  ultimately show ?thesis using e1 n(4) by (simp add: sidecar_at_def)
qed

end
