(* ===== verification/Prune.thy ===== *)
theory Prune
  imports Recorder "HOL-Library.Product_Lexorder" "HOL-Library.List_Lexorder" "HOL-Library.Option_ord"
begin

text \<open>
  Retention in the record store, from \<^verbatim>\<open>host/crates/speech-surface/src/prune.rs\<close>: one pass lists the frame logs,
  classifies each by its sidecar, brings every pod under its quota and then the store under its
  cap, and reports what it could not do.

  Byte counts are natural numbers, since the sizes of the files of one store do not overflow. \<open>live\<close> is the set of
  open logs at the moment it is read; it and the disk may change whenever the pass calls the
  environment.

  The lemmas: a deletion takes no log that is pinned at that moment, whatever was seen earlier; a pass accounts for every
  byte, stops deleting at the cap and otherwise says that it halted; the quota phase takes
  logs only from pods above their quota. The live set is read before the store lock is taken, so \<open>try_delete\<close> alone
  does not protect an open log: that is the order of the recorder's actions. \<open>recorder_step\<close> runs a recorder action by
  action beside passes cut into their three steps (\<open>bystander\<close>); \<open>safe\<close> is the proof outline of such a program under
  interference, and every operation of the recorder is shown to be safe.
\<close>

section \<open>Data\<close>

datatype PruneTier = TierUngated | TierPositive

instantiation PruneTier :: linorder
begin

definition less_eq_PruneTier :: "PruneTier \<Rightarrow> PruneTier \<Rightarrow> bool" where
  "less_eq_PruneTier a b \<longleftrightarrow> a = TierUngated \<or> b = TierPositive"

definition less_PruneTier :: "PruneTier \<Rightarrow> PruneTier \<Rightarrow> bool" where
  "less_PruneTier a b \<longleftrightarrow> a = TierUngated \<and> b = TierPositive"

instance
  by standard (auto simp: less_eq_PruneTier_def less_PruneTier_def intro: PruneTier.exhaust)

end

datatype PruneReason = PodQuota | GlobalCap

datatype PodBucket = BucketPod bytes | Unattributed

fun bucket_pod_id :: "PodBucket \<Rightarrow> bytes option" where
  "bucket_pod_id (BucketPod pod) = Some pod"
| "bucket_pod_id Unattributed = None"

record PruneRequest =
  pq_store_dir :: path
  pq_cap_bytes :: nat
  pq_pod_cap_bytes :: nat

record PrunedLog =
  pl_framelog :: store_file
  pl_sidecar :: "store_file option"
  pl_bytes :: nat
  pl_tier :: PruneTier
  pl_pod_id :: "bytes option"
  pl_reason :: PruneReason

record PodOverQuota =
  oq_pod_id :: "bytes option"
  oq_remaining_bytes :: nat
  oq_pod_cap_bytes :: nat

record PruneHalt =
  ph_remaining_bytes :: nat
  ph_cap_bytes :: nat

datatype delete_error = LockFailed io_error | UnlinkFailed io_error

record PruneOutcome =
  po_pruned :: "PrunedLog list"
  po_failed :: "(store_file \<times> delete_error) list"
  po_kept_corrupt :: "(store_file \<times> SidecarError) list"
  po_halted :: "PruneHalt option"
  po_over_quota :: "PodOverQuota list"

definition PruneOutcome_default :: PruneOutcome where
  "PruneOutcome_default =
     \<lparr>po_pruned = [], po_failed = [], po_kept_corrupt = [], po_halted = None, po_over_quota = []\<rparr>"

record LogEntry =
  le_framelog :: store_file
  le_sidecar :: "store_file option"
  le_bytes_of :: nat
  le_tier :: PruneTier
  le_age_key :: u64
  le_pinned :: bool
  le_open :: bool
  le_pod :: PodBucket
  le_corrupt_error :: "SidecarError option"

section \<open>Inventory\<close>

definition tier_of :: "Sidecar \<Rightarrow> PruneTier" where
  "tier_of sidecar = (if \<exists>s \<in> set (sd_segments sidecar). sds_wake s = WakePositive then TierPositive else TierUngated)"

definition age_of :: "Sidecar \<Rightarrow> u64" where
  "age_of s = (case map sds_start_epoch_us (sd_segments s) of [] \<Rightarrow> 0 | x # xs \<Rightarrow> foldl min x xs)"

text \<open>The class of a log from its sidecar: tier, pin, age, pod, and the error when it cannot be read.\<close>

definition classify ::
  "'e store_env \<Rightarrow> sidecar_codec \<Rightarrow> store_file option \<Rightarrow> 'e \<Rightarrow>
     (PruneTier \<times> bool \<times> u64 \<times> PodBucket \<times> SidecarError option) \<times> 'e" where
  "classify env ck sidecar e =
     (case sidecar of
        None \<Rightarrow> ((TierUngated, False, 0, Unattributed, None), e)
      | Some path \<Rightarrow>
          (case sidecar_read env ck path e of
             (Inr s, e1) \<Rightarrow>
               ((tier_of s, sd_pinned s, age_of s,
                 (if sd_pod_id s = UNKNOWN_POD then Unattributed else BucketPod (sd_pod_id s)), None), e1)
           | (Inl (ScNotFound _), e1) \<Rightarrow> ((TierUngated, False, 0, Unattributed, None), e1)
           | (Inl err, e1) \<Rightarrow> ((TierUngated, False, 0, Unattributed, Some err), e1)))"

text \<open>One directory entry: \<open>None\<close> when it is skipped.\<close>

definition inventory_entry ::
  "'e store_env \<Rightarrow> sidecar_codec \<Rightarrow> ('e \<Rightarrow> store_file set) \<Rightarrow> store_file \<Rightarrow> 'e \<Rightarrow> (io_error + LogEntry option) \<times> 'e" where
  "inventory_entry env ck live framelog e =
     (if snd (split_name (snd framelog)) \<noteq> Some (ascii ''framelog'') then (Inr None, e)
      else
        (case se_metadata env (full_path framelog) e of
           (Inl err, e1) \<Rightarrow> (if kind err = NotFoundKind then Inr None else Inl err, e1)
         | (Inr framelog_bytes, e1) \<Rightarrow>
             (case (case se_metadata env (full_path (sidecar_path framelog)) e1 of
                      (Inr n, e2) \<Rightarrow> (Inr (Some (sidecar_path framelog), n), e2)
                    | (Inl err, e2) \<Rightarrow> (if kind err = NotFoundKind then Inr (None, 0) else Inl err, e2)) of
                (Inl err, e2) \<Rightarrow> (Inl err, e2)
              | (Inr (sidecar, sidecar_bytes), e2) \<Rightarrow>
                  let ((tier, pinned, age_key, pod, corrupt_error), e3) = classify env ck sidecar e2
                  in (Inr (Some \<lparr>le_framelog = framelog, le_sidecar = sidecar, le_bytes_of = framelog_bytes + sidecar_bytes,
                        le_tier = tier, le_age_key = age_key, le_pinned = pinned, le_open = (framelog \<in> live e3), le_pod = pod,
                        le_corrupt_error = corrupt_error\<rparr>), e3))))"

fun inventory_entries ::
  "'e store_env \<Rightarrow> sidecar_codec \<Rightarrow> ('e \<Rightarrow> store_file set) \<Rightarrow> path \<Rightarrow> (io_error + bytes) list \<Rightarrow> 'e \<Rightarrow> (io_error + LogEntry list) \<times> 'e" where
  "inventory_entries env ck live dir [] e = (Inr [], e)"
| "inventory_entries env ck live dir (Inl err # rest) e = (Inl err, e)"
| "inventory_entries env ck live dir (Inr name # rest) e =
     (case inventory_entry env ck live (dir, name) e of
        (Inl err, e1) \<Rightarrow> (Inl err, e1)
      | (Inr entry, e1) \<Rightarrow>
          (case inventory_entries env ck live dir rest e1 of
             (Inl err, e2) \<Rightarrow> (Inl err, e2)
           | (Inr logs, e2) \<Rightarrow> (Inr ((case entry of None \<Rightarrow> [] | Some l \<Rightarrow> [l]) @ logs), e2)))"

definition inventory ::
  "'e store_env \<Rightarrow> sidecar_codec \<Rightarrow> ('e \<Rightarrow> store_file set) \<Rightarrow> PruneRequest \<Rightarrow> 'e \<Rightarrow> (io_error + LogEntry list) \<times> 'e" where
  "inventory env ck live req e =
     (case se_read_dir env (pq_store_dir req) e of
        (Inl err, e1) \<Rightarrow> (if kind err = NotFoundKind then Inr [] else Inl err, e1)
      | (Inr entries, e1) \<Rightarrow> inventory_entries env ck live (pq_store_dir req) entries e1)"

section \<open>Deleting one log\<close>

definition on_disk_prunable :: "'e store_env \<Rightarrow> sidecar_codec \<Rightarrow> store_file \<Rightarrow> PruneTier \<Rightarrow> 'e \<Rightarrow> bool \<times> 'e" where
  "on_disk_prunable env ck framelog draining_tier e =
     (case sidecar_read env ck (sidecar_path framelog) e of
        (Inr sidecar, e1) \<Rightarrow> (\<not> sd_pinned sidecar \<and> tier_of sidecar \<le> draining_tier, e1)
      | (Inl (ScNotFound _), e1) \<Rightarrow> (True, e1)
      | (Inl _, e1) \<Rightarrow> (False, e1))"

definition delete_failed :: "LogEntry \<Rightarrow> delete_error \<Rightarrow> PruneOutcome \<Rightarrow> PruneOutcome" where
  "delete_failed log err outcome = outcome\<lparr>po_failed := po_failed outcome @ [(le_framelog log, err)]\<rparr>"

text \<open>The two unlinks, sidecar first.\<close>

definition unlink_pair :: "'e store_env \<Rightarrow> LogEntry \<Rightarrow> 'e \<Rightarrow> io_error option \<times> 'e" where
  "unlink_pair env log e =
     (case (case le_sidecar log of None \<Rightarrow> (None, e) | Some sidecar \<Rightarrow> se_remove_file env (full_path sidecar) e) of
        (Some err, e1) \<Rightarrow> (Some err, e1)
      | (None, e1) \<Rightarrow> se_remove_file env (full_path (le_framelog log)) e1)"

text \<open>What happens under the store lock, after the live set was looked at.\<close>

definition delete_locked ::
  "'e store_env \<Rightarrow> sidecar_codec \<Rightarrow> LogEntry \<Rightarrow> PruneRequest \<Rightarrow> PruneReason \<Rightarrow> PruneOutcome \<Rightarrow> 'e \<Rightarrow>
     nat option \<times> PruneOutcome \<times> 'e" where
  "delete_locked env ck log req reason outcome e =
     (case se_lock env (pq_store_dir req) e of
        (Some err, e1) \<Rightarrow> (None, delete_failed log (LockFailed err) outcome, e1)
      | (None, e1) \<Rightarrow>
          (case on_disk_prunable env ck (le_framelog log) (le_tier log) e1 of
             (False, e2) \<Rightarrow> (None, outcome, e2)
           | (True, e2) \<Rightarrow>
               (case unlink_pair env log e2 of
                  (Some err, e3) \<Rightarrow> (None, delete_failed log (UnlinkFailed err) outcome, e3)
                | (None, e3) \<Rightarrow>
                    (Some (le_bytes_of log),
                     outcome\<lparr>po_pruned := po_pruned outcome @
                       [\<lparr>pl_framelog = le_framelog log, pl_sidecar = le_sidecar log, pl_bytes = le_bytes_of log,
                         pl_tier = le_tier log, pl_pod_id = bucket_pod_id (le_pod log), pl_reason = reason\<rparr>]\<rparr>, e3))))"

definition try_delete ::
  "'e store_env \<Rightarrow> sidecar_codec \<Rightarrow> ('e \<Rightarrow> store_file set) \<Rightarrow> LogEntry \<Rightarrow> PruneRequest \<Rightarrow> PruneReason \<Rightarrow> PruneOutcome \<Rightarrow> 'e \<Rightarrow>
     nat option \<times> PruneOutcome \<times> 'e" where
  "try_delete env ck live log req reason outcome e =
     (if le_corrupt_error log \<noteq> None then (None, outcome, e)
      else if le_framelog log \<in> live e \<or> le_open log \<or> le_pinned log then (None, outcome, e)
      else delete_locked env ck log req reason outcome e)"

section \<open>A pass\<close>

definition bucket_total :: "LogEntry list \<Rightarrow> PodBucket \<Rightarrow> nat" where
  "bucket_total logs pod = sum_list (map le_bytes_of (filter (\<lambda>l. le_pod l = pod) logs))"

text \<open>Tier, then age, then path; within one directory paths compare as names.\<close>

definition deletion_order :: "LogEntry list \<Rightarrow> LogEntry list" where
  "deletion_order logs = sort_key (\<lambda>l. (le_tier l, le_age_key l, snd (le_framelog l))) logs"

record 'e pass =
  ps_totals :: "PodBucket \<Rightarrow> nat"
  ps_total :: nat
  ps_attempted :: "store_file set"
  ps_outcome :: PruneOutcome
  ps_env :: 'e

fun quota_phase ::
  "'e store_env \<Rightarrow> sidecar_codec \<Rightarrow> ('e \<Rightarrow> store_file set) \<Rightarrow> PruneRequest \<Rightarrow> LogEntry list \<Rightarrow> 'e pass \<Rightarrow> 'e pass" where
  "quota_phase env ck live req [] p = p"
| "quota_phase env ck live req (log # logs) p =
     quota_phase env ck live req logs
       (if ps_totals p (le_pod log) \<le> pq_pod_cap_bytes req then p
        else
          (case try_delete env ck live log req PodQuota (ps_outcome p) (ps_env p) of
             (deleted, outcome, e1) \<Rightarrow>
               let p1 = p\<lparr>ps_attempted := insert (le_framelog log) (ps_attempted p), ps_outcome := outcome, ps_env := e1\<rparr> in
               (case deleted of
                  None \<Rightarrow> p1
                | Some bytes \<Rightarrow>
                    p1\<lparr>ps_totals := (ps_totals p)(le_pod log := ps_totals p (le_pod log) - bytes),
                       ps_total := ps_total p - bytes\<rparr>)))"

fun cap_phase ::
  "'e store_env \<Rightarrow> sidecar_codec \<Rightarrow> ('e \<Rightarrow> store_file set) \<Rightarrow> PruneRequest \<Rightarrow> LogEntry list \<Rightarrow> 'e pass \<Rightarrow> 'e pass" where
  "cap_phase env ck live req [] p = p"
| "cap_phase env ck live req (log # logs) p =
     (if ps_total p \<le> pq_cap_bytes req then p
      else if le_framelog log \<in> ps_attempted p then cap_phase env ck live req logs p
      else
        (case try_delete env ck live log req GlobalCap (ps_outcome p) (ps_env p) of
           (deleted, outcome, e1) \<Rightarrow>
             cap_phase env ck live req logs
               (p\<lparr>ps_outcome := outcome, ps_env := e1,
                  ps_total := (case deleted of None \<Rightarrow> ps_total p | Some bytes \<Rightarrow> ps_total p - bytes)\<rparr>)))"

text \<open>The buckets still above their quota, in the order of their pod ids.\<close>

definition over_quota_report :: "PruneRequest \<Rightarrow> LogEntry list \<Rightarrow> (PodBucket \<Rightarrow> nat) \<Rightarrow> PodOverQuota list" where
  "over_quota_report req logs totals =
     map (\<lambda>b. \<lparr>oq_pod_id = bucket_pod_id b, oq_remaining_bytes = totals b, oq_pod_cap_bytes = pq_pod_cap_bytes req\<rparr>)
       (sort_key bucket_pod_id (filter (\<lambda>b. pq_pod_cap_bytes req < totals b) (remdups (map le_pod logs))))"

fun corrupt_of :: "LogEntry list \<Rightarrow> (store_file \<times> SidecarError) list" where
  "corrupt_of [] = []"
| "corrupt_of (l # ls) = (case le_corrupt_error l of None \<Rightarrow> [] | Some err \<Rightarrow> [(le_framelog l, err)]) @ corrupt_of ls"

text \<open>Both phases, and the report between them.\<close>

definition prune_pass ::
  "'e store_env \<Rightarrow> sidecar_codec \<Rightarrow> ('e \<Rightarrow> store_file set) \<Rightarrow> PruneRequest \<Rightarrow> LogEntry list \<Rightarrow> PruneOutcome \<Rightarrow> 'e \<Rightarrow> 'e pass" where
  "prune_pass env ck live req logs outcome e =
     (let sorted = deletion_order logs;
          p1 = quota_phase env ck live req sorted
                 \<lparr>ps_totals = bucket_total logs, ps_total = sum_list (map le_bytes_of logs), ps_attempted = {},
                  ps_outcome = outcome, ps_env = e\<rparr>;
          p2 = p1\<lparr>ps_outcome := (ps_outcome p1)\<lparr>po_over_quota := over_quota_report req logs (ps_totals p1)\<rparr>\<rparr>
      in cap_phase env ck live req sorted p2)"

definition prune_logs ::
  "'e store_env \<Rightarrow> sidecar_codec \<Rightarrow> ('e \<Rightarrow> store_file set) \<Rightarrow> PruneRequest \<Rightarrow> LogEntry list \<Rightarrow> 'e \<Rightarrow> PruneOutcome \<times> 'e" where
  "prune_logs env ck live req logs e =
     (let outcome = PruneOutcome_default\<lparr>po_kept_corrupt := corrupt_of logs\<rparr>;
          total = sum_list (map le_bytes_of logs);
          any_over_quota = (\<exists>l \<in> set logs. pq_pod_cap_bytes req < bucket_total logs (le_pod l))
      in if total \<le> pq_cap_bytes req \<and> \<not> any_over_quota then (outcome, e)
         else
           let p = prune_pass env ck live req logs outcome e
           in (if pq_cap_bytes req < ps_total p
               then (ps_outcome p)\<lparr>po_halted := Some \<lparr>ph_remaining_bytes = ps_total p, ph_cap_bytes = pq_cap_bytes req\<rparr>\<rparr>
               else ps_outcome p, ps_env p))"

definition prune ::
  "'e store_env \<Rightarrow> sidecar_codec \<Rightarrow> ('e \<Rightarrow> store_file set) \<Rightarrow> PruneRequest \<Rightarrow> 'e \<Rightarrow> (io_error + PruneOutcome) \<times> 'e" where
  "prune env ck live req e =
     (case inventory env ck live req e of
        (Inl err, e1) \<Rightarrow> (Inl err, e1)
      | (Inr logs, e1) \<Rightarrow> (case prune_logs env ck live req logs e1 of (outcome, e2) \<Rightarrow> (Inr outcome, e2)))"

section \<open>Pins\<close>

definition pinned_log :: "sidecar_codec \<Rightarrow> ('e \<Rightarrow> path \<rightharpoonup> bytes) \<Rightarrow> store_file \<Rightarrow> 'e \<Rightarrow> bool" where
  "pinned_log ck disk f e \<longleftrightarrow> disk e (full_path f) \<noteq> None \<and> sidecar_at ck disk (sidecar_path f) sd_pinned e"

section \<open>What a deletion takes\<close>

definition entry_of :: "path \<Rightarrow> LogEntry \<Rightarrow> bool" where
  "entry_of d log \<longleftrightarrow> log_file d (le_framelog log) \<and>
     (le_sidecar log = None \<or> le_sidecar log = Some (sidecar_path (le_framelog log)))"

lemma on_disk_prunable_disk:
  assumes d: "disk_ok env disk" and r: "on_disk_prunable env ck f tier e = (ok, e')"
  shows "disk e' = disk e" "ok \<Longrightarrow> \<not> sidecar_at ck disk (sidecar_path f) sd_pinned e"
proof -
  obtain x where x: "se_read env (full_path (sidecar_path f)) e = (x, e')"
    using r by (auto simp: on_disk_prunable_def sidecar_read_def split: prod.splits sum.splits SidecarError.splits if_splits option.splits)
  show "disk e' = disk e" by (rule disk_okD(2) [OF d x])
  show "\<not> sidecar_at ck disk (sidecar_path f) sd_pinned e" if ok
  proof (cases x)
    case (Inl err)
    then have "kind err = NotFoundKind"
      using r x that by (auto simp: on_disk_prunable_def sidecar_read_def split: if_splits)
    then show ?thesis using disk_okD(4) [OF d] x Inl by (simp add: sidecar_at_def)
  next
    case (Inr bs)
    then have "disk e (full_path (sidecar_path f)) = Some bs" using disk_okD(3) [OF d] x by simp
    then show ?thesis
      using r x that Inr by (auto simp: on_disk_prunable_def sidecar_read_def sidecar_at_def split: option.splits)
  qed
qed

lemma unlink_pair_disk:
  assumes d: "disk_ok env disk" and u: "unlink_pair env log e = (r, e')"
    and p: "p \<noteq> full_path (le_framelog log)" "\<And>s. le_sidecar log = Some s \<Longrightarrow> p \<noteq> full_path s"
  shows "disk e' p = disk e p"
proof -
  obtain r1 e1 where 1: "(case le_sidecar log of None \<Rightarrow> (None, e) | Some s \<Rightarrow> se_remove_file env (full_path s) e) = (r1, e1)" by fastforce
  have "disk e1 p = disk e p" using 1 p(2) disk_okD(8) [OF d] by (auto split: option.splits if_splits)
  moreover have "disk e' p = disk e1 p"
    using u 1 p(1) disk_okD(8) [OF d] unfolding unlink_pair_def by (auto split: option.splits if_splits)
  ultimately show ?thesis by simp
qed

text \<open>The locked part leaves every other log its two files, and takes this one's only if it is not pinned then.\<close>

lemma delete_locked_disk:
  assumes d: "disk_ok env disk" and en: "entry_of dir log" and f: "log_file dir f"
    and t: "delete_locked env ck log req reason outcome e = (r, outcome', e')"
  shows "disk e' (full_path f) = disk e (full_path f) \<and> disk e' (full_path (sidecar_path f)) = disk e (full_path (sidecar_path f)) \<or>
    f = le_framelog log \<and> \<not> sidecar_at ck disk (sidecar_path f) sd_pinned e"
proof -
  obtain lk e1 where l: "se_lock env (pq_store_dir req) e = (lk, e1)" by fastforce
  obtain ok e2 where o: "on_disk_prunable env ck (le_framelog log) (le_tier log) e1 = (ok, e2)" by fastforce
  note d1 = disk_okD(1) [OF d l] on_disk_prunable_disk [OF d o]
  show ?thesis
  proof (cases "lk = None \<and> ok")
    case True
    obtain u e3 where u: "unlink_pair env log e2 = (u, e3)" by fastforce
    have e': "e' = e3" using t l o u True unfolding delete_locked_def by (auto split: option.splits)
    have np: "\<not> sidecar_at ck disk (sidecar_path (le_framelog log)) sd_pinned e" using d1 True by (simp add: sidecar_at_def)
    have fl: "log_file dir (le_framelog log)" using en by (simp add: entry_of_def)
    show ?thesis
    proof (cases "f = le_framelog log")
      case True
      then show ?thesis using np by simp
    next
      case ne: False
      have sc: "\<And>s. le_sidecar log = Some s \<Longrightarrow> s = sidecar_path (le_framelog log)" using en by (auto simp: entry_of_def)
      have "disk e3 (full_path f) = disk e2 (full_path f)"
        by (rule unlink_pair_disk [OF d u]) (use ne full_path_log_inj [OF f fl] log_not_other(1) [OF f] sc in metis)+
      moreover have "disk e3 (full_path (sidecar_path f)) = disk e2 (full_path (sidecar_path f))"
        by (rule unlink_pair_disk [OF d u]) (use ne sidecar_path_inj [OF f fl] log_not_other(1) [OF fl] sc in metis)+
      ultimately show ?thesis using e' d1 by simp
    qed
  next
    case False
    then have "disk e' = disk e" using t l o d1(1,2) unfolding delete_locked_def by (auto split: option.splits)
    then show ?thesis by simp
  qed
qed

text \<open>With the live set looked at before: this one loses them only if it is neither open nor pinned.\<close>

lemma try_delete_disk:
  assumes d: "disk_ok env disk" and en: "entry_of dir log" and f: "log_file dir f"
    and t: "try_delete env ck live log req reason outcome e = (r, outcome', e')"
  shows "disk e' (full_path f) = disk e (full_path f) \<and> disk e' (full_path (sidecar_path f)) = disk e (full_path (sidecar_path f)) \<or>
    f = le_framelog log \<and> f \<notin> live e \<and> \<not> sidecar_at ck disk (sidecar_path f) sd_pinned e"
proof (cases "le_corrupt_error log \<noteq> None \<or> le_framelog log \<in> live e \<or> le_open log \<or> le_pinned log")
  case True
  then show ?thesis using t by (auto simp: try_delete_def split: if_splits)
next
  case False
  then have "delete_locked env ck log req reason outcome e = (r, outcome', e')" using t by (simp add: try_delete_def)
  from delete_locked_disk [OF d en f this] show ?thesis using False by auto
qed

section \<open>Every process on the store\<close>

text \<open>
  One step of any process on the store \<open>d\<close>: a daemon rewrites a sidecar from its memory, a pin is set, a label is
  set, a pass of the pruner tries to delete a log it has listed earlier, at once or with its look at the live set any
  time before (\<open>delete_late\<close>), or a recorder creates or extends logs, which leaves the sidecars alone.
\<close>

inductive store_step ::
  "'e store_env \<Rightarrow> sidecar_codec \<Rightarrow> ('e \<Rightarrow> store_file set) \<Rightarrow> ('e \<Rightarrow> path \<rightharpoonup> bytes) \<Rightarrow> path \<Rightarrow> 'e \<Rightarrow> 'e \<Rightarrow> bool"
  for env ck live disk d where
  rewrite: "write_atomic env ck (sidecar_path g) sc e = (res, sc', e') \<Longrightarrow> store_step env ck live disk d e e'"
| pin: "set_pinned env ck (sidecar_path g) e = (res, e') \<Longrightarrow> store_step env ck live disk d e e'"
| label: "set_wake_class env ck (sidecar_path g) sid part wake e = (upd, e') \<Longrightarrow> store_step env ck live disk d e e'"
| delete: "try_delete env ck live log req reason outcome e = (r, outcome', e') \<Longrightarrow> entry_of d log \<Longrightarrow> store_step env ck live disk d e e'"
| delete_late: "delete_locked env ck log req reason outcome e = (r, outcome', e') \<Longrightarrow> entry_of d log \<Longrightarrow> store_step env ck live disk d e e'"
| recording: "(\<And>g. disk e' (full_path (sidecar_path g)) = disk e (full_path (sidecar_path g))) \<Longrightarrow>
    (\<And>g. log_file d g \<Longrightarrow> disk e (full_path g) \<noteq> None \<Longrightarrow> disk e' (full_path g) \<noteq> None) \<Longrightarrow> store_step env ck live disk d e e'"

lemma store_step_pinned:
  assumes laws: "disk_ok env disk" "sidecar_codec_ok ck" and f: "log_file d f"
    and st: "store_step env ck live disk d e e'" and p: "pinned_log ck disk f e"
  shows "pinned_log ck disk f e'"
proof -
  note K = rewrites_keep_pin [OF laws is_sidecar_path conjunct2 [OF p [unfolded pinned_log_def]]] and L = rewrites_keep_log [OF laws(1) f]
  show ?thesis
    using st
  proof cases
    case (rewrite g sc res sc')
    then show ?thesis using K(1) L(1) p by (simp add: pinned_log_def)
  next
    case (pin g res)
    then show ?thesis using K(2) L(2) p by (simp add: pinned_log_def)
  next
    case (label g sid part wake upd)
    then show ?thesis using K(3) L(3) p by (simp add: pinned_log_def)
  next
    case (delete log req reason outcome r outcome')
    then show ?thesis using try_delete_disk [OF laws(1) delete(2) f delete(1)] p by (auto simp: pinned_log_def sidecar_at_def)
  next
    case (delete_late log req reason outcome r outcome')
    then show ?thesis using delete_locked_disk [OF laws(1) delete_late(2) f delete_late(1)] p by (auto simp: pinned_log_def sidecar_at_def)
  next
    case recording
    then show ?thesis using p f by (simp add: pinned_log_def sidecar_at_def)
  qed
qed

text \<open>A directory lists each name once, and a name is not empty and holds no slash at its start.\<close>

definition read_dir_ok :: "'e store_env \<Rightarrow> bool" where
  "read_dir_ok env \<longleftrightarrow>
     (\<forall>p e es e'. se_read_dir env p e = (Inr es, e') \<longrightarrow> (\<forall>n. Inr n \<in> set es \<longrightarrow> plain n) \<and> distinct (filter (\<lambda>x. \<exists>n. x = Inr n) es))"

lemma sidecar_read_disk: "disk_ok env disk \<Longrightarrow> sidecar_read env ck p e = (r, e') \<Longrightarrow> disk e' = disk e"
  using disk_okD(2) by (auto simp: sidecar_read_def split: prod.splits sum.splits)

lemma classify_disk:
  assumes "disk_ok env disk" "classify env ck sc e = (r, e')"
  shows "disk e' = disk e"
proof (cases sc)
  case (Some path)
  obtain x e1 where x: "sidecar_read env ck path e = (x, e1)" by fastforce
  have "e' = e1" using assms(2) x Some by (auto simp: classify_def split: sum.splits SidecarError.splits)
  then show ?thesis using sidecar_read_disk [OF assms(1) x] by simp
qed (use assms(2) in \<open>simp add: classify_def\<close>)

lemma inventory_entry_ok:
  assumes d: "disk_ok env disk" and n: "plain name" and i: "inventory_entry env ck live (dir, name) e = (res, e')"
  shows "disk e' = disk e" "res = Inr (Some log) \<Longrightarrow> entry_of dir log \<and> le_framelog log = (dir, name)"
proof -
  obtain md e1 where 1: "se_metadata env (full_path (dir, name)) e = (md, e1)" by fastforce
  obtain ms e2 where 2: "se_metadata env (full_path (sidecar_path (dir, name))) e1 = (ms, e2)" by fastforce
  have d2: "disk e1 = disk e" "disk e2 = disk e" using disk_okD(9) [OF d 1] disk_okD(9) [OF d 2] by simp_all
  have cl: "disk e3 = disk e" if "classify env ck sc e2 = (c, e3)" for sc c e3 using classify_disk [OF d that] d2 by simp
  show "disk e' = disk e"
    using i 1 2 d2 cl by (auto simp: inventory_entry_def Let_def split: if_splits sum.splits prod.splits)
  show "entry_of dir log \<and> le_framelog log = (dir, name)" if "res = Inr (Some log)"
    using i 1 2 that n by (auto simp: inventory_entry_def entry_of_def log_file_def Let_def split: if_splits sum.splits prod.splits)
qed

lemma inventory_entries_ok:
  assumes "disk_ok env disk"
  shows "(\<forall>n. Inr n \<in> set es \<longrightarrow> plain n) \<Longrightarrow> inventory_entries env ck live dir es e = (res, e') \<Longrightarrow>
    disk e' = disk e \<and> (\<forall>logs. res = Inr logs \<longrightarrow> list_all (entry_of dir) logs \<and> (\<forall>l \<in> set logs. \<exists>n. le_framelog l = (dir, n) \<and> Inr n \<in> set es) \<and>
      (distinct (filter (\<lambda>x. \<exists>n. x = Inr n) es) \<longrightarrow> distinct (map le_framelog logs)))"
proof (induction es arbitrary: e e' res)
  case (Cons x es)
  show ?case
  proof (cases x)
    case (Inl err)
    then show ?thesis using Cons.prems(2) by auto
  next
    case (Inr name)
    obtain en e1 where 1: "inventory_entry env ck live (dir, name) e = (en, e1)" by fastforce
    have plain: "plain name" "\<forall>n. Inr n \<in> set es \<longrightarrow> plain n" using Cons.prems(1) Inr by auto
    note E = inventory_entry_ok [OF assms plain(1) 1]
    obtain rs e2 where 2: "inventory_entries env ck live dir es e1 = (rs, e2)" by fastforce
    note IH = Cons.IH [OF plain(2) 2]
    show ?thesis
      using Cons.prems(2) 1 2 Inr E IH
      by (auto split: sum.splits option.splits) fastforce+
  qed
qed auto

lemma inventory_ok:
  assumes d: "disk_ok env disk" and n: "read_dir_ok env" and i: "inventory env ck live req e = (res, e')"
  shows "disk e' = disk e" "res = Inr logs \<Longrightarrow> list_all (entry_of (pq_store_dir req)) logs \<and> distinct (map le_framelog logs)"
proof -
  obtain r e1 where r: "se_read_dir env (pq_store_dir req) e = (r, e1)" by fastforce
  have d1: "disk e1 = disk e" by (rule disk_okD(10) [OF d r])
  show "disk e' = disk e" "res = Inr logs \<Longrightarrow> list_all (entry_of (pq_store_dir req)) logs \<and> distinct (map le_framelog logs)"
  proof -
    show "disk e' = disk e"
    proof (cases r)
      case (Inl err)
      then show ?thesis using i r d1 by (auto simp: inventory_def)
    next
      case (Inr es)
      then have "\<forall>n. Inr n \<in> set es \<longrightarrow> plain n" using n r unfolding read_dir_ok_def by blast
      from inventory_entries_ok [OF d this] show ?thesis using i r Inr d1 by (auto simp: inventory_def)
    qed
    show "list_all (entry_of (pq_store_dir req)) logs \<and> distinct (map le_framelog logs)" if "res = Inr logs"
    proof (cases r)
      case (Inl err)
      then show ?thesis using i r that by (auto simp: inventory_def split: if_splits)
    next
      case (Inr es)
      then have es: "\<forall>n. Inr n \<in> set es \<longrightarrow> plain n" "distinct (filter (\<lambda>x. \<exists>n. x = Inr n) es)"
        using n r unfolding read_dir_ok_def by blast+
      from inventory_entries_ok [OF d es(1)] show ?thesis using i r Inr that es(2) by (auto simp: inventory_def)
    qed
  qed
qed

section \<open>A pass is a run of steps\<close>

lemma quota_phase_steps:
  "list_all (entry_of d) logs \<Longrightarrow> (store_step env ck live disk d)\<^sup>*\<^sup>* (ps_env p) (ps_env (quota_phase env ck live req logs p))"
proof (induction logs arbitrary: p)
  case (Cons log logs)
  obtain r outcome e1 where t: "try_delete env ck live log req PodQuota (ps_outcome p) (ps_env p) = (r, outcome, e1)" by (metis prod_cases3)
  have s: "store_step env ck live disk d (ps_env p) e1" by (rule store_step.delete [OF t]) (use Cons.prems in simp)
  show ?case
  proof (cases "ps_totals p (le_pod log) \<le> pq_pod_cap_bytes req")
    case True
    then show ?thesis using Cons.IH [of p] Cons.prems by simp
  next
    case False
    obtain p1 where p1: "quota_phase env ck live req (log # logs) p = quota_phase env ck live req logs p1" "ps_env p1 = e1"
      using False t by (cases r) (auto simp: Let_def)
    show ?thesis using converse_rtranclp_into_rtranclp [of "store_step env ck live disk d", OF s] Cons.IH [of p1] Cons.prems p1 by simp
  qed
qed simp

lemma cap_phase_steps:
  "list_all (entry_of d) logs \<Longrightarrow> (store_step env ck live disk d)\<^sup>*\<^sup>* (ps_env p) (ps_env (cap_phase env ck live req logs p))"
proof (induction logs arbitrary: p)
  case (Cons log logs)
  obtain r outcome e1 where t: "try_delete env ck live log req GlobalCap (ps_outcome p) (ps_env p) = (r, outcome, e1)" by (metis prod_cases3)
  have s: "store_step env ck live disk d (ps_env p) e1" by (rule store_step.delete [OF t]) (use Cons.prems in simp)
  let ?p = "p\<lparr>ps_outcome := outcome, ps_env := e1, ps_total := (case r of None \<Rightarrow> ps_total p | Some bytes \<Rightarrow> ps_total p - bytes)\<rparr>"
  show ?case
    using Cons.IH [of p] Cons.IH [of ?p] Cons.prems t converse_rtranclp_into_rtranclp [of "store_step env ck live disk d", OF s] by simp
qed simp

lemma prune_pass_steps:
  assumes "list_all (entry_of d) logs"
  shows "(store_step env ck live disk d)\<^sup>*\<^sup>* e (ps_env (prune_pass env ck live req logs outcome e))"
proof -
  have en: "list_all (entry_of d) (deletion_order logs)" using assms by (simp add: deletion_order_def list_all_iff)
  let ?p0 = "\<lparr>ps_totals = bucket_total logs, ps_total = sum_list (map le_bytes_of logs), ps_attempted = {}, ps_outcome = outcome, ps_env = e\<rparr>"
  let ?p1 = "quota_phase env ck live req (deletion_order logs) ?p0"
  let ?p2 = "?p1\<lparr>ps_outcome := (ps_outcome ?p1)\<lparr>po_over_quota := over_quota_report req logs (ps_totals ?p1)\<rparr>\<rparr>"
  have "(store_step env ck live disk d)\<^sup>*\<^sup>* e (ps_env ?p2)" using quota_phase_steps [OF en, of env ck live disk ?p0 req] by simp
  moreover have "(store_step env ck live disk d)\<^sup>*\<^sup>* (ps_env ?p2) (ps_env (cap_phase env ck live req (deletion_order logs) ?p2))"
    by (rule cap_phase_steps [OF en])
  ultimately show ?thesis unfolding prune_pass_def Let_def by (rule rtranclp_trans)
qed

lemma prune_steps:
  assumes "disk_ok env disk" "read_dir_ok env" "prune env ck live req e = (res, e')"
  shows "(store_step env ck live disk (pq_store_dir req))\<^sup>*\<^sup>* e e'"
proof -
  obtain r e1 where i: "inventory env ck live req e = (r, e1)" by fastforce
  note I = inventory_ok [OF assms(1,2) i]
  have q: "store_step env ck live disk (pq_store_dir req) e e1" by (rule store_step.recording) (simp_all add: I(1))
  show ?thesis
  proof (cases r)
    case (Inl err)
    then show ?thesis using assms(3) i q by (auto simp: prune_def)
  next
    case (Inr logs)
    have "(store_step env ck live disk (pq_store_dir req))\<^sup>*\<^sup>* e1 e'"
      using assms(3) i Inr prune_pass_steps [OF conjunct1 [OF I(2) [OF Inr]]]
      by (auto simp: prune_def prune_logs_def Let_def split: if_splits)
    then show ?thesis by (rule converse_rtranclp_into_rtranclp [of "store_step env ck live disk (pq_store_dir req)", OF q])
  qed
qed

lemma run_pinned:
  assumes "disk_ok env disk" "sidecar_codec_ok ck" "log_file d f" "(store_step env ck live disk d)\<^sup>*\<^sup>* e e'" "pinned_log ck disk f e"
  shows "pinned_log ck disk f e'"
  using assms(4,5)
proof (induction rule: rtranclp_induct)
  case (step e1 e2)
  then show ?case using store_step_pinned [OF assms(1-3)] by blast
qed simp

section \<open>Accounting\<close>

definition pruned_of :: "PruneReason \<Rightarrow> LogEntry \<Rightarrow> PrunedLog" where
  "pruned_of reason log =
     \<lparr>pl_framelog = le_framelog log, pl_sidecar = le_sidecar log, pl_bytes = le_bytes_of log, pl_tier = le_tier log,
      pl_pod_id = bucket_pod_id (le_pod log), pl_reason = reason\<rparr>"

definition log_bytes :: "LogEntry list \<Rightarrow> nat" where
  "log_bytes logs = sum_list (map le_bytes_of logs)"

lemma log_bytes_simps [simp]: "log_bytes [] = 0" "log_bytes (l # ls) = le_bytes_of l + log_bytes ls"
  "log_bytes (xs @ ys) = log_bytes xs + log_bytes ys"
  by (simp_all add: log_bytes_def)

lemma try_delete_account:
  assumes "try_delete env ck live log req reason outcome e = (r, outcome', e')"
  shows "po_halted outcome' = po_halted outcome"
    "r = None \<and> po_pruned outcome' = po_pruned outcome \<or>
     r = Some (le_bytes_of log) \<and> po_pruned outcome' = po_pruned outcome @ [pruned_of reason log]"
  using assms unfolding try_delete_def delete_locked_def
  by (auto simp: delete_failed_def pruned_of_def split: if_splits option.splits prod.splits bool.splits)

text \<open>The logs a phase deletes, in the order it meets them, and what is left of the totals.\<close>

lemma quota_phase_account:
  "\<exists>ds. subseq ds logs \<and> po_pruned (ps_outcome (quota_phase env ck live req logs p)) =
      po_pruned (ps_outcome p) @ map (pruned_of PodQuota) ds \<and>
    ps_total (quota_phase env ck live req logs p) = ps_total p - log_bytes ds \<and>
    po_halted (ps_outcome (quota_phase env ck live req logs p)) = po_halted (ps_outcome p) \<and>
    (\<forall>l \<in> set ds. pq_pod_cap_bytes req < ps_totals p (le_pod l)) \<and>
    ps_attempted p \<union> le_framelog ` set ds \<subseteq> ps_attempted (quota_phase env ck live req logs p)"
proof (induction logs arbitrary: p)
  case (Cons log logs)
  show ?case
  proof (cases "ps_totals p (le_pod log) \<le> pq_pod_cap_bytes req")
    case True
    then show ?thesis using Cons.IH [of p] by (auto intro: list_emb_Cons)
  next
    case False
    obtain r outcome e1 where t: "try_delete env ck live log req PodQuota (ps_outcome p) (ps_env p) = (r, outcome, e1)" by (metis prod_cases3)
    note A = try_delete_account [OF t]
    define p1 where "p1 = (let p1 = p\<lparr>ps_attempted := insert (le_framelog log) (ps_attempted p), ps_outcome := outcome, ps_env := e1\<rparr> in
      case r of None \<Rightarrow> p1 | Some bytes \<Rightarrow>
        p1\<lparr>ps_totals := (ps_totals p)(le_pod log := ps_totals p (le_pod log) - bytes), ps_total := ps_total p - bytes\<rparr>)"
    have q: "quota_phase env ck live req (log # logs) p = quota_phase env ck live req logs p1"
      using False t by (simp add: p1_def)
    have p1: "ps_outcome p1 = outcome" "ps_attempted p1 = insert (le_framelog log) (ps_attempted p)"
      "ps_total p1 = ps_total p - (case r of None \<Rightarrow> 0 | Some b \<Rightarrow> b)" "\<And>b. ps_totals p1 b \<le> ps_totals p b"
      by (cases r; simp add: p1_def Let_def)+
    obtain ds where ds: "subseq ds logs" "po_pruned (ps_outcome (quota_phase env ck live req logs p1)) =
        po_pruned (ps_outcome p1) @ map (pruned_of PodQuota) ds"
      "ps_total (quota_phase env ck live req logs p1) = ps_total p1 - log_bytes ds"
      "po_halted (ps_outcome (quota_phase env ck live req logs p1)) = po_halted (ps_outcome p1)"
      "\<forall>l \<in> set ds. pq_pod_cap_bytes req < ps_totals p1 (le_pod l)"
      "ps_attempted p1 \<union> le_framelog ` set ds \<subseteq> ps_attempted (quota_phase env ck live req logs p1)"
      using Cons.IH [of p1] by blast
    have above: "\<forall>l \<in> set ds. pq_pod_cap_bytes req < ps_totals p (le_pod l)" using ds(5) p1(4) by (meson less_le_trans)
    show ?thesis
    proof (cases r)
      case None
      then show ?thesis unfolding q using ds A p1 above by (intro exI [of _ ds]) (auto intro: list_emb_Cons)
    next
      case (Some b)
      then show ?thesis unfolding q using ds A p1 above False by (intro exI [of _ "log # ds"]) auto
    qed
  qed
qed auto

lemma cap_phase_account:
  "\<exists>ds. subseq ds logs \<and> po_pruned (ps_outcome (cap_phase env ck live req logs p)) =
      po_pruned (ps_outcome p) @ map (pruned_of GlobalCap) ds \<and>
    ps_total (cap_phase env ck live req logs p) = ps_total p - log_bytes ds \<and>
    po_halted (ps_outcome (cap_phase env ck live req logs p)) = po_halted (ps_outcome p) \<and>
    (\<forall>l \<in> set ds. le_framelog l \<notin> ps_attempted p) \<and>
    (ds \<noteq> [] \<longrightarrow> pq_cap_bytes req < ps_total p - log_bytes (butlast ds))"
proof (induction logs arbitrary: p)
  case (Cons log logs)
  show ?case
  proof (cases "ps_total p \<le> pq_cap_bytes req \<or> le_framelog log \<in> ps_attempted p")
    case True
    then show ?thesis using Cons.IH [of p] by (cases "ps_total p \<le> pq_cap_bytes req") (auto intro: list_emb_Cons exI [of _ "[]"])
  next
    case False
    obtain r outcome e1 where t: "try_delete env ck live log req GlobalCap (ps_outcome p) (ps_env p) = (r, outcome, e1)" by (metis prod_cases3)
    note A = try_delete_account [OF t]
    let ?p = "p\<lparr>ps_outcome := outcome, ps_env := e1, ps_total := (case r of None \<Rightarrow> ps_total p | Some bytes \<Rightarrow> ps_total p - bytes)\<rparr>"
    have q: "cap_phase env ck live req (log # logs) p = cap_phase env ck live req logs ?p" using False t by simp
    obtain ds where ds: "subseq ds logs" "po_pruned (ps_outcome (cap_phase env ck live req logs ?p)) = po_pruned outcome @ map (pruned_of GlobalCap) ds"
      "ps_total (cap_phase env ck live req logs ?p) = ps_total ?p - log_bytes ds"
      "po_halted (ps_outcome (cap_phase env ck live req logs ?p)) = po_halted outcome"
      "\<forall>l \<in> set ds. le_framelog l \<notin> ps_attempted p" "ds \<noteq> [] \<longrightarrow> pq_cap_bytes req < ps_total ?p - log_bytes (butlast ds)"
      using Cons.IH [of ?p] by auto
    show ?thesis
    proof (cases r)
      case None
      then show ?thesis unfolding q using ds A by (intro exI [of _ ds]) (auto intro: list_emb_Cons)
    next
      case (Some b)
      have "pq_cap_bytes req < ps_total p - log_bytes (butlast (log # ds))"
        using False ds(6) Some A(2) by (cases "ds = []") auto
      then show ?thesis unfolding q using ds A Some False by (intro exI [of _ "log # ds"]) auto
    qed
  qed
qed auto

lemma subseq_distinct_map: "subseq xs ys \<Longrightarrow> distinct (map f ys) \<Longrightarrow> distinct (map f xs) \<and> set xs \<subseteq> set ys"
  by (induction rule: list_emb.induct) auto

lemma log_bytes_set: "distinct (map le_framelog logs) \<Longrightarrow> log_bytes logs = sum le_bytes_of (set logs)"
  by (simp add: log_bytes_def distinct_map sum_list_distinct_conv_sum_set)

text \<open>Two disjoint selections of a list without repetition weigh no more than the list.\<close>

lemma disjoint_subseqs:
  assumes "distinct (map le_framelog logs)" "subseq xs logs" "subseq ys logs" "le_framelog ` set xs \<inter> le_framelog ` set ys = {}"
  shows "log_bytes xs + log_bytes ys \<le> log_bytes logs" "distinct (map le_framelog (xs @ ys))"
proof -
  have d: "distinct (map le_framelog xs) \<and> set xs \<subseteq> set logs" "distinct (map le_framelog ys) \<and> set ys \<subseteq> set logs"
    using subseq_distinct_map assms(1-3) by blast+
  then show fd: "distinct (map le_framelog (xs @ ys))" using assms(4) by auto
  have "sum le_bytes_of (set (xs @ ys)) \<le> sum le_bytes_of (set logs)" using d by (intro sum_mono2) auto
  then show "log_bytes xs + log_bytes ys \<le> log_bytes logs"
    using log_bytes_set [OF assms(1)] log_bytes_set [OF fd] by simp
qed

lemma deletion_order_bytes:
  assumes "distinct (map le_framelog logs)"
  shows "distinct (map le_framelog (deletion_order logs))" "log_bytes (deletion_order logs) = log_bytes logs"
proof -
  show d: "distinct (map le_framelog (deletion_order logs))" using assms by (simp add: deletion_order_def distinct_map)
  show "log_bytes (deletion_order logs) = log_bytes logs"
    using log_bytes_set [OF assms] log_bytes_set [OF d] by (simp add: deletion_order_def)
qed

text \<open>Both phases together: the logs deleted for their pod's quota, then those for the cap.\<close>

lemma prune_pass_account:
  assumes dist: "distinct (map le_framelog logs)" and out: "po_pruned outcome = []"
  obtains qs cs where "subseq qs (deletion_order logs)" "subseq cs (deletion_order logs)"
    "po_pruned (ps_outcome (prune_pass env ck live req logs outcome e)) = map (pruned_of PodQuota) qs @ map (pruned_of GlobalCap) cs"
    "ps_total (prune_pass env ck live req logs outcome e) = log_bytes logs - (log_bytes qs + log_bytes cs)"
    "po_halted (ps_outcome (prune_pass env ck live req logs outcome e)) = po_halted outcome"
    "log_bytes qs + log_bytes cs \<le> log_bytes logs" "distinct (map le_framelog (qs @ cs))"
    "\<forall>l \<in> set qs. pq_pod_cap_bytes req < bucket_total logs (le_pod l)"
    "cs \<noteq> [] \<Longrightarrow> pq_cap_bytes req < log_bytes logs - (log_bytes qs + log_bytes (butlast cs))"
proof -
  define p0 where "p0 = \<lparr>ps_totals = bucket_total logs, ps_total = sum_list (map le_bytes_of logs), ps_attempted = {}, ps_outcome = outcome, ps_env = e\<rparr>"
  define p1 where "p1 = quota_phase env ck live req (deletion_order logs) p0"
  define p2 where "p2 = p1\<lparr>ps_outcome := (ps_outcome p1)\<lparr>po_over_quota := over_quota_report req logs (ps_totals p1)\<rparr>\<rparr>"
  have p: "prune_pass env ck live req logs outcome e = cap_phase env ck live req (deletion_order logs) p2"
    by (simp add: prune_pass_def p0_def p1_def p2_def Let_def)
  obtain qs where qs: "subseq qs (deletion_order logs)" "po_pruned (ps_outcome p1) = map (pruned_of PodQuota) qs"
      "ps_total p1 = log_bytes logs - log_bytes qs" "po_halted (ps_outcome p1) = po_halted outcome"
      "\<forall>l \<in> set qs. pq_pod_cap_bytes req < bucket_total logs (le_pod l)" "le_framelog ` set qs \<subseteq> ps_attempted p1"
    using quota_phase_account [of "deletion_order logs" env ck live req p0] out unfolding p1_def by (auto simp: p0_def log_bytes_def)
  obtain cs where cs: "subseq cs (deletion_order logs)"
      "po_pruned (ps_outcome (cap_phase env ck live req (deletion_order logs) p2)) = po_pruned (ps_outcome p1) @ map (pruned_of GlobalCap) cs"
      "ps_total (cap_phase env ck live req (deletion_order logs) p2) = ps_total p1 - log_bytes cs"
      "po_halted (ps_outcome (cap_phase env ck live req (deletion_order logs) p2)) = po_halted (ps_outcome p1)"
      "\<forall>l \<in> set cs. le_framelog l \<notin> ps_attempted p1" "cs \<noteq> [] \<longrightarrow> pq_cap_bytes req < ps_total p1 - log_bytes (butlast cs)"
    using cap_phase_account [of "deletion_order logs" env ck live req p2] by (auto simp: p2_def)
  have "le_framelog ` set qs \<inter> le_framelog ` set cs = {}" using qs(6) cs(5) by (auto, metis imageI subsetD)
  note D = disjoint_subseqs [OF deletion_order_bytes(1) [OF dist] qs(1) cs(1) this]
  show ?thesis
    using that [OF qs(1) cs(1)] qs cs D deletion_order_bytes(2) [OF dist] unfolding p by simp
qed

section \<open>A recorder among the others\<close>

text \<open>
  What the others do between two actions of a connection's recorder. The state has the shared part, the store, the logs
  some pass of a pruner has listed so far, and those of them that a pass has found not to be open and
  is about to delete. A pass lists a file that is there; later it looks at the live set, and later still it takes the
  store lock, reads the sidecar again and deletes: three steps, between which anything may happen. Other processes rewrite
  sidecars; other connections do what they like to logs that are not this one's.
\<close>

type_synonym 'e store_state = "RecorderShared \<times> 'e \<times> store_file set \<times> store_file set"

inductive bystander ::
  "'e store_env \<Rightarrow> sidecar_codec \<Rightarrow> ('e \<Rightarrow> path \<rightharpoonup> bytes) \<Rightarrow> path \<Rightarrow> (store_file \<Rightarrow> bool) \<Rightarrow> 'e store_state \<Rightarrow> 'e store_state \<Rightarrow> bool"
  for env ck disk d own where
  listed: "log_file d f \<Longrightarrow> full_path f \<in> dom (disk e) \<Longrightarrow> bystander env ck disk d own (sh, e, L, C) (sh, e, insert f L, C)"
| found_closed: "f \<in> L \<Longrightarrow> f \<notin> sh_open_logs sh \<Longrightarrow> bystander env ck disk d own (sh, e, L, C) (sh, e, L, insert f C)"
| deleted: "delete_locked env ck log req reason outcome e = (r, outcome', e') \<Longrightarrow> entry_of d log \<Longrightarrow> le_framelog log \<in> C \<Longrightarrow>
    bystander env ck disk d own (sh, e, L, C) (sh, e', L, C)"
| rewrite: "write_atomic env ck (sidecar_path g) sc e = (res, sc', e') \<Longrightarrow> bystander env ck disk d own (sh, e, L, C) (sh, e', L, C)"
| pin: "set_pinned env ck (sidecar_path g) e = (pinned, e') \<Longrightarrow> bystander env ck disk d own (sh, e, L, C) (sh, e', L, C)"
| label: "set_wake_class env ck (sidecar_path g) sid part wake e = (upd, e') \<Longrightarrow> bystander env ck disk d own (sh, e, L, C) (sh, e', L, C)"
| connection: "(\<And>f. own f \<Longrightarrow> f \<in> sh_open_logs sh' \<longleftrightarrow> f \<in> sh_open_logs sh) \<Longrightarrow>
    (\<And>f. own f \<Longrightarrow> full_path f \<in> dom (disk e') \<longleftrightarrow> full_path f \<in> dom (disk e)) \<Longrightarrow>
    bystander env ck disk d own (sh, e, L, C) (sh', e', L, C)"

text \<open>A pass that is not interrupted takes these steps for each log it has listed.\<close>

lemma try_delete_steps:
  assumes "try_delete env ck (\<lambda>_. sh_open_logs sh) log req reason outcome e = (r, outcome', e')" "entry_of d log" "le_framelog log \<in> L"
  shows "\<exists>C'. (bystander env ck disk d own)\<^sup>*\<^sup>* (sh, e, L, C) (sh, e', L, C')"
proof (cases "le_corrupt_error log \<noteq> None \<or> le_framelog log \<in> sh_open_logs sh \<or> le_open log \<or> le_pinned log")
  case True
  then have "e' = e" using assms(1) by (auto simp: try_delete_def split: if_splits)
  then show ?thesis by blast
next
  case False
  then have "bystander env ck disk d own (sh, e, L, C) (sh, e, L, insert (le_framelog log) C)"
    "bystander env ck disk d own (sh, e, L, insert (le_framelog log) C) (sh, e', L, insert (le_framelog log) C)"
    using assms by (auto simp: try_delete_def intro: bystander.found_closed bystander.deleted)
  then show ?thesis by (meson rtranclp.rtrancl_refl rtranclp.rtrancl_into_rtrancl)
qed

text \<open>
  A connection's recorder among them. It begins an operation when the one before has returned, the handshake while it
  still has the connection's name, and performs its actions one at a time. A log it begins to write to has a name that no
  pass has listed before: names carry the time, the connection's number and the number of the roll.
\<close>

definition new_name :: "store_file set \<Rightarrow> Recorder \<Rightarrow> Recorder \<Rightarrow> bool" where
  "new_name L rc rc' \<longleftrightarrow>
     (\<forall>w'. rc_writer rc' = Some w' \<longrightarrow> (\<exists>w. rc_writer rc = Some w \<and> fl_path w = fl_path w') \<or> fl_path w' \<notin> full_path ` L)"

inductive recorder_step ::
  "'e store_env \<Rightarrow> meta_codec \<Rightarrow> sidecar_codec \<Rightarrow> ('e \<Rightarrow> path \<rightharpoonup> bytes) \<Rightarrow> path \<Rightarrow> bytes \<Rightarrow> u64 \<Rightarrow>
     'e rec_prog \<times> Recorder \<times> 'e store_state \<Rightarrow> 'e rec_prog \<times> Recorder \<times> 'e store_state \<Rightarrow> bool"
  for env mc ck disk d accept_iso conn_seq where
  act: "f (rc, sh, e) = (p, rc', sh', e') \<Longrightarrow> new_name L rc rc' \<Longrightarrow>
    recorder_step env mc ck disk d accept_iso conn_seq (Act f, rc, sh, e, L, C) (p, rc', sh', e', L, C)"
| tap: "recorder_step env mc ck disk d accept_iso conn_seq (Ret b, rc, s) (tap_prog env t frame_bytes rc, rc, s)"
| hello: "rc_log_name rc = conn_log_name accept_iso conn_seq \<Longrightarrow>
    recorder_step env mc ck disk d accept_iso conn_seq (Ret b, rc, s) (hello_prog env pod_id accept_iso conn_seq t frame_bytes rc, rc, s)"
| segment: "recorder_step env mc ck disk d accept_iso conn_seq (Ret b, rc, s) (segment_prog env ck seg rc, rc, s)"
| roll: "recorder_step env mc ck disk d accept_iso conn_seq (Ret b, rc, s)
    (roll_prog env mc build_id pod_id conn_seq max_bytes max_age rc, rc, s)"
| latch: "recorder_step env mc ck disk d accept_iso conn_seq (Ret b, rc, s) (latch_prog env rc, rc, s)"
| finish: "recorder_step env mc ck disk d accept_iso conn_seq (Ret b, rc, s) (finish_prog env rc, rc, s)"
| others: "bystander env ck disk d (own_log d accept_iso conn_seq) s s' \<Longrightarrow>
    recorder_step env mc ck disk d accept_iso conn_seq (p, rc, s) (p, rc, s')"

text \<open>An action of an operation run alone is a step, so an operation run alone before any pass is a run.\<close>

lemma run_prog_steps:
  assumes "run_prog p (rc, sh, e) = (b, rc', sh', e')"
  shows "(recorder_step env mc ck disk d accept_iso conn_seq)\<^sup>*\<^sup>* (p, rc, sh, e, {}, C) (Ret b, rc', sh', e', {}, C)"
  using assms
proof (induction p arbitrary: rc sh e)
  case (Act f)
  obtain p rc1 sh1 e1 where f: "f (rc, sh, e) = (p, rc1, sh1, e1)" by (metis prod_cases4)
  have "recorder_step env mc ck disk d accept_iso conn_seq (Act f, rc, sh, e, {}, C) (p, rc1, sh1, e1, {}, C)"
    using f by (rule recorder_step.act) (simp add: new_name_def)
  moreover have "(recorder_step env mc ck disk d accept_iso conn_seq)\<^sup>*\<^sup>* (p, rc1, sh1, e1, {}, C) (Ret b, rc', sh', e', {}, C)"
    by (rule Act.IH [OF rangeI [of f "(rc, sh, e)"]]) (use f Act.prems in auto)
  ultimately show ?case by (rule converse_rtranclp_into_rtranclp)
qed simp

section \<open>A live log stays\<close>

text \<open>
  What one thread may rely on between its actions: the logs \<open>F\<close> it writes to are its own, tracked as open, on
  disk, and not up for deletion, and the names \<open>N\<close> it has registered are tracked. What is up for deletion was
  listed.
\<close>

definition log_held :: "('e \<Rightarrow> path \<rightharpoonup> bytes) \<Rightarrow> (store_file \<Rightarrow> bool) \<Rightarrow> store_file set \<Rightarrow> store_file set \<Rightarrow> 'e store_state \<Rightarrow> bool" where
  "log_held disk own F N s =
     (case s of (sh, e, L, C) \<Rightarrow> C \<subseteq> L \<and> (\<forall>f \<in> F \<union> N. own f \<and> f \<in> sh_open_logs sh) \<and>
        (\<forall>f \<in> F. f \<notin> C \<and> full_path f \<in> dom (disk e)))"

lemma held_bystander:
  assumes d: "disk_ok env disk" and own: "\<And>f. own f \<Longrightarrow> log_file d f"
    and st: "bystander env ck disk d own s s'" and h: "log_held disk own F N s"
  shows "log_held disk own F N s'"
  using st
proof cases
  case (deleted log req reason outcome e r outcome' e' C sh L)
  have "full_path f \<in> dom (disk e')" if "f \<in> F" for f
    using delete_locked_disk [OF d deleted(4) own deleted(3), of f] h that deleted by (auto simp: log_held_def)
  then show ?thesis using h deleted by (auto simp: log_held_def)
next
  case (rewrite g sc e res sc' e' sh L C)
  then show ?thesis using h rewrites_keep_log(1) [OF d own rewrite(3)] by (auto simp: log_held_def)
next
  case (pin g e pinned e' sh L C)
  then show ?thesis using h rewrites_keep_log(2) [OF d own pin(3)] by (auto simp: log_held_def)
next
  case (label g sid part wake e upd e' sh L C)
  then show ?thesis using h rewrites_keep_log(3) [OF d own label(3)] by (auto simp: log_held_def)
next
  case (connection sh' sh e' e L C)
  then show ?thesis using h by (auto simp: log_held_def)
qed (use h in \<open>auto simp: log_held_def\<close>)

text \<open>The writer's file is one of \<open>F\<close>.\<close>

definition writes_in :: "store_file set \<Rightarrow> Recorder \<Rightarrow> bool" where
  "writes_in F rc \<longleftrightarrow> (\<forall>w. rc_writer rc = Some w \<longrightarrow> fl_path w \<in> full_path ` F)"

text \<open>
  A program is safe in a state when every action of it, after any interference, leaves the writer's file held, up to its
  return, where the recorder has the name of the file it writes to.
\<close>

definition live_log :: "('e \<Rightarrow> path \<rightharpoonup> bytes) \<Rightarrow> (store_file \<Rightarrow> bool) \<Rightarrow> Recorder \<Rightarrow> 'e store_state \<Rightarrow> bool" where
  "live_log disk own rc s \<longleftrightarrow> (\<exists>F. log_held disk own F {} s \<and> writes_in F rc)"

definition settled :: "('e \<Rightarrow> path \<rightharpoonup> bytes) \<Rightarrow> path \<Rightarrow> u64 \<Rightarrow> (store_file \<Rightarrow> bool) \<Rightarrow> Recorder \<Rightarrow> 'e store_state \<Rightarrow> bool" where
  "settled disk d conn_seq own rc s \<longleftrightarrow> rc_record_dir rc = d \<and>
     (case rc_writer rc of
        None \<Rightarrow> log_held disk own {} {} s
      | Some w \<Rightarrow> fl_path w = full_path (current_log rc) \<and> log_held disk own {current_log rc} {} s \<and> next_roll_new conn_seq rc)"

primrec safe ::
  "('e \<Rightarrow> path \<rightharpoonup> bytes) \<Rightarrow> path \<Rightarrow> u64 \<Rightarrow> (store_file \<Rightarrow> bool) \<Rightarrow> ('e store_state \<Rightarrow> 'e store_state \<Rightarrow> bool) \<Rightarrow>
     'e rec_prog \<Rightarrow> Recorder \<Rightarrow> 'e store_state \<Rightarrow> bool" where
  "safe disk d conn_seq own R (Ret b) = (\<lambda>rc s. settled disk d conn_seq own rc s)"
| "safe disk d conn_seq own R (Act f) =
     (\<lambda>rc s. \<forall>sh e L C. R s (sh, e, L, C) \<longrightarrow> live_log disk own rc (sh, e, L, C) \<and>
        (case map_prod (safe disk d conn_seq own R) id (f (rc, sh, e)) of (rest, rc', sh', e') \<Rightarrow>
           new_name L rc rc' \<longrightarrow> rest rc' (sh', e', L, C)))"

lemma held_simps:
  "log_held disk own F N (sh, e, L, C) \<Longrightarrow> own f \<Longrightarrow> log_held disk own F (insert f N) (open_log f sh, e, L, C)"
  "log_held disk own F N (sh, e, L, C) \<Longrightarrow> f \<notin> F \<union> N \<Longrightarrow> log_held disk own F N (drop_log f sh, e, L, C)"
  "log_held disk own F N (jsonl_emit ev sh, e, L, C) = log_held disk own F N (sh, e, L, C)"
  "log_held disk own F N (sh\<lparr>sh_recording_failed := b\<rparr>, e, L, C) = log_held disk own F N (sh, e, L, C)"
  by (auto simp: log_held_def open_log_def drop_log_def jsonl_emit_def)

lemma held_weaken: "log_held disk own F N s \<Longrightarrow> F' \<subseteq> F \<Longrightarrow> N' \<subseteq> F \<union> N \<Longrightarrow> log_held disk own F' N' s"
  by (cases s) (auto simp: log_held_def)

lemma held_disk:
  "log_held disk own F N (sh, e, L, C) \<Longrightarrow> (\<And>f. f \<in> F \<Longrightarrow> full_path f \<in> dom (disk e) \<Longrightarrow> full_path f \<in> dom (disk e')) \<Longrightarrow>
     log_held disk own F N (sh, e', L, C)"
  by (auto simp: log_held_def)

text \<open>A registered name becomes the writer's file when a file of that name, which no pass has listed, appears.\<close>

lemma held_new:
  assumes "log_held disk own F N (sh, e, L, C)" "f \<in> F \<union> N" "full_path f \<in> dom (disk e')" "full_path f \<notin> full_path ` L"
  shows "log_held disk own {f} {} (sh, e', L, C)"
  using assms by (auto simp: log_held_def)

text \<open>The rules for programs; interference \<open>R\<close> keeps what is held.\<close>

definition kept :: "('e \<Rightarrow> path \<rightharpoonup> bytes) \<Rightarrow> (store_file \<Rightarrow> bool) \<Rightarrow> ('e store_state \<Rightarrow> 'e store_state \<Rightarrow> bool) \<Rightarrow> bool" where
  "kept disk own R \<longleftrightarrow> (\<forall>s s' F N. R s s' \<longrightarrow> log_held disk own F N s \<longrightarrow> log_held disk own F N s')"

lemma keptD: "kept disk own R \<Longrightarrow> R s s' \<Longrightarrow> log_held disk own F N s \<Longrightarrow> log_held disk own F N s'"
  unfolding kept_def by blast

lemma safe_Act:
  assumes R: "kept disk own R" and h: "log_held disk own F N s" and w: "writes_in F rc"
    and step: "\<And>sh e L C p rc' sh' e'. log_held disk own F N (sh, e, L, C) \<Longrightarrow> f (rc, sh, e) = (p, rc', sh', e') \<Longrightarrow>
      new_name L rc rc' \<Longrightarrow> safe disk d conn_seq own R p rc' (sh', e', L, C)"
  shows "safe disk d conn_seq own R (Act f) rc s"
proof -
  have "live_log disk own rc (sh, e, L, C) \<and> (case map_prod (safe disk d conn_seq own R) id (f (rc, sh, e)) of (rest, rc', sh', e') \<Rightarrow>
      new_name L rc rc' \<longrightarrow> rest rc' (sh', e', L, C))" if "R s (sh, e, L, C)" for sh e L C
  proof -
    have h': "log_held disk own F N (sh, e, L, C)" by (rule keptD [OF R that h])
    obtain p rc' sh' e' where f: "f (rc, sh, e) = (p, rc', sh', e')" by (metis prod_cases4)
    have "live_log disk own rc (sh, e, L, C)" using held_weaken [OF h', of F "{}"] w by (auto simp: live_log_def)
    then show ?thesis using step [OF h' f] f by simp
  qed
  then show ?thesis by simp
qed

lemma safe_on_shared:
  assumes "kept disk own R" "log_held disk own F N s" "writes_in F rc"
    and "\<And>sh e L C. log_held disk own F N (sh, e, L, C) \<Longrightarrow> safe disk d conn_seq own R rest rc (g sh, e, L, C)"
  shows "safe disk d conn_seq own R (on_shared g rest) rc s"
  unfolding on_shared_def by (rule safe_Act [OF assms(1-3)]) (use assms(4) in auto)

lemma safe_on_fields:
  assumes "kept disk own R" "log_held disk own F N s" "writes_in F rc"
    and "\<And>s. log_held disk own F N s \<Longrightarrow> settled disk d conn_seq own (g rc) s"
  shows "safe disk d conn_seq own R (on_fields g rolled) rc s"
  unfolding on_fields_def by (rule safe_Act [OF assms(1-3)]) (use assms(4) in auto)

lemma writes_in_None [simp]: "writes_in F (rc\<lparr>rc_writer := None\<rparr>)" "rc_writer rc = None \<Longrightarrow> writes_in F rc"
  by (simp_all add: writes_in_def)

lemma safe_closed:
  assumes "kept disk own R" "log_held disk own {} {} s" "rc_writer rc = None" "rc_record_dir rc = d"
  shows "safe disk d conn_seq own R (on_shared (drop_log f) (Ret b)) rc s"
    "safe disk d conn_seq own R (on_shared (jsonl_emit ev) (Ret b)) rc s"
    "safe disk d conn_seq own R (on_shared (drop_log f) (on_shared (jsonl_emit ev) (Ret b))) rc s"
    "safe disk d conn_seq own R (on_shared (jsonl_emit ev) (on_shared (drop_log f) (Ret b))) rc s"
    "safe disk d conn_seq own R (on_shared (drop_log f) (on_fields (\<lambda>rc. rc\<lparr>rc_sidecar := sc\<rparr>) b)) rc s"
proof -
  have w: "writes_in {} rc" using assms(3) by simp
  have fin: "settled disk d conn_seq own rc s" "settled disk d conn_seq own (rc\<lparr>rc_sidecar := sc\<rparr>) s" if "log_held disk own {} {} s" for s
    using that assms(3,4) by (simp_all add: settled_def)
  note A = safe_on_shared [OF assms(1) _ w] and H = held_simps(2) [where F = "{}" and N = "{}", simplified]
  have 1: "safe disk d conn_seq own R (on_shared (drop_log f) (Ret b)) rc s" if "log_held disk own {} {} s" for s
    by (rule A [OF that]) (simp add: fin H)
  have 2: "safe disk d conn_seq own R (on_shared (jsonl_emit ev) (Ret b)) rc s" if "log_held disk own {} {} s" for s
    by (rule A [OF that]) (simp add: fin held_simps(3))
  show "safe disk d conn_seq own R (on_shared (drop_log f) (Ret b)) rc s" "safe disk d conn_seq own R (on_shared (jsonl_emit ev) (Ret b)) rc s"
    using 1 2 assms(2) by blast+
  show "safe disk d conn_seq own R (on_shared (drop_log f) (on_shared (jsonl_emit ev) (Ret b))) rc s"
    by (rule A [OF assms(2)]) (simp add: 2 H)
  show "safe disk d conn_seq own R (on_shared (jsonl_emit ev) (on_shared (drop_log f) (Ret b))) rc s"
    by (rule A [OF assms(2)]) (simp add: 1 held_simps(3))
  show "safe disk d conn_seq own R (on_shared (drop_log f) (on_fields (\<lambda>rc. rc\<lparr>rc_sidecar := sc\<rparr>) b)) rc s"
    by (rule A [OF assms(2)]) (rule safe_on_fields [OF assms(1) _ w, where N = "{}"], auto simp: fin H)
qed

lemma safe_disable:
  assumes "kept disk own R" "log_held disk own F N s" "writes_in F rc" "rc_record_dir rc = d"
  shows "safe disk d conn_seq own R (disable cause path open_path detail) rc s"
  unfolding disable_def
proof (rule safe_Act [OF assms(1-3)], goal_cases)
  case (1 sh e L C p rc' sh' e')
  then show ?case
    using held_weaken [OF 1(1), of "{}" "{}"] assms(4) by (auto intro!: safe_closed(3) [OF assms(1)] simp: held_simps(4))
qed

text \<open>A settled recorder with a writer holds its current log.\<close>

lemma settledD:
  assumes "settled disk d conn_seq own rc s"
  shows "rc_record_dir rc = d" "rc_writer rc = None \<Longrightarrow> log_held disk own {} {} s"
    "rc_writer rc = Some w \<Longrightarrow> fl_path w = full_path (current_log rc) \<and> log_held disk own {current_log rc} {} s \<and>
       writes_in {current_log rc} rc \<and> next_roll_new conn_seq rc"
  using assms by (auto simp: settled_def writes_in_def)

lemma log_create_dom:
  assumes l: "log_store_ok env disk" and c: "log_create (se_files env) mc path meta e = (Inr w, e')"
  shows "fl_path w = path" "path \<in> dom (disk e')"
proof -
  obtain h e1 where 1: "fe_create_new (se_files env) path e = (Inr h, e1)" using c by (auto simp: log_create_def split: sum.splits prod.splits)
  obtain n where 2: "write_header (se_files env) mc h meta e1 = (Inr n, e')" "fl_path w = path"
    using c 1 by (auto simp: log_create_def split: sum.splits prod.splits)
  show "fl_path w = path" by (rule 2(2))
  show "path \<in> dom (disk e')" using log_store_okD(1) [OF l 1] write_header_dom [OF l 2(1)] by auto
qed

lemma start_create_safe:
  assumes l: "log_store_ok env disk" and k: "kept disk own R" and h: "log_held disk own {} {} s"
    and rc: "rc_writer rc = None" "rc_record_dir rc = d" "own (current_log rc)" "next_roll_new conn_seq rc"
  shows "safe disk d conn_seq own R (start_create env mc (current_log rc) meta) rc s"
  unfolding start_create_def
proof (rule safe_on_shared [OF k h], goal_cases)
  case (2 sh e L C)
  show ?case
  proof (rule safe_Act [OF k held_simps(1) [OF 2 rc(3)]], goal_cases)
    case (2 sh e L C p rc' sh' e')
    obtain x e1 where x: "log_create (se_files env) mc (full_path (current_log rc)) meta e = (x, e1)" by fastforce
    show ?case
    proof (cases x)
      case (Inl err)
      have "log_held disk own {} {} (sh, e1, L, C)" using held_disk [OF held_weaken [OF 2(1), of "{}" "{}"]] by simp
      then show ?thesis using 2(2) x Inl rc by (auto intro!: safe_disable [OF k])
    next
      case (Inr w)
      note w = log_create_dom [OF l x [unfolded Inr]]
      have rc': "p = Ret False" "rc' = rc\<lparr>rc_writer := Some w\<rparr>" "sh' = sh" "e' = e1" using 2(2) x Inr by auto
      then have "full_path (current_log rc) \<notin> full_path ` L" using 2(3) rc(1) w(1) by (simp add: new_name_def)
      from held_new [OF 2(1) _ w(2) this] show ?thesis using rc' w(1) rc(2,4) by (simp add: settled_def current_log_def)
    qed
  qed (simp add: rc(1))
qed (simp add: rc(1))

lemma start_safe:
  assumes l: "log_store_ok env disk" and k: "kept disk own R" and h: "log_held disk own {} {} s"
    and rc: "rc_writer rc = None" "rc_record_dir rc = d" "own (current_log rc)" "next_roll_new conn_seq rc"
  shows "safe disk d conn_seq own R (start_prog env mc build_id conn_seq recording_on rc) rc s"
proof (cases recording_on)
  case True
  have "safe disk d conn_seq own R (Act (\<lambda>(rc', sh, e).
          case se_create_dir_all env (rc_record_dir rc) e of
            (Some err, e1) \<Rightarrow> (disable CreateDirCause (rc_record_dir rc) (current_log rc) (DetailIo err), rc', sh, e1)
          | (None, e1) \<Rightarrow>
              let (now, e2) = se_now env e1;
                  meta = \<lparr>lm_build_id = build_id, lm_created_epoch_us = now, lm_conn_seq = conn_seq, lm_rolled_from = None\<rparr>
              in (start_create env mc (current_log rc) meta, rc', sh, e2))) rc s"
  proof (rule safe_Act [OF k h], goal_cases)
    case (2 sh e L C p rc' sh' e')
    have any: "log_held disk own {} {} (sh, e1, L, C)" for e1 using held_disk [OF 2(1)] by simp
    have "safe disk d conn_seq own R (disable cause path open_path detail) rc (sh, e1, L, C)" for cause path open_path detail e1
      using safe_disable [OF k any] rc by simp
    moreover have "safe disk d conn_seq own R (start_create env mc (current_log rc) meta) rc (sh, e1, L, C)" for meta e1
      by (rule start_create_safe [OF l k any rc])
    ultimately show ?case using 2(2) by (cases "current_log rc") (auto simp: Let_def split: option.splits prod.splits)
  qed (simp add: rc(1))
  then show ?thesis using True by (simp add: start_prog_def)
qed (use h rc in \<open>simp add: start_prog_def settled_def\<close>)

lemma tap_safe:
  assumes l: "log_store_ok env disk" and k: "kept disk own R" and s: "settled disk d conn_seq own rc s"
  shows "safe disk d conn_seq own R (tap_prog env t frame_bytes rc) rc s"
proof (cases "rc_writer rc")
  case (Some w)
  note S = settledD [OF s] and W = settledD(3) [OF s Some]
  show ?thesis
    unfolding tap_prog_def Some option.case
  proof (rule safe_Act [OF k W [THEN conjunct2, THEN conjunct1] W [THEN conjunct2, THEN conjunct2, THEN conjunct1]], goal_cases)
    case (1 sh e L C p rc' sh' e')
    obtain x w1 e1 where x: "log_append (se_files env) t frame_bytes w e = (x, w1, e1)" by (metis prod_cases3)
    note A = log_append_dom [OF l x]
    have h: "log_held disk own {current_log rc} {} (sh, e1, L, C)" by (rule held_disk [OF 1(1)]) (simp add: A(1))
    show ?case
    proof (cases x)
      case None
      then show ?thesis using 1(2) x h A(2) W S(1) by (auto simp: settled_def current_log_def)
    next
      case (Some err)
      have "writes_in {current_log rc} (rc\<lparr>rc_writer := Some w1\<rparr>)" using A(2) W by (simp add: writes_in_def)
      then show ?thesis using 1(2) x h S(1) Some by (auto intro!: safe_disable [OF k])
    qed
  qed
qed (use s in \<open>simp add: tap_prog_def\<close>)

lemma segment_safe:
  assumes dk: "disk_ok env disk" and own: "\<And>f. own f \<Longrightarrow> log_file d f" and k: "kept disk own R" and s: "settled disk d conn_seq own rc s"
  shows "safe disk d conn_seq own R (segment_prog env ck seg rc) rc s"
proof (cases "rc_writer rc = None \<or> rc_sidecar rc = None")
  case True
  then show ?thesis using s by (auto simp: segment_prog_def split: option.splits)
next
  case False
  then obtain w sc where w: "rc_writer rc = Some w" "rc_sidecar rc = Some sc" by auto
  note S = settledD [OF s] and W = settledD(3) [OF s w(1)]
  show ?thesis
    unfolding segment_prog_def w option.case prod.case Let_def
  proof (rule safe_Act [OF k W [THEN conjunct2, THEN conjunct1] W [THEN conjunct2, THEN conjunct2, THEN conjunct1]], goal_cases)
    case (1 sh e L C p rc' sh' e')
    obtain x sc1 e1 where x: "write_atomic env ck (sidecar_path (current_log rc)) (sidecar_push (from_segment seg) sc) e = (x, sc1, e1)"
      by (metis prod_cases3)
    have "own (current_log rc)" using 1(1) by (simp add: log_held_def)
    then have h: "log_held disk own {current_log rc} {} (sh, e1, L, C)"
      using held_disk [OF 1(1), of e1] rewrites_keep_log(1) [OF dk own x, of "current_log rc"] by (simp add: domIff)
    have "writes_in {current_log rc} (rc\<lparr>rc_sidecar := Some sc1\<rparr>)" using W by (simp add: writes_in_def)
    then show ?case using 1(2) x h S(1) W w by (cases x) (auto simp: settled_def current_log_def intro!: safe_disable [OF k])
  qed
qed

lemma latch_safe:
  assumes l: "log_store_ok env disk" and k: "kept disk own R" and s: "settled disk d conn_seq own rc s"
  shows "safe disk d conn_seq own R (latch_prog env rc) rc s"
proof (cases "rc_writer rc")
  case (Some w)
  note S = settledD [OF s] and W = settledD(3) [OF s Some]
  show ?thesis
    unfolding latch_prog_def Some option.case
  proof (rule safe_Act [OF k W [THEN conjunct2, THEN conjunct1] W [THEN conjunct2, THEN conjunct2, THEN conjunct1]], goal_cases)
    case (1 sh e L C p rc' sh' e')
    obtain x e1 where x: "fe_flush (se_files env) (fl_writer w) e = (x, e1)" by fastforce
    have h: "log_held disk own {} {} (sh, e1, L, C)" using held_disk [OF held_weaken [OF 1(1), of "{}" "{}"]] by simp
    show ?case using 1(1,2) x h S(1) W Some safe_closed(5) [OF k h, where rc = "rc\<lparr>rc_writer := None\<rparr>"]
      by (auto simp: settled_def current_log_def split: if_splits)
  qed
qed (use s in \<open>simp add: latch_prog_def\<close>)

lemma finish_safe:
  assumes l: "log_store_ok env disk" and k: "kept disk own R" and s: "settled disk d conn_seq own rc s"
  shows "safe disk d conn_seq own R (finish_prog env rc) rc s"
proof (cases "rc_writer rc")
  case (Some w)
  note S = settledD [OF s] and W = settledD(3) [OF s Some]
  show ?thesis
    unfolding finish_prog_def Some option.case
  proof (rule safe_Act [OF k W [THEN conjunct2, THEN conjunct1] W [THEN conjunct2, THEN conjunct2, THEN conjunct1]], goal_cases)
    case (1 sh e L C p rc' sh' e')
    obtain x e1 where x: "fe_flush (se_files env) (fl_writer w) e = (x, e1)" by fastforce
    have h: "log_held disk own {} {} (sh, e1, L, C)" using held_disk [OF held_weaken [OF 1(1), of "{}" "{}"]] by simp
    show ?case using 1(2) x S(1) safe_closed(1,4) [OF k h, where rc = "rc\<lparr>rc_writer := None\<rparr>"]
      by (cases "current_log rc") (auto simp: Let_def split: option.splits)
  qed
qed (use s in \<open>simp add: finish_prog_def\<close>)

text \<open>
  Rolling: both names are tracked while the next log appears, and the writer moves from the one to the other in the action
  that creates it.
\<close>

lemma roll_log_safe:
  assumes l: "log_store_ok env disk" and k: "kept disk own R" and h: "log_held disk own {old} {} s"
    and rc: "rc_writer rc = Some w" "fl_path w = full_path old" "rc_record_dir rc = d"
    and new: "own (d, name)" "(d, name) \<noteq> old" "next_roll_new conn_seq (rc\<lparr>rc_log_name := name\<rparr>)"
  shows "safe disk d conn_seq own R (roll_log env mc pod_id old (d, name) meta over_bytes w) rc s"
  unfolding roll_log_def
proof (rule safe_on_shared [OF k h], goal_cases)
  case 1
  show ?case using rc by (simp add: writes_in_def)
next
  case (2 sh e L C)
  show ?case
  proof (rule safe_Act [OF k held_simps(1) [OF 2 new(1)]], goal_cases)
    case 1
    show ?case using rc by (simp add: writes_in_def)
  next
    case (2 sh e L C p rc' sh' e')
    obtain x w1 e1 where x: "roll_to (se_files env) mc (full_path (d, name)) meta w e = (x, w1, e1)" by (metis prod_cases3)
    show ?case
    proof (cases x)
      case None
      note w1 = roll_to_dom [OF l x [unfolded None]]
      define rc1 where "rc1 = rc\<lparr>rc_writer := Some w1\<rparr>"
      have rc': "rc' = rc1" "sh' = sh" "e' = e1" using 2(2) x None by (auto simp: rc1_def)
      have "full_path old \<in> dom (disk e)" using 2(1) by (simp add: log_held_def)
      then have "full_path (d, name) \<notin> full_path ` L" using 2(3) rc(1,2) rc' w1(1,3) by (auto simp: new_name_def rc1_def)
      from held_new [OF 2(1) _ _ this] w1(2) have h1: "log_held disk own {(d, name)} {} (sh, e1, L, C)" by simp
      have wr: "writes_in {(d, name)} rc1" using w1(3) by (simp add: writes_in_def rc1_def)
      have fin: "settled disk d conn_seq own (rc1\<lparr>rc_log_name := name, rc_sidecar := sc\<rparr>) s" if "log_held disk own {(d, name)} {} s" for s sc
        using that w1(3) rc(3) new(3) by (simp add: settled_def current_log_def rc1_def next_roll_new_def)
      have "safe disk d conn_seq own R (on_shared (jsonl_emit ev) (on_shared (drop_log old)
              (on_fields (\<lambda>rc. rc\<lparr>rc_log_name := name, rc_sidecar := sc\<rparr>) True))) rc1 (sh, e1, L, C)" for ev sc
        by (rule safe_on_shared [OF k h1 wr], rule safe_on_shared [OF k _ wr, where N = "{}"], simp add: held_simps(3),
          rule safe_on_fields [OF k _ wr, where N = "{}"]) (use new(2) fin in \<open>auto intro!: held_simps(2)\<close>)
      then show ?thesis using 2(2) x None by (auto simp: rc1_def)
    next
      case (Some err)
      note w1 = roll_to_failed [OF l x [unfolded Some]]
      have "log_held disk own {old} {} (sh, e1, L, C)" using held_disk [OF held_weaken [OF 2(1), of "{old}" "{}"], of e1] w1(2) by auto
      then have "safe disk d conn_seq own R (on_shared (drop_log (d, name)) (disable cause path old detail)) rc (sh, e1, L, C)" for cause path detail
        by (rule safe_on_shared [OF k], simp add: writes_in_def rc)
          (rule safe_disable [OF k, where F = "{old}" and N = "{}"], use rc new(2) in \<open>auto simp: writes_in_def intro!: held_simps(2)\<close>)
      moreover have "rc\<lparr>rc_writer := Some w\<rparr> = rc" using rc(1) by (metis Recorder.surjective Recorder.update_convs(3) Recorder.select_convs(3))
      ultimately show ?thesis using 2(2) x Some w1(1) by auto
    qed
  qed
qed

lemma roll_safe:
  assumes l: "log_store_ok env disk" and own: "\<And>pod_id now n. own (d, roll_log_name pod_id now conn_seq n)" and k: "kept disk own R"
    and s: "settled disk d conn_seq own rc s"
  shows "safe disk d conn_seq own R (roll_prog env mc build_id pod_id conn_seq max_bytes max_age rc) rc s"
proof (cases "rc_writer rc")
  case (Some w)
  note S = settledD [OF s] and W = settledD(3) [OF s Some]
  show ?thesis
    unfolding roll_prog_def Some option.case
  proof (rule safe_Act [OF k W [THEN conjunct2, THEN conjunct1] W [THEN conjunct2, THEN conjunct2, THEN conjunct1]], goal_cases)
    case (1 sh e L C p rc' sh' e')
    obtain x e1 where x: "fe_flush (se_files env) (fl_writer w) e = (x, e1)" by fastforce
    have h1: "log_held disk own {current_log rc} {} (sh, e1, L, C)" by (rule held_disk [OF 1(1)]) (simp add: log_store_okD(4) [OF l x])
    show ?case
    proof (cases x)
      case None
      obtain now e2 where now: "se_now env e1 = (now, e2)" by fastforce
      have h2: "log_held disk own {current_log rc} {} (sh, e2, L, C)" by (rule held_disk [OF h1]) (simp add: log_store_okD(6) [OF l now])
      let ?rc = "rc\<lparr>rc_roll_seq := rc_roll_seq rc + 1\<rparr>" and ?name = "roll_log_name pod_id now conn_seq (rc_roll_seq rc + 1)"
      have "safe disk d conn_seq own R (roll_log env mc pod_id (current_log rc) (d, ?name) meta over w) ?rc (sh, e2, L, C)" for meta over
      proof (rule roll_log_safe [OF l k h2])
        show "(d, ?name) \<noteq> current_log rc" using W by (auto simp: current_log_def next_roll_new_def dest: sym)
        show "next_roll_new conn_seq (?rc\<lparr>rc_log_name := ?name\<rparr>)" by (rule next_roll_newI(3)) simp
      qed (use W S(1) Some own in auto)
      moreover have "settled disk d conn_seq own rc (sh, e2, L, C)" using h2 W S(1) Some by (simp add: settled_def)
      ultimately show ?thesis using 1(2) x None now S(1) by (auto simp: Let_def split: if_splits)
    next
      case (Some err)
      have "safe disk d conn_seq own R (disable cause path (current_log rc) detail) rc (sh, e1, L, C)" for cause path detail
        by (rule safe_disable [OF k h1]) (use W S(1) in auto)
      then show ?thesis using 1(2) x Some by auto
    qed
  qed
qed (use s in \<open>simp add: roll_prog_def\<close>)

text \<open>The handshake's rename: both names are tracked across it. First its two ends, then the whole.\<close>

lemma renamed_safe:
  assumes k: "kept disk own R" and h: "log_held disk own {(d, name)} {} s" and old: "(d, name) \<noteq> old"
    and rc: "rc_writer rc = Some w" "fl_path w = full_path (d, name)" "rc_record_dir rc = d" "next_roll_new conn_seq (rc\<lparr>rc_log_name := name\<rparr>)"
  shows "safe disk d conn_seq own R (on_shared (drop_log old)
    (on_fields (\<lambda>rc. rc\<lparr>rc_writer := Some (note_hello t frame_bytes w), rc_log_name := name, rc_sidecar := sc\<rparr>) b)) rc s"
proof -
  have wr: "writes_in {(d, name)} rc" using rc by (simp add: writes_in_def)
  have fin: "settled disk d conn_seq own (rc\<lparr>rc_writer := Some (note_hello t frame_bytes w), rc_log_name := name, rc_sidecar := sc\<rparr>) s"
    if "log_held disk own {(d, name)} {} s" for s
    using that rc by (simp add: settled_def current_log_def next_roll_new_def note_hello_def)
  show ?thesis
    by (rule safe_on_shared [OF k h wr], rule safe_on_fields [OF k _ wr, where N = "{}"]) (use old fin in \<open>auto intro!: held_simps(2)\<close>)
qed

lemma not_renamed_safe:
  assumes k: "kept disk own R" and h: "log_held disk own {current_log rc} {} s" and new: "new \<noteq> current_log rc"
    and rc: "rc_writer rc = Some w" "fl_path w = full_path (current_log rc)" "rc_record_dir rc = d" "next_roll_new conn_seq rc"
  shows "safe disk d conn_seq own R (on_shared (drop_log new) (on_shared (jsonl_emit ev)
    (on_fields (\<lambda>rc. rc\<lparr>rc_writer := Some (note_hello t frame_bytes w), rc_sidecar := sc\<rparr>) b))) rc s"
proof -
  have wr: "writes_in {current_log rc} rc" using rc by (simp add: writes_in_def)
  have fin: "settled disk d conn_seq own (rc\<lparr>rc_writer := Some (note_hello t frame_bytes w), rc_sidecar := sc\<rparr>) s"
    if "log_held disk own {current_log rc} {} s" for s
    using that rc by (simp add: settled_def current_log_def next_roll_new_def note_hello_def)
  show ?thesis
    by (rule safe_on_shared [OF k h wr], rule safe_on_shared [OF k _ wr, where N = "{}"], simp add: new held_simps(2),
      rule safe_on_fields [OF k _ wr, where N = "{}"]) (use fin in \<open>auto simp: held_simps(3)\<close>)
qed

lemma hello_rename_safe:
  assumes dk: "disk_ok env disk" and own: "\<And>f. own f \<Longrightarrow> log_file d f" and k: "kept disk own R" and s: "settled disk d conn_seq own rc s"
    and w: "rc_writer rc = Some w" and new: "own (d, name)" "name \<noteq> rc_log_name rc" "next_roll_new conn_seq (rc\<lparr>rc_log_name := name\<rparr>)"
  shows "safe disk d conn_seq own R (hello_rename env pod_id (current_log rc) (d, name) t frame_bytes w) rc s"
  unfolding hello_rename_def
proof (rule safe_on_shared [OF k settledD(3) [OF s w, THEN conjunct2, THEN conjunct1]], goal_cases)
  case 1
  show ?case using settledD(3) [OF s w] by simp
next
  case (2 sh e L C)
  note S = settledD [OF s] and W = settledD(3) [OF s w]
  show ?case
  proof (rule safe_Act [OF k held_simps(1) [OF 2 new(1)]], goal_cases)
    case 1
    show ?case using W by simp
  next
    case (2 sh e L C p rc' sh' e')
    have ne: "(d, name) \<noteq> current_log rc" using new(2) by (simp add: current_log_def)
    have own_old: "own (current_log rc)" using 2(1) by (simp add: log_held_def)
    obtain x e1 where x: "fe_rename (se_files env) (fl_path w) (full_path (d, name)) e = (x, e1)" by fastforce
    note D = disk_okD(7) [OF dk x]
    show ?case
    proof (cases x)
      case None
      define w1 where "w1 = w\<lparr>fl_path := full_path (d, name)\<rparr>"
      have rc': "rc' = rc\<lparr>rc_writer := Some w1\<rparr>" using 2(2) x None by (auto simp: rename_to_def w1_def)
      have "full_path (d, name) \<noteq> full_path (current_log rc)" using full_path_log_inj [OF own [OF new(1)] own [OF own_old]] ne by blast
      then have "full_path (d, name) \<notin> full_path ` L" using 2(3) w W rc' by (auto simp: new_name_def w1_def)
      from held_new [OF 2(1) _ _ this] D None have "log_held disk own {(d, name)} {} (sh, e1, L, C)" by auto
      note F = renamed_safe [OF k this ne, where rc = rc' and w = w1 and b = False and conn_seq = conn_seq]
      show ?thesis using F S(1) new(3) 2(2) x None by (auto simp: rename_to_def w1_def next_roll_new_def)
    next
      case (Some err)
      have rc': "rc' = rc\<lparr>rc_writer := Some w\<rparr>" using 2(2) x Some by (auto simp: rename_to_def)
      then have cl: "current_log rc' = current_log rc" by (simp add: current_log_def)
      have "log_held disk own {current_log rc'} {} (sh, e1, L, C)"
        using held_disk [OF held_weaken [OF 2(1), of "{current_log rc}" "{}"], of e1] D Some cl by simp
      note F = not_renamed_safe [OF k this, where new = "(d, name)" and w = w and b = False and conn_seq = conn_seq]
      show ?thesis using F S(1) W ne cl 2(2) x Some by (auto simp: rename_to_def)
    qed
  qed
qed

lemma hello_safe:
  assumes dk: "disk_ok env disk" and own: "\<And>f. own f \<Longrightarrow> log_file d f" "\<And>pod_id. own (d, hello_log_name pod_id accept_iso conn_seq)"
    and k: "kept disk own R" and s: "settled disk d conn_seq own rc s" and name: "rc_log_name rc = conn_log_name accept_iso conn_seq"
  shows "safe disk d conn_seq own R (hello_prog env pod_id accept_iso conn_seq t frame_bytes rc) rc s"
proof (cases "rc_writer rc")
  case None
  have "safe disk d conn_seq own R (on_fields (\<lambda>rc. rc\<lparr>rc_sidecar := Some (Sidecar_new pod_id)\<rparr>) False) rc s"
    by (rule safe_on_fields [OF k settledD(2) [OF s None]]) (use settledD(1) [OF s] None in \<open>simp_all add: settled_def\<close>)
  then show ?thesis by (simp add: hello_prog_def None)
next
  case (Some w)
  have "safe disk d conn_seq own R
      (hello_rename env pod_id (current_log rc) (d, hello_log_name pod_id accept_iso conn_seq) t frame_bytes w) rc s"
    by (rule hello_rename_safe [OF dk own(1) k s Some own(2)])
      (use hello_name_new [of accept_iso conn_seq pod_id] name in \<open>auto intro!: next_roll_newI(2) dest: sym\<close>)
  then show ?thesis using settledD(1) [OF s] by (simp add: hello_prog_def Some)
qed

text \<open>Safety is stable, and every operation of a settled recorder is safe.\<close>

lemma safe_live: "kept disk own R \<Longrightarrow> R s s \<Longrightarrow> safe disk d conn_seq own R p rc s \<Longrightarrow> live_log disk own rc s"
proof (cases p)
  case (Ret b)
  assume "safe disk d conn_seq own R p rc s"
  then show ?thesis using Ret by (cases "rc_writer rc") (auto simp: settled_def live_log_def writes_in_def)
qed (cases s; auto)

lemma settled_kept: "kept disk own R \<Longrightarrow> R s s' \<Longrightarrow> settled disk d conn_seq own rc s \<Longrightarrow> settled disk d conn_seq own rc s'"
  by (cases "rc_writer rc") (simp_all add: settled_def keptD)

lemma safe_stable:
  assumes "kept disk own R" "transp R" "R s s'" "safe disk d conn_seq own R p rc s"
  shows "safe disk d conn_seq own R p rc s'"
proof (cases p)
  case (Ret b)
  then show ?thesis using assms settled_kept by simp
next
  case (Act f)
  show ?thesis using assms(2-4) unfolding Act safe.simps by (meson transpD)
qed

lemma bystander_kept:
  assumes dk: "disk_ok env disk" and own: "\<And>f. own f \<Longrightarrow> log_file d f"
  shows "kept disk own (bystander env ck disk d own)\<^sup>*\<^sup>*"
  unfolding kept_def
proof (intro allI impI)
  fix s s' F N assume "(bystander env ck disk d own)\<^sup>*\<^sup>* s s'" "log_held disk own F N s"
  then show "log_held disk own F N s'" by (induction rule: rtranclp_induct) (auto intro: held_bystander [OF dk own])
qed

lemma recorder_step_safe:
  assumes dk: "disk_ok env disk" and l: "log_store_ok env disk" and iso: "plain accept_iso"
    and st: "recorder_step env mc ck disk d accept_iso conn_seq (p, rc, s) (p', rc', s')"
    and h: "safe disk d conn_seq (own_log d accept_iso conn_seq) (bystander env ck disk d (own_log d accept_iso conn_seq))\<^sup>*\<^sup>* p rc s"
  shows "safe disk d conn_seq (own_log d accept_iso conn_seq) (bystander env ck disk d (own_log d accept_iso conn_seq))\<^sup>*\<^sup>* p' rc' s'"
    (is "safe _ _ _ ?own ?R _ _ _")
proof -
  have own: "\<And>f. ?own f \<Longrightarrow> log_file d f" by (rule own_log_file [OF iso])
  have k: "kept disk ?own ?R" by (rule bystander_kept [OF dk own])
  have o: "?own (d, hello_log_name pod_id accept_iso conn_seq)" "?own (d, roll_log_name pod_id now conn_seq n)" for pod_id now n
    by (auto simp: own_log_def)
  from st show ?thesis
  proof cases
    case (act f sh e sh' e' L C)
    have "?R (sh, e, L, C) (sh, e, L, C)" by simp
    then have "case map_prod (safe disk d conn_seq ?own ?R) id (f (rc, sh, e)) of (rest, rc', sh', e') \<Rightarrow>
        new_name L rc rc' \<longrightarrow> rest rc' (sh', e', L, C)"
      using h unfolding act(1,2) safe.simps by (elim allE impE conjE) assumption+
    then show ?thesis using act by simp
  next
    case (others)
    then show ?thesis using safe_stable [OF k _ r_into_rtranclp h] by simp
  qed (use h in \<open>auto intro: tap_safe [OF l k] hello_safe [OF dk own o(1) k] segment_safe [OF dk own k] roll_safe [OF l o(2) k]
      latch_safe [OF l k] finish_safe [OF l k]\<close>)
qed

lemma recorder_run_safe:
  assumes dk: "disk_ok env disk" and l: "log_store_ok env disk" and iso: "plain accept_iso" and C: "C0 \<subseteq> L0"
    and run: "(recorder_step env mc ck disk d accept_iso conn_seq)\<^sup>*\<^sup>*
      (start_prog env mc build_id conn_seq recording_on (Recorder_new d conn_seq accept_iso), Recorder_new d conn_seq accept_iso, sh0, e0, L0, C0)
      (p, rc, s)"
  shows "live_log disk (own_log d accept_iso conn_seq) rc s" "p = Ret b \<Longrightarrow> settled disk d conn_seq (own_log d accept_iso conn_seq) rc s"
proof -
  let ?own = "own_log d accept_iso conn_seq" and ?rc = "Recorder_new d conn_seq accept_iso"
  let ?R = "(bystander env ck disk d ?own)\<^sup>*\<^sup>*"
  have k: "kept disk ?own ?R" by (rule bystander_kept [OF dk own_log_file [OF iso]])
  have "safe disk d conn_seq ?own ?R (start_prog env mc build_id conn_seq recording_on ?rc) ?rc (sh0, e0, L0, C0)"
    by (rule start_safe [OF l k])
      (use C in \<open>auto simp: log_held_def Recorder_new_def own_log_def current_log_def intro: next_roll_newI(1)\<close>)
  with run have "safe disk d conn_seq ?own ?R p rc s"
    by (induction "(p, rc, s)" arbitrary: p rc s rule: rtranclp_induct)
      (simp, metis prod_cases3 recorder_step_safe [OF dk l iso])
  then show "live_log disk ?own rc s" "p = Ret b \<Longrightarrow> settled disk d conn_seq ?own rc s"
    using safe_live [OF k rtranclp.rtrancl_refl] by auto
qed

section \<open>A scripted store\<close>

text \<open>
  A store that is a map from paths to contents and lists \<open>names\<close>; what is appended to a frame log is not
  kept. Its serialiser handles sidecars without segments.
\<close>

definition script_store_env :: "bytes list \<Rightarrow> (path \<rightharpoonup> bytes) store_env" where
  "script_store_env names =
     \<lparr>se_files =
        \<lparr>fe_create_new = \<lambda>p e. (case e p of None \<Rightarrow> (Inr 0, e(p := Some [])) | Some _ \<Rightarrow> (Inl (IoError AlreadyExistsKind []), e)),
         fe_write_all = \<lambda>_ _ e. (None, e), fe_flush = \<lambda>_ e. (None, e),
         fe_rename = \<lambda>p q e. (case e p of None \<Rightarrow> (Some (IoError NotFoundKind []), e) | Some bs \<Rightarrow> (None, e(p := None, q := Some bs)))\<rparr>,
      se_create_dir_all = \<lambda>_ e. (None, e), se_lock = \<lambda>_ e. (None, e),
      se_read = \<lambda>p e. (case e p of None \<Rightarrow> Inl (IoError NotFoundKind []) | Some bs \<Rightarrow> Inr bs, e),
      se_write = \<lambda>p bs e. (None, e(p := Some bs)),
      se_remove_file = \<lambda>p e. (case e p of None \<Rightarrow> (Some (IoError NotFoundKind []), e) | Some _ \<Rightarrow> (None, e(p := None))),
      se_metadata = \<lambda>p e. (case e p of None \<Rightarrow> Inl (IoError NotFoundKind []) | Some bs \<Rightarrow> Inr (length bs), e),
      se_read_dir = \<lambda>_ e. (Inr (map Inr names), e), se_now = \<lambda>e. (HostMicros 0, e)\<rparr>"

lemma script_store_env_ok:
  "disk_ok (script_store_env names) id" "log_store_ok (script_store_env names) id"
  "list_all plain names \<Longrightarrow> distinct names \<Longrightarrow> read_dir_ok (script_store_env names)"
proof -
  show "disk_ok (script_store_env names) id" by (auto simp: disk_ok_def script_store_env_def split: option.splits sum.splits)
  show "log_store_ok (script_store_env names) id" by (auto simp: log_store_ok_def script_store_env_def split: option.splits sum.splits)
  show "read_dir_ok (script_store_env names)" if "list_all plain names" "distinct names"
  proof -
    have "filter (\<lambda>x. \<exists>n. x = Inr n) (map Inr names) = (map Inr names :: (io_error + bytes) list)" by (simp add: filter_map comp_def)
    then show ?thesis using that by (auto simp: read_dir_ok_def script_store_env_def list_all_iff distinct_map)
  qed
qed

lemma script_store_listed: "se_read_dir (script_store_env names) d e = (Inr (map Inr names), e)"
  by (simp add: script_store_env_def)

lemma script_inventory_entry: "\<exists>x. inventory_entry (script_store_env names) ck live f e = (Inr x, e)"
  by (cases "e (full_path f)"; cases "e (full_path (sidecar_path f))")
    (auto simp: inventory_entry_def classify_def sidecar_read_def script_store_env_def Let_def split: option.splits sum.splits prod.splits SidecarError.splits)

lemma script_inventory_entries: "\<exists>logs. inventory_entries (script_store_env names) ck live d (map Inr ns) e = (Inr logs, e)"
proof (induction ns)
  case (Cons n ns)
  then show ?case using script_inventory_entry [of names ck live "(d, n)" e] by auto
qed simp

definition script_sidecar_codec :: sidecar_codec where
  "script_sidecar_codec =
     (let from_slice = (\<lambda>bs. case bs of [] \<Rightarrow> None
            | b # pod \<Rightarrow> Some \<lparr>sd_format_version = 1, sd_pod_id = pod, sd_pinned = (b = 1), sd_segments = []\<rparr>)
      in \<lparr>sk_to_vec_pretty = \<lambda>s. if sd_segments s = [] \<and> sd_format_version s = 1
            then Some ((if sd_pinned s then 1 else 0) # sd_pod_id s) else None,
          sk_from_slice = from_slice, sk_merge_from_slice = \<lambda>bs. map_option merge_view_of (from_slice bs)\<rparr>)"

lemma script_sidecar_codec_ok: "sidecar_codec_ok script_sidecar_codec"
  by (auto simp: sidecar_codec_ok_def script_sidecar_codec_def Let_def split: if_splits)

end
