(* ===== verification/Postcard_Ref.thy ===== *)
theory Postcard_Ref
  imports Wire
begin

text \<open>
  A concrete serialiser with the documented postcard wire format, so that the hypothesis
  \<open>postcard_ok\<close> of the framing theorems is met by an executable instance: LEB128 varints
  for \<open>u32\<close> and \<open>u64\<close>, raw bytes for \<open>u8\<close>, four little-endian bytes for \<open>f32\<close>, positional
  varint tags for enums, length-prefixed strings and byte vectors.
\<close>

section \<open>Parsers with remainder\<close>

type_synonym 'a parser = "bytes \<Rightarrow> ('a \<times> bytes) option"

definition pbind :: "'a parser \<Rightarrow> ('a \<Rightarrow> 'b parser) \<Rightarrow> 'b parser" where
  "pbind p f bs = (case p bs of None \<Rightarrow> None | Some (x, r) \<Rightarrow> f x r)"

definition preturn :: "'a \<Rightarrow> 'a parser" where
  "preturn x bs = Some (x, bs)"

lemma pbind_Some [simp]: "p bs = Some (x, r) \<Longrightarrow> pbind p f bs = f x r"
  by (simp add: pbind_def)

lemma preturn_simp [simp]: "preturn x bs = Some (x, bs)"
  by (simp add: preturn_def)

section \<open>Varints\<close>

fun varint :: "nat \<Rightarrow> bytes" where
  "varint n = (if n < 128 then [of_nat n] else of_nat (128 + n mod 128) # varint (n div 128))"

declare varint.simps [simp del]

fun take_varint :: "nat \<Rightarrow> nat parser" where
  "take_varint 0 bs = None"
| "take_varint (Suc k) [] = None"
| "take_varint (Suc k) (b # bs) =
     (if unat b < 128 then Some (unat b, bs)
      else pbind (take_varint k) (\<lambda>n. preturn (unat b - 128 + 128 * n)) bs)"

lemma take_varint_varint:
  "n < 128 ^ Suc k \<Longrightarrow> take_varint (Suc k) (varint n @ r) = Some (n, r)"
proof (induction k arbitrary: n)
  case 0
  then show ?case by (subst varint.simps) (simp add: unat_of_nat)
next
  case (Suc k)
  show ?case
  proof (cases "n < 128")
    case True
    then show ?thesis by (subst varint.simps) (simp add: unat_of_nat)
  next
    case False
    have "n div 128 < 128 ^ Suc k"
      using Suc.prems by (metis less_mult_imp_div_less mult.commute power_Suc)
    then have IH: "take_varint (Suc k) (varint (n div 128) @ r) = Some (n div 128, r)" by (rule Suc.IH)
    have u: "unat (of_nat (128 + n mod 128) :: u8) = 128 + n mod 128"
      by (subst unat_of_nat) simp
    have "take_varint (Suc (Suc k)) (of_nat (128 + n mod 128) # (varint (n div 128) @ r)) = Some (n, r)"
      unfolding take_varint.simps(3) u pbind_def IH by simp
    then show ?thesis using False by (subst varint.simps) (simp only: if_False append_Cons)
  qed
qed

definition ser_u32 :: "u32 \<Rightarrow> bytes" where "ser_u32 x = varint (unat x)"
definition ser_u64 :: "u64 \<Rightarrow> bytes" where "ser_u64 x = varint (unat x)"

definition par_u32 :: "u32 parser" where
  "par_u32 = pbind (take_varint 5) (\<lambda>n r. if n < 2 ^ 32 then Some (of_nat n, r) else None)"

definition par_u64 :: "u64 parser" where
  "par_u64 = pbind (take_varint 10) (\<lambda>n r. if n < 2 ^ 64 then Some (of_nat n, r) else None)"

lemma par_u32_ser [simp]: "par_u32 (ser_u32 x @ r) = Some (x, r)"
proof -
  have "unat x < 128 ^ Suc 4" using unat_u32_less [of x] by simp
  then have "take_varint (Suc 4) (varint (unat x) @ r) = Some (unat x, r)" by (rule take_varint_varint)
  then have "take_varint 5 (varint (unat x) @ r) = Some (unat x, r)" by simp
  then show ?thesis using unat_u32_less [of x] by (simp add: par_u32_def ser_u32_def)
qed

lemma par_u64_ser [simp]: "par_u64 (ser_u64 x @ r) = Some (x, r)"
proof -
  have lt: "unat x < 2 ^ LENGTH(64)" by (rule unsigned_less)
  then have "unat x < 128 ^ Suc 9" by simp
  then have "take_varint (Suc 9) (varint (unat x) @ r) = Some (unat x, r)" by (rule take_varint_varint)
  then have "take_varint 10 (varint (unat x) @ r) = Some (unat x, r)" by simp
  then show ?thesis using lt by (simp add: par_u64_def ser_u64_def)
qed

section \<open>Bytes, runs, enums\<close>

fun par_u8 :: "u8 parser" where
  "par_u8 [] = None"
| "par_u8 (b # bs) = Some (b, bs)"

definition ser_bytes :: "bytes \<Rightarrow> bytes" where
  "ser_bytes bs = ser_u32 (of_nat (length bs)) @ bs"

definition par_bytes :: "nat \<Rightarrow> bytes parser" where
  "par_bytes cap = pbind par_u32 (\<lambda>n r.
     if cap < unat n \<or> length r < unat n then None else Some (take (unat n) r, drop (unat n) r))"

lemma par_bytes_ser [simp]:
  assumes "length bs \<le> cap" "cap < 2 ^ 32"
  shows "par_bytes cap (ser_bytes bs @ r) = Some (bs, r)"
proof -
  have "unat (of_nat (length bs) :: u32) = length bs"
    using assms by (intro unat_of_nat_u32_small) simp
  then show ?thesis using assms by (simp add: par_bytes_def ser_bytes_def)
qed

definition ser_f32 :: "u32 \<Rightarrow> bytes" where
  "ser_f32 x = map (\<lambda>i. of_nat (unat x div 256 ^ i mod 256)) [0..<4]"

fun par_f32 :: "u32 parser" where
  "par_f32 (a # b # c # d # r) = Some (u32_from_le_bytes [a, b, c, d], r)"
| "par_f32 _ = None"

lemma base256_digits:
  fixes u :: nat
  shows "u mod 256 + 256 * (u div 256 mod 256) + 65536 * (u div 65536 mod 256)
      + 16777216 * (u div 16777216) = u"
proof -
  have "u = u mod 256 + 256 * (u div 256)" by simp
  moreover have "u div 256 = u div 256 mod 256 + 256 * (u div 65536)"
    using mod_mult_div_eq [of "u div 256" 256] by (simp add: div_mult2_eq [symmetric])
  moreover have "u div 65536 = u div 65536 mod 256 + 256 * (u div 16777216)"
    using mod_mult_div_eq [of "u div 65536" 256] by (simp add: div_mult2_eq [symmetric])
  ultimately show ?thesis by linarith
qed

lemma unat_of_nat_digit: "unat (of_nat (n mod 256) :: u8) = n mod 256"
  by (simp add: unat_of_nat)

lemma par_f32_ser [simp]: "par_f32 (ser_f32 x @ r) = Some (x, r)"
proof -
  let ?u = "unat x"
  have lt: "?u < 256 * (256 * (256 * 256))" using unat_u32_less [of x] by simp
  then have "?u div 16777216 < 256" by simp
  then have "?u mod 256 + 256 * (?u div 256 mod 256) + 65536 * (?u div 65536 mod 256)
      + 16777216 * (?u div 16777216 mod 256) = ?u" by (simp add: base256_digits)
  then have "u32_from_le_bytes [of_nat (?u mod 256), of_nat (?u div 256 mod 256),
      of_nat (?u div 65536 mod 256), of_nat (?u div 16777216 mod 256)] = x"
    by (simp only: u32_from_le_bytes_def unat_of_nat_digit nth_Cons_0 nth_Cons_numeral word_nat_cast_eq
        nth_Cons_Suc numeral_2_eq_2 numeral_3_eq_3 One_nat_def)
  moreover have "[0..<4] = [0, 1, 2, 3::nat]" by (simp add: upt_rec)
  ultimately show ?thesis by (simp add: ser_f32_def)
qed

fun par_f32s :: "nat \<Rightarrow> u32 list parser" where
  "par_f32s 0 = preturn []"
| "par_f32s (Suc n) = pbind par_f32 (\<lambda>x. pbind (par_f32s n) (\<lambda>xs. preturn (x # xs)))"

lemma par_f32s_ser [simp]:
  "length xs = n \<Longrightarrow> par_f32s n (concat (map ser_f32 xs) @ r) = Some (xs, r)"
  by (induction xs arbitrary: n) auto

definition ser_tag :: "nat \<Rightarrow> bytes" where "ser_tag n = ser_u32 (of_nat n)"

definition par_tag :: "'a list \<Rightarrow> 'a parser" where
  "par_tag xs = pbind par_u32 (\<lambda>n r. if unat n < length xs then Some (xs ! unat n, r) else None)"

lemma par_tag_ser:
  assumes "i < length xs" "length xs < 2 ^ 32"
  shows "par_tag xs (ser_tag i @ r) = Some (xs ! i, r)"
  using assms unat_of_nat_u32_small [of i] by (simp add: par_tag_def ser_tag_def)

fun codec_index :: "Codec \<Rightarrow> nat" where "codec_index S16Le = 0"

fun source_index :: "ChannelSource \<Rightarrow> nat" where
  "source_index AsrBeam = 0" | "source_index ConferenceBeam = 1" | "source_index Stereo = 2"
| "source_index CommunicationBeam = 3"

fun reason_index :: "EndReason \<Rightarrow> nat" where
  "reason_index VadRelease = 0" | "reason_index Overrun = 1" | "reason_index InternalError = 2"

lemma par_codec [simp]: "par_tag [S16Le] (ser_tag (codec_index c) @ r) = Some (c, r)"
  by (cases c) (simp add: par_tag_ser)

lemma par_source [simp]:
  "par_tag [AsrBeam, ConferenceBeam, Stereo, CommunicationBeam] (ser_tag (source_index c) @ r) = Some (c, r)"
  by (cases c) (simp_all add: par_tag_ser)

lemma par_reason [simp]:
  "par_tag [VadRelease, Overrun, InternalError] (ser_tag (reason_index c) @ r) = Some (c, r)"
  by (cases c) (simp_all add: par_tag_ser)

section \<open>Frames\<close>

definition ser_hello :: "Hello \<Rightarrow> bytes" where
  "ser_hello h = [hl_version h] @ ser_bytes (hl_pod_id h) @ ser_u32 (hl_sample_rate_hz h) @
     [hl_bits_per_sample h] @ [hl_channels h] @ ser_tag (codec_index (hl_codec h)) @
     ser_tag (source_index (hl_channel_source h))"

definition par_hello :: "Hello parser" where
  "par_hello = pbind par_u8 (\<lambda>v. pbind (par_bytes 32) (\<lambda>p. pbind par_u32 (\<lambda>s.
     pbind par_u8 (\<lambda>b. pbind par_u8 (\<lambda>c. pbind (par_tag [S16Le]) (\<lambda>k.
     pbind (par_tag [AsrBeam, ConferenceBeam, Stereo, CommunicationBeam]) (\<lambda>q.
     preturn \<lparr>hl_version = v, hl_pod_id = p, hl_sample_rate_hz = s, hl_bits_per_sample = b,
       hl_channels = c, hl_codec = k, hl_channel_source = q\<rparr>)))))))"

fun ser_frame :: "StreamFrame \<Rightarrow> bytes" where
  "ser_frame (FHello h) = ser_u32 0 @ ser_hello h"
| "ser_frame (FSegmentStart s) = ser_u32 1 @ ser_u32 (ss_segment_id s) @
     ser_u64 (ss_base_sample_index s) @ ser_u64 (ss_base_device_ts_us s) @ ser_u32 (ss_preroll_samples s)"
| "ser_frame (FAudio a) = ser_u32 2 @ ser_u32 (af_segment_id a) @ ser_u64 (af_first_sample_index a) @
     ser_u64 (af_device_ts_us a) @ ser_u32 (of_nat (length (af_pcm a))) @ af_pcm a"
| "ser_frame (FTelemetry t) = ser_u32 3 @ ser_u64 (tl_device_ts_us t) @
     (case tl_kind t of Azimuths vs \<Rightarrow> ser_tag 0 @ concat (map ser_f32 vs)
      | SpEnergy vs \<Rightarrow> ser_tag 1 @ concat (map ser_f32 vs))"
| "ser_frame (FSegmentEnd e) = ser_u32 4 @ ser_u32 (se_segment_id e) @ ser_u64 (se_device_ts_us e) @
     ser_u32 (se_frames_sent e) @ ser_u64 (se_samples_sent e) @ ser_tag (reason_index (se_reason e))"
| "ser_frame FEndOfAudio = ser_u32 5"
| "ser_frame FFlushPlayback = ser_u32 6"

definition par_body :: "u32 \<Rightarrow> StreamFrame parser" where
  "par_body tag =
     (if tag = 0 then pbind par_hello (\<lambda>h. preturn (FHello h))
      else if tag = 1 then
        pbind par_u32 (\<lambda>i. pbind par_u64 (\<lambda>b. pbind par_u64 (\<lambda>t. pbind par_u32 (\<lambda>p.
          preturn (FSegmentStart \<lparr>ss_segment_id = i, ss_base_sample_index = b,
            ss_base_device_ts_us = t, ss_preroll_samples = p\<rparr>)))))
      else if tag = 2 then
        pbind par_u32 (\<lambda>i. pbind par_u64 (\<lambda>x. pbind par_u64 (\<lambda>t. pbind (par_bytes MAX_AUDIO_PAYLOAD) (\<lambda>p.
          preturn (FAudio \<lparr>af_segment_id = i, af_first_sample_index = x, af_device_ts_us = t, af_pcm = p\<rparr>)))))
      else if tag = 3 then
        pbind par_u64 (\<lambda>t. pbind (par_tag [Azimuths, SpEnergy]) (\<lambda>k. pbind (par_f32s 4) (\<lambda>vs.
          preturn (FTelemetry \<lparr>tl_device_ts_us = t, tl_kind = k vs\<rparr>))))
      else if tag = 4 then
        pbind par_u32 (\<lambda>i. pbind par_u64 (\<lambda>t. pbind par_u32 (\<lambda>f. pbind par_u64 (\<lambda>n.
          pbind (par_tag [VadRelease, Overrun, InternalError]) (\<lambda>q.
          preturn (FSegmentEnd \<lparr>se_segment_id = i, se_device_ts_us = t, se_frames_sent = f,
            se_samples_sent = n, se_reason = q\<rparr>))))))
      else if tag = 5 then preturn FEndOfAudio
      else if tag = 6 then preturn FFlushPlayback
      else (\<lambda>_. None))"

definition par_frame :: "StreamFrame parser" where
  "par_frame = pbind par_u32 par_body"

definition postcard_ref :: postcard where
  "postcard_ref = \<lparr>pc_to_vec = ser_frame, pc_from_bytes = (\<lambda>bs. map_option fst (par_frame bs)),
     pc_take_u32 = par_u32, pc_take_u64 = par_u64, pc_take_hello = par_hello,
     pc_ser_u32 = ser_u32, pc_ser_u64 = ser_u64, pc_ser_hello = ser_hello\<rparr>"

lemma par_hello_ser [simp]:
  "length (hl_pod_id h) \<le> 32 \<Longrightarrow> par_hello (ser_hello h @ r) = Some (h, r)"
  by (simp add: par_hello_def ser_hello_def)

lemma par_frame_ser:
  assumes "frame_fits f"
  shows "par_frame (ser_frame f @ r) = Some (f, r)"
proof (cases f)
  case (FAudio a)
  then have "par_bytes MAX_AUDIO_PAYLOAD (ser_bytes (af_pcm a) @ r) = Some (af_pcm a, r)"
    using assms by (simp add: MAX_AUDIO_PAYLOAD_def)
  then show ?thesis using FAudio by (simp add: par_frame_def par_body_def ser_bytes_def)
next
  case (FTelemetry t)
  then show ?thesis using assms
    by (cases "tl_kind t") (simp_all add: par_frame_def par_body_def par_tag_ser)
qed (use assms in \<open>simp_all add: par_frame_def par_body_def\<close>)

lemma postcard_ref_ok: "postcard_ok postcard_ref"
  using par_frame_ser [where r = "[]"] by (simp add: postcard_ok_def postcard_ref_def)

end
