(* ===== verification/Vad.thy ===== *)
theory Vad
  imports Pod_Prelude "HOL-Library.Sublist"
begin

text \<open>
  The voice-activity gate of \<^verbatim>\<open>firmware/crates/audio-pipeline/src/vad.rs\<close>: the conversion of a
  hangover to poll ticks, the decoding of provisioned settings, and the two-state machine.

  An \<open>f32\<close> is its 32-bit pattern; \<open>f32_gt\<close> and \<open>f32_is_finite\<close> are the IEEE 754 comparison
  and classification on patterns. The tick counters stay below the onset count and the
  hangover, so they are \<open>nat\<close>.
\<close>

section \<open>Floats as patterns\<close>

type_synonym f32 = u32

definition f32_magnitude :: "f32 \<Rightarrow> nat" where
  "f32_magnitude x = unat x mod 2 ^ 31"

definition f32_is_nan :: "f32 \<Rightarrow> bool" where
  "f32_is_nan x \<longleftrightarrow> 2139095040 < f32_magnitude x"

definition f32_is_finite :: "f32 \<Rightarrow> bool" where
  "f32_is_finite x \<longleftrightarrow> f32_magnitude x < 2139095040"

text \<open>The position of a non-NaN pattern in the numeric order; both zeros are at \<open>0\<close>.\<close>

definition f32_order :: "f32 \<Rightarrow> int" where
  "f32_order x = (if unat x < 2 ^ 31 then int (f32_magnitude x) else - int (f32_magnitude x))"

definition f32_gt :: "f32 \<Rightarrow> f32 \<Rightarrow> bool" where
  "f32_gt x y \<longleftrightarrow> \<not> f32_is_nan x \<and> \<not> f32_is_nan y \<and> f32_order y < f32_order x"

section \<open>Settings\<close>

definition VAD_ONSET_COUNT :: nat where "VAD_ONSET_COUNT = 2"
definition VAD_HANGOVER_MS :: nat where "VAD_HANGOVER_MS = 800"
definition VAD_HANGOVER_MS_MAX :: nat where "VAD_HANGOVER_MS_MAX = 60000"

text \<open>The \<open>u32\<close> product overflows from \<open>2 ^ 32\<close> on (\<open>None\<close>); \<open>div_ceil\<close> rounds up.\<close>

definition vad_hangover_ticks_ms :: "nat \<Rightarrow> nat \<Rightarrow> nat option" where
  "vad_hangover_ticks_ms hangover_ms poll_hz =
     (if 2 ^ 32 \<le> hangover_ms * poll_hz then None
      else Some ((hangover_ms * poll_hz + 999) div 1000))"

definition vad_hangover_ticks :: "nat \<Rightarrow> nat option" where
  "vad_hangover_ticks poll_hz = vad_hangover_ticks_ms VAD_HANGOVER_MS poll_hz"

definition decode_vad_hangover_ms :: "bytes \<Rightarrow> nat option" where
  "decode_vad_hangover_ms blob =
     (if length blob \<noteq> 4 then None
      else let ms = unat (u32_from_le_bytes blob)
           in if 1 \<le> ms \<and> ms \<le> VAD_HANGOVER_MS_MAX then Some ms else None)"

definition vad_threshold_ok :: "f32 \<Rightarrow> bool" where
  "vad_threshold_ok t \<longleftrightarrow> f32_is_finite t \<and> \<not> f32_is_nan t \<and> 0 \<le> f32_order t"

definition decode_vad_threshold :: "bytes \<Rightarrow> f32 option" where
  "decode_vad_threshold blob =
     (if length blob \<noteq> 4 then None
      else let t = u32_from_le_bytes blob in if vad_threshold_ok t then Some t else None)"

section \<open>The state machine\<close>

datatype VadState = ClosedGate nat | OpenGate nat

datatype VadTransition = Unchanged | Opened | Closed

record VadStateMachine =
  vad_threshold :: f32
  vad_hangover :: nat
  vad_state :: VadState

definition VadStateMachine_new :: "f32 \<Rightarrow> nat \<Rightarrow> VadStateMachine" where
  "VadStateMachine_new threshold hangover_ticks =
     \<lparr>vad_threshold = threshold, vad_hangover = hangover_ticks, vad_state = ClosedGate 0\<rparr>"

definition is_open :: "VadStateMachine \<Rightarrow> bool" where
  "is_open m = (case vad_state m of OpenGate _ \<Rightarrow> True | ClosedGate _ \<Rightarrow> False)"

definition set_threshold :: "f32 \<Rightarrow> VadStateMachine \<Rightarrow> VadStateMachine" where
  "set_threshold t m = m\<lparr>vad_threshold := t\<rparr>"

definition set_hangover :: "nat \<Rightarrow> VadStateMachine \<Rightarrow> VadStateMachine" where
  "set_hangover h m = m\<lparr>vad_hangover := h\<rparr>"

definition vad_update :: "f32 \<Rightarrow> VadStateMachine \<Rightarrow> VadTransition \<times> VadStateMachine" where
  "vad_update energy m =
     (let above = f32_gt energy (vad_threshold m) in
      case vad_state m of
        ClosedGate consecutive_above \<Rightarrow>
          (if above then
             let count = consecutive_above + 1 in
             if VAD_ONSET_COUNT \<le> count then (Opened, m\<lparr>vad_state := OpenGate 0\<rparr>)
             else (Unchanged, m\<lparr>vad_state := ClosedGate count\<rparr>)
           else (Unchanged, m\<lparr>vad_state := ClosedGate 0\<rparr>))
      | OpenGate below_ticks \<Rightarrow>
          (if above then (Unchanged, m\<lparr>vad_state := OpenGate 0\<rparr>)
           else
             let ticks = below_ticks + 1 in
             if vad_hangover m \<le> ticks then (Closed, m\<lparr>vad_state := ClosedGate 0\<rparr>)
             else (Unchanged, m\<lparr>vad_state := OpenGate ticks\<rparr>)))"

fun vad_run :: "f32 list \<Rightarrow> VadStateMachine \<Rightarrow> VadStateMachine" where
  "vad_run [] m = m"
| "vad_run (e # es) m = vad_run es (snd (vad_update e m))"

section \<open>The gate as a predicate on the history\<close>

lemma vad_run_append [simp]: "vad_run (xs @ ys) m = vad_run ys (vad_run xs m)"
  by (induction xs arbitrary: m) auto

text \<open>Trailing polls that satisfy \<open>P\<close>.\<close>

definition trailing :: "('a \<Rightarrow> bool) \<Rightarrow> 'a list \<Rightarrow> nat" where
  "trailing P xs = length (takeWhile P (rev xs))"

lemma trailing_simps [simp]:
  "trailing P [] = 0" "trailing P (xs @ [x]) = (if P x then trailing P xs + 1 else 0)"
  by (simp_all add: trailing_def)

lemma vad_update_keeps [simp]:
  "vad_threshold (snd (vad_update e m)) = vad_threshold m" "vad_hangover (snd (vad_update e m)) = vad_hangover m"
  by (simp_all add: vad_update_def Let_def split: VadState.splits)

lemma vad_run_keeps [simp]:
  "vad_threshold (vad_run es m) = vad_threshold m" "vad_hangover (vad_run es m) = vad_hangover m"
  by (induction es arbitrary: m) simp_all

lemma VadStateMachine_new_simps [simp]:
  "vad_threshold (VadStateMachine_new t h) = t" "vad_hangover (VadStateMachine_new t h) = h"
  "vad_state (VadStateMachine_new t h) = ClosedGate 0"
  by (simp_all add: VadStateMachine_new_def)

lemma vad_update_state:
  "vad_state (snd (vad_update e m)) =
     (case vad_state m of
        ClosedGate c \<Rightarrow> if f32_gt e (vad_threshold m) then (if c = 0 then ClosedGate 1 else OpenGate 0) else ClosedGate 0
      | OpenGate b \<Rightarrow> if f32_gt e (vad_threshold m) then OpenGate 0
                      else if vad_hangover m \<le> b + 1 then ClosedGate 0 else OpenGate (b + 1))"
  by (auto simp: vad_update_def Let_def VAD_ONSET_COUNT_def split: VadState.splits)

text \<open>The counters are functions of the history: the trailing polls on the one side of the threshold.\<close>

lemma vad_run_counters:
  "case vad_state (vad_run es (VadStateMachine_new t h)) of
     ClosedGate c \<Rightarrow> c = trailing (\<lambda>e. f32_gt e t) es \<and> c < VAD_ONSET_COUNT
   | OpenGate b \<Rightarrow> b = trailing (\<lambda>e. \<not> f32_gt e t) es \<and> b < max 1 h"
proof (induction es rule: rev_induct)
  case (snoc e es)
  then show ?case
    by (auto simp: vad_update_state VAD_ONSET_COUNT_def split: VadState.splits)
qed (simp add: VAD_ONSET_COUNT_def)

text \<open>
  The reference: the gate is open when somewhere in the history two polls in a row were
  above the threshold and since then no \<open>h\<close> polls in a row were not; the countdown runs at least one
  poll, so \<open>h = 0\<close> counts as one.
\<close>

definition gate_open_spec :: "f32 \<Rightarrow> nat \<Rightarrow> f32 list \<Rightarrow> bool" where
  "gate_open_spec t h es \<longleftrightarrow>
     (\<exists>us x y vs. es = us @ [x, y] @ vs \<and> f32_gt x t \<and> f32_gt y t \<and>
        (\<forall>ps. prefix ps vs \<longrightarrow> trailing (\<lambda>e. \<not> f32_gt e t) ps < max 1 h))"

lemma trailing_le: "trailing P vs \<le> trailing P (us @ vs)"
  by (induction vs rule: rev_induct) (auto simp flip: append_assoc)

lemma trailing_barrier: "\<not> P y \<Longrightarrow> trailing P (us @ [y] @ vs) = trailing P vs"
proof (induction vs rule: rev_induct)
  case (snoc v vs)
  have "us @ [y] @ vs @ [v] = (us @ [y] @ vs) @ [v]" by simp
  then show ?case using snoc.IH [OF snoc.prems] by (simp only: trailing_simps)
qed (simp add: trailing_simps(2))

lemma vad_run_spec_open:
  assumes "gate_open_spec t h es"
  shows "is_open (vad_run es (VadStateMachine_new t h))"
proof -
  obtain us x y vs where es: "es = us @ [x, y] @ vs" and xy: "f32_gt x t" "f32_gt y t"
    and run: "\<forall>ps. prefix ps vs \<longrightarrow> trailing (\<lambda>e. \<not> f32_gt e t) ps < max 1 h"
    using assms unfolding gate_open_spec_def by blast
  have "\<exists>b. vad_state (vad_run (us @ [x, y] @ vs) (VadStateMachine_new t h)) = OpenGate b"
    using run
  proof (induction vs rule: rev_induct)
    case Nil
    show ?case
      by (cases "vad_state (vad_run us (VadStateMachine_new t h))") (simp_all add: vad_update_state xy)
  next
    case (snoc v vs)
    have "\<forall>ps. prefix ps vs \<longrightarrow> trailing (\<lambda>e. \<not> f32_gt e t) ps < max 1 h" using snoc.prems by simp
    with snoc.IH obtain b where b: "vad_state (vad_run (us @ [x, y] @ vs) (VadStateMachine_new t h)) = OpenGate b"
      by blast
    then have "b = trailing (\<lambda>e. \<not> f32_gt e t) (us @ [x, y] @ vs)"
      using vad_run_counters [where es = "us @ [x, y] @ vs" and t = t and h = h] by simp
    then have b': "b = trailing (\<lambda>e. \<not> f32_gt e t) vs"
      using trailing_barrier [of "\<lambda>e. \<not> f32_gt e t" y "us @ [x]" vs] xy by simp
    have "trailing (\<lambda>e. \<not> f32_gt e t) (vs @ [v]) < max 1 h" using snoc.prems by blast
    then show ?case using b b' by (auto simp: vad_update_state split: if_splits)
  qed
  then show ?thesis by (auto simp: is_open_def es)
qed

lemma vad_run_open_spec:
  "is_open (vad_run es (VadStateMachine_new t h)) \<Longrightarrow> gate_open_spec t h es"
proof (induction es rule: rev_induct)
  case (snoc e es)
  let ?m = "vad_run es (VadStateMachine_new t h)"
  note cnt = vad_run_counters [where es = "es @ [e]" and t = t and h = h]
  show ?case
  proof (cases "vad_state ?m")
    case (OpenGate b)
    then obtain us x y vs where *: "es = us @ [x, y] @ vs" "f32_gt x t" "f32_gt y t"
      "\<forall>ps. prefix ps vs \<longrightarrow> trailing (\<lambda>e. \<not> f32_gt e t) ps < max 1 h"
      using snoc.IH by (auto simp: is_open_def gate_open_spec_def)
    obtain b' where "vad_state (vad_run (es @ [e]) (VadStateMachine_new t h)) = OpenGate b'"
      using snoc.prems by (auto simp: is_open_def split: VadState.splits)
    then have "trailing (\<lambda>e. \<not> f32_gt e t) (es @ [e]) < max 1 h" using cnt by simp
    then have "trailing (\<lambda>e. \<not> f32_gt e t) (vs @ [e]) < max 1 h"
      using trailing_le [of "\<lambda>e. \<not> f32_gt e t" "vs @ [e]" "us @ [x, y]"] *(1) by simp
    then show ?thesis using * unfolding gate_open_spec_def
      by (intro exI [of _ us] exI [of _ x] exI [of _ y] exI [of _ "vs @ [e]"]) auto
  next
    case (ClosedGate c)
    then have "f32_gt e t" "c \<noteq> 0" and c: "c = trailing (\<lambda>e. f32_gt e t) es"
      using snoc.prems vad_run_counters [where es = es and t = t and h = h]
      by (auto simp: is_open_def vad_update_state split: if_splits)
    then obtain us x where "es = us @ [x]" "f32_gt x t"
      by (cases es rule: rev_cases) (auto split: if_splits)
    then show ?thesis using \<open>f32_gt e t\<close> unfolding gate_open_spec_def
      by (intro exI [of _ us] exI [of _ x] exI [of _ e] exI [of _ "[]"]) auto
  qed
qed (simp add: is_open_def)

end
