(* ===== verification/Playback_Drain.thy ===== *)
theory Playback_Drain
  imports Playback_Sink Capture_Ring
begin

text \<open>
  The Linux pod's playback, \<^verbatim>\<open>firmware/devices/reachy-pod/src/playback.rs\<close>: the banking sink
  \<open>RingSink\<close>, the pod's entry points onto the pre-roll gate, and the drain that moves bytes
  from the ring to the sound card.

  The drain shares the ring with the streamer thread. The parameter \<open>other\<close> says what the
  producer does to the ring before each of the drain's lock acquisitions, and \<open>out\<close> what
  the sound card does with the frames it is offered; both act on an outside state \<open>'x\<close>.
  The ALSA binding itself (opening the card, underrun recovery) is not modelled.
\<close>

section \<open>Expansion to stereo\<close>

definition PREROLL_MAX_WAIT_MS :: nat where
  "PREROLL_MAX_WAIT_MS = 500"

definition DRAIN_BYTES_PER_PASS :: nat where
  "DRAIN_BYTES_PER_PASS = 2 * INBOUND_PCM_WRITE_UNIT_BYTES"

fun put_frames :: "nat \<Rightarrow> bytes \<Rightarrow> i16 list \<Rightarrow> i16 list" where
  "put_frames frame (lo # hi # raw) out =
     put_frames (frame + 1) raw
       (foldl (\<lambda>o' channel. o'[frame * CHANNELS + channel := i16_from_le_bytes lo hi]) out [0..<CHANNELS])"
| "put_frames frame raw out = out"

definition expand_mono_to_stereo :: "bytes \<Rightarrow> i16 list \<Rightarrow> (nat \<times> i16 list) option" where
  "expand_mono_to_stereo raw out =
     (if length raw mod WIRE_BYTES_PER_SAMPLE \<noteq> 0 then None
      else
        let frames = length raw div WIRE_BYTES_PER_SAMPLE in
        if length out < frames * CHANNELS then None
        else Some (frames, put_frames 0 raw out))"

section \<open>The banking sink\<close>

record RingSink =
  rk_frames :: u32
  rk_samples :: u64
  rk_full_stalls :: u32
  rk_log_countdown :: LogCountdown

definition RingSink_new :: "RingState \<Rightarrow> RingSink \<times> RingState" where
  "RingSink_new producer =
     (\<lparr>rk_frames = 0, rk_samples = 0, rk_full_stalls = 0,
       rk_log_countdown = LogCountdown_new PLAYBACK_LOG_CADENCE_FRAMES\<rparr>, producer)"

definition tick_log :: "RingSink \<Rightarrow> RingSink" where
  "tick_log k = k\<lparr>rk_log_countdown := snd (tick (rk_log_countdown k))\<rparr>"

definition ring_sink_accept :: "bytes \<Rightarrow> RingSink \<times> RingState \<Rightarrow> (Accepted \<times> RingSink \<times> RingState) option" where
  "ring_sink_accept pcm s =
     (let (k, ring) = s in
      if \<not> is_valid_s16le_pcm pcm then Some (Enqueued, s)
      else
        case write_pcm pcm ring of
          None \<Rightarrow> None
        | Some (banked, ring') \<Rightarrow>
            if \<not> banked then Some (Full, tick_log (k\<lparr>rk_full_stalls := rk_full_stalls k + 1\<rparr>), ring')
            else Some (Enqueued, tick_log (k\<lparr>rk_frames := rk_frames k + 1,
                   rk_samples := rk_samples k + of_nat (length pcm div WIRE_BYTES_PER_SAMPLE)\<rparr>), ring'))"

definition ring_sink_end_of_audio :: "RingSink \<times> RingState \<Rightarrow> RingSink \<times> RingState" where
  "ring_sink_end_of_audio s = (fst s, snd (mark_end_of_audio (snd s)))"

definition ring_sink_flush_playback :: "RingSink \<times> RingState \<Rightarrow> RingSink \<times> RingState" where
  "ring_sink_flush_playback s = (fst s, snd (mark_end_of_audio (ring_reset (snd s))))"

definition ring_sink_stream_reset :: "RingSink \<times> RingState \<Rightarrow> RingSink \<times> RingState" where
  "ring_sink_stream_reset s = (fst s, ring_reset (snd s))"

definition RingSink_ops :: "(RingSink \<times> RingState) PlaybackSink" where
  "RingSink_ops = \<lparr>op_accept = ring_sink_accept, op_end_of_audio = ring_sink_end_of_audio,
     op_flush_playback = ring_sink_flush_playback, op_stream_reset = ring_sink_stream_reset\<rparr>"

section \<open>The gate's entry points\<close>

definition gate_admit :: "nat \<Rightarrow> instant \<Rightarrow> PrerollGate \<Rightarrow> bool \<times> PrerollGate" where
  "gate_admit avail now g =
     admit avail now PREROLL_MAX_WAIT_MS (if 0 < avail then note_audio_seen g else g)"

definition note_empty :: "PrerollGate \<Rightarrow> nat option \<times> PrerollGate" where
  "note_empty g =
     (if gate_pending g \<or> \<not> gate_saw_audio g then (None, clear_audio_seen g)
      else let (t, g') = rearm_escalated g in (Some t, g'))"

section \<open>The drain\<close>

datatype PlaybackFault = Underrun | Fatal string

datatype PassOutcome = Idle | Filling | Played nat | Boundary nat

type_synonym 'x producer = "'x \<Rightarrow> RingState \<Rightarrow> RingState \<times> 'x"
type_synonym 'x stereo_out = "i16 list \<Rightarrow> 'x \<Rightarrow> (PlaybackFault + nat) \<times> 'x"

record PlaybackDrain =
  pd_gate :: PrerollGate
  pd_acted_generation :: u32
  pd_raw :: bytes
  pd_stereo :: "i16 list"
  pd_played_frames :: nat
  pd_underruns :: nat
  pd_boundaries :: nat

definition PlaybackDrain_new :: "RingState \<Rightarrow> PlaybackDrain" where
  "PlaybackDrain_new ring =
     \<lparr>pd_gate = PrerollGate_new, pd_acted_generation = rs_generation ring,
      pd_raw = replicate INBOUND_PCM_WRITE_UNIT_BYTES 0,
      pd_stereo = replicate (INBOUND_PCM_WRITE_UNIT_BYTES div WIRE_BYTES_PER_SAMPLE * CHANNELS) 0,
      pd_played_frames = 0, pd_underruns = 0, pd_boundaries = 0\<rparr>"

definition playback_pair :: "((RingSink \<times> RingState) \<times> PlaybackDrain) option" where
  "playback_pair =
     map_option (\<lambda>ring. (RingSink_new ring, PlaybackDrain_new ring)) (InboundPcmRing_new INBOUND_PCM_RING_BYTES)"

text \<open>How the loop over runs ends: frames played and whether a mark was crossed, or a fault.\<close>

datatype runs_end = Drained nat bool | Underran nat | Stopped string

function drain_runs ::
  "'x producer \<Rightarrow> 'x stereo_out \<Rightarrow> nat \<Rightarrow> nat \<Rightarrow> PlaybackDrain \<Rightarrow> RingState \<Rightarrow> 'x \<Rightarrow>
     (runs_end \<times> PlaybackDrain \<times> RingState \<times> 'x) option" where
  "drain_runs other out budget played d r x =
     (if budget = 0 then Some (Drained played False, d, r, x)
      else
        let (r1, x1) = other x r;
            (run, raw') = copy_run_into (min budget (length (pd_raw d))) (pd_raw d) r1;
            d1 = d\<lparr>pd_raw := raw'\<rparr>
        in
        if run_n run = 0 then Some (Drained played False, d1, r1, x1)
        else
          case expand_mono_to_stereo (take (run_n run) raw') (pd_stereo d1) of
            None \<Rightarrow> None
          | Some (frames, stereo') \<Rightarrow>
              let d2 = d1\<lparr>pd_stereo := stereo'\<rparr> in
              case out (take (frames * CHANNELS) stereo') x1 of
                (Inl Underrun, x2) \<Rightarrow>
                  Some (Underran played,
                        d2\<lparr>pd_underruns := pd_underruns d2 + 1, pd_gate := snd (rearm_escalated (pd_gate d2))\<rparr>, r1, x2)
              | (Inl (Fatal why), x2) \<Rightarrow> Some (Stopped why, d2, r1, x2)
              | (Inr accepted, x2) \<Rightarrow>
                  let bytes = accepted * WIRE_BYTES_PER_SAMPLE; (r2, x3) = other x2 r1 in
                  case advance bytes r2 of
                    None \<Rightarrow> None
                  | Some (crossed, r3) \<Rightarrow>
                      let d3 = d2\<lparr>pd_played_frames := pd_played_frames d2 + accepted\<rparr> in
                      if budget < bytes then None
                      else if crossed then Some (Drained (played + accepted) True, d3, r3, x3)
                      else if accepted < frames then Some (Drained (played + accepted) False, d3, r3, x3)
                      else drain_runs other out (budget - bytes) (played + accepted) d3 r3 x3)"
  by pat_completeness auto

lemma length_copy_run:
  assumes "copy_run_into m tx st = (run, tx')"
  shows "length tx' = length tx \<and> run_n run \<le> length tx \<and> run_n run \<le> m"
proof -
  have n: "run_n run \<le> length tx" "run_n run \<le> m"
    using copy_run_into_n_bounds(2,3) [of m tx st "run_n run"] assms by simp_all
  have "tx' = splice_at tx 0 (take (run_n run) (drop (unat (rs_tail st) mod capacity st) (rs_buf st)))"
    using assms by (auto simp: copy_run_into_def Let_def split: option.splits if_splits)
  then show ?thesis using n by (simp add: splice_at_def)
qed

lemma expand_mono_frames:
  "expand_mono_to_stereo raw out = Some (frames, out') \<Longrightarrow> length raw = 2 * frames"
  by (auto simp: expand_mono_to_stereo_def Let_def WIRE_BYTES_PER_SAMPLE_def split: if_splits)

text \<open>A pass ends: the loop goes on only after the whole of a non-empty run was taken.\<close>

termination drain_runs
proof (relation "measure (\<lambda>(other, out, budget, played, d, r, x). budget)", goal_cases)
  case (2 other out budget played d r x)
  then show ?case
    by (auto dest!: expand_mono_frames length_copy_run [OF sym] simp: WIRE_BYTES_PER_SAMPLE_def)
qed simp

declare drain_runs.simps [simp del]

definition drain_pass ::
  "'x producer \<Rightarrow> 'x stereo_out \<Rightarrow> instant \<Rightarrow> PlaybackDrain \<Rightarrow> RingState \<Rightarrow> 'x \<Rightarrow>
     ((PlaybackFault + PassOutcome) \<times> PlaybackDrain \<times> RingState \<times> 'x) option" where
  "drain_pass other out now d r x =
     (let (r0, x0) = other x r;
          (d1, r1, x1) =
            (if rs_generation r0 \<noteq> pd_acted_generation d
             then let (ra, xa) = other x0 r0; (g, rb) = apply_reset ra
                  in (d\<lparr>pd_acted_generation := g, pd_gate := arm_base (pd_gate d)\<rparr>, rb, xa)
             else (d, r0, x0));
          (r2, x2) = other x1 r1;
          (at_mark, r3) = take_mark_at_tail r2
      in
      if at_mark
      then Some (Inr (Boundary 0),
                 d1\<lparr>pd_boundaries := pd_boundaries d1 + 1, pd_gate := arm_base (pd_gate d1)\<rparr>, r3, x2)
      else
        let (r4, x4) = other x2 r3; avail = available r4 in
        if avail = 0
        then (let (escalated, g) = note_empty (pd_gate d1)
              in Some (Inr Idle, d1\<lparr>pd_gate := g,
                       pd_underruns := pd_underruns d1 + (if escalated = None then 0 else 1)\<rparr>, r4, x4))
        else
          let (play, g) = gate_admit avail now (pd_gate d1); d2 = d1\<lparr>pd_gate := g\<rparr> in
          if \<not> play then Some (Inr Filling, d2, r4, x4)
          else
            case drain_runs other out DRAIN_BYTES_PER_PASS 0 d2 r4 x4 of
              None \<Rightarrow> None
            | Some (Drained played boundary, d3, r5, x5) \<Rightarrow>
                if boundary
                then Some (Inr (Boundary played),
                           d3\<lparr>pd_boundaries := pd_boundaries d3 + 1, pd_gate := arm_base (pd_gate d3)\<rparr>, r5, x5)
                else Some (Inr (Played played), d3, r5, x5)
            | Some (Underran played, d3, r5, x5) \<Rightarrow> Some (Inr (Played played), d3, r5, x5)
            | Some (Stopped why, d3, r5, x5) \<Rightarrow> Some (Inl (Fatal why), d3, r5, x5))"

text \<open>The drain thread, over the clock readings of its passes; \<open>Inr ()\<close> while it is still running.\<close>

fun run_drain_loop ::
  "'x producer \<Rightarrow> 'x stereo_out \<Rightarrow> instant list \<Rightarrow> PlaybackDrain \<Rightarrow> RingState \<Rightarrow> 'x \<Rightarrow>
     ((PlaybackFault + unit) \<times> PlaybackDrain \<times> RingState \<times> 'x) option" where
  "run_drain_loop other out [] d r x = Some (Inr (), d, r, x)"
| "run_drain_loop other out (now # nows) d r x =
     (case drain_pass other out now d r x of
        None \<Rightarrow> None
      | Some (Inr _, d', r', x') \<Rightarrow> run_drain_loop other out nows d' r' x'
      | Some (Inl fault, d', r', x') \<Rightarrow> Some (Inl fault, d', r', x'))"

section \<open>The sink banks\<close>

definition ring_sink_ok :: "RingSink \<times> RingState \<Rightarrow> bool" where
  "ring_sink_ok s \<longleftrightarrow> ring_ok (snd s) \<and> MAX_AUDIO_PAYLOAD \<le> capacity (snd s)"

lemma ring_sink_accept_cases:
  assumes "ring_sink_ok (k, ring)" "length pcm \<le> MAX_AUDIO_PAYLOAD"
  obtains a k' ring' where "ring_sink_accept pcm (k, ring) = Some (a, k', ring')" "ring_sink_ok (k', ring')"
    "ring_contents ring' = ring_contents ring @ (if a = Enqueued \<and> is_valid_s16le_pcm pcm then pcm else [])"
    "a = Full \<longleftrightarrow> is_valid_s16le_pcm pcm \<and> capacity ring < ring_used ring + length pcm"
proof (cases "is_valid_s16le_pcm pcm")
  case False
  then have "ring_sink_accept pcm (k, ring) = Some (Enqueued, k, ring)" by (simp add: ring_sink_accept_def)
  then show ?thesis by (rule that) (use assms False in simp_all)
next
  case True
  have ok: "ring_ok ring" "length pcm \<le> capacity ring" using assms by (auto simp: ring_sink_ok_def)
  then obtain b ring' where w: "write_pcm pcm ring = Some (b, ring')" "ring_ok ring'"
    "capacity ring' = capacity ring" "b \<longleftrightarrow> ring_used ring + length pcm \<le> capacity ring"
    "ring_contents ring' = (if b then ring_contents ring @ pcm else ring_contents ring)"
    using pcm.enqueue_total [OF ok] by (metis length_ring_contents)
  obtain k' where "ring_sink_accept pcm (k, ring) = Some (if b then Enqueued else Full, k', ring')"
    using True w(1) by (cases b) (simp_all add: ring_sink_accept_def)
  then show ?thesis
    by (rule that) (use assms w True in \<open>auto simp: ring_sink_ok_def split: if_splits\<close>)
qed

lemma RingSink_ops_simps [simp]:
  "op_accept RingSink_ops = ring_sink_accept" "op_end_of_audio RingSink_ops = ring_sink_end_of_audio"
  "op_flush_playback RingSink_ops = ring_sink_flush_playback" "op_stream_reset RingSink_ops = ring_sink_stream_reset"
  by (simp_all add: RingSink_ops_def)

interpretation ring_sink: banking_sink ring_sink_ok RingSink_ops "\<lambda>s. ring_contents (snd s)"
proof (unfold_locales, goal_cases)
  case (1 s pcm)
  obtain k ring where s: "s = (k, ring)" by (cases s)
  from ring_sink_accept_cases [OF 1 [unfolded s]] show ?case unfolding s RingSink_ops_simps by metis
next
  case (5 s pcm a s')
  obtain k ring where s: "s = (k, ring)" by (cases s)
  from ring_sink_accept_cases [OF 5(1,2) [unfolded s]] obtain a' k' ring' where
    "ring_sink_accept pcm (k, ring) = Some (a', k', ring')"
    "ring_contents ring' = ring_contents ring @ (if a' = Enqueued \<and> is_valid_s16le_pcm pcm then pcm else [])"
    by metis
  then show ?case using 5(3) s by auto
qed (auto simp: ring_sink_ok_def ring_sink_end_of_audio_def ring_sink_flush_playback_def
    ring_sink_stream_reset_def capacity_def ring_ok_mark ring_ok_reset intro!: ring_same_queue)

section \<open>What reaches the sound card\<close>

fun stereo_of :: "bytes \<Rightarrow> i16 list" where
  "stereo_of (lo # hi # raw) = i16_from_le_bytes lo hi # i16_from_le_bytes lo hi # stereo_of raw"
| "stereo_of _ = []"

lemma length_stereo_of: "length (stereo_of raw) = 2 * (length raw div 2)"
  by (induction raw rule: stereo_of.induct) auto

lemma stereo_of_append: "even (length a) \<Longrightarrow> stereo_of (a @ b) = stereo_of a @ stereo_of b"
  by (induction a rule: stereo_of.induct) auto

lemma take_stereo_of: "2 * k \<le> length raw \<Longrightarrow> take (2 * k) (stereo_of raw) = stereo_of (take (2 * k) raw)"
proof (induction raw arbitrary: k rule: stereo_of.induct)
  case (1 lo hi raw)
  then show ?case by (cases k) auto
qed (auto simp: le_Suc_eq)

lemma put_frames_spec:
  assumes "even (length raw)" "2 * frame + length raw \<le> length out"
  shows "put_frames frame raw out = take (2 * frame) out @ stereo_of raw @ drop (2 * frame + length raw) out"
  using assms
proof (induction raw arbitrary: frame out rule: stereo_of.induct)
  case (1 lo hi raw)
  let ?v = "i16_from_le_bytes lo hi"
  let ?out = "out[2 * frame := ?v, 2 * frame + 1 := ?v]"
  have "put_frames frame (lo # hi # raw) out = put_frames (frame + 1) raw ?out"
    by (simp add: CHANNELS_def upt_rec mult.commute)
  also have "\<dots> = take (2 * (frame + 1)) ?out @ stereo_of raw @ drop (2 * (frame + 1) + length raw) ?out"
    using 1 by (intro 1(1)) auto
  also have "take (2 * (frame + 1)) ?out = take (2 * frame) out @ [?v, ?v]"
  proof -
    have "2 * (frame + 1) = Suc (Suc (2 * frame))" by simp
    then show ?thesis using 1(3) by (simp add: take_Suc_conv_app_nth take_update_cancel)
  qed
  finally show ?case using 1(3) by simp
qed auto

lemma expand_mono_spec:
  assumes "even (length raw)" "length raw \<le> length out"
  obtains out' where "expand_mono_to_stereo raw out = Some (length raw div 2, out')"
    "length out' = length out" "take (length raw) out' = stereo_of raw"
proof
  show "expand_mono_to_stereo raw out = Some (length raw div 2, put_frames 0 raw out)"
    using assms by (simp add: expand_mono_to_stereo_def WIRE_BYTES_PER_SAMPLE_def CHANNELS_def even_iff_mod_2_eq_zero)
  show "length (put_frames 0 raw out) = length out" "take (length raw) (put_frames 0 raw out) = stereo_of raw"
    using put_frames_spec [of raw 0 out] assms length_stereo_of [of raw] by simp_all
qed

section \<open>Interference and alignment\<close>

text \<open>
  What the streamer thread may do to the ring while no connection boundary falls, with the bytes
  it banks: nothing when the ring was full.
\<close>

inductive quiet_op :: "RingState \<Rightarrow> bytes \<Rightarrow> RingState \<Rightarrow> bool" where
  bank: "even (length pcm) \<Longrightarrow> length pcm \<le> capacity r \<Longrightarrow> write_pcm pcm r = Some (b, r') \<Longrightarrow>
    quiet_op r (if b then pcm else []) r'"
| mark: "quiet_op r [] (snd (mark_end_of_audio r))"

inductive quiet_ops :: "RingState \<Rightarrow> bytes \<Rightarrow> RingState \<Rightarrow> bool" where
  idle: "quiet_ops r [] r"
| more: "quiet_ops r bs r' \<Longrightarrow> quiet_op r' cs r'' \<Longrightarrow> quiet_ops r (bs @ cs) r''"

text \<open>Of the outside state, \<open>heard\<close> is what the sound card has played and \<open>banked\<close> what the streamer has banked.\<close>

definition other_quiet :: "'x producer \<Rightarrow> ('x \<Rightarrow> i16 list) \<Rightarrow> ('x \<Rightarrow> bytes) \<Rightarrow> bool" where
  "other_quiet other heard banked \<longleftrightarrow>
     (\<forall>x r r' x'. other x r = (r', x') \<longrightarrow>
        (\<exists>bs. quiet_ops r bs r' \<and> banked x' = banked x @ bs) \<and> heard x' = heard x)"

text \<open>The sound card takes a prefix of the frames it is offered, or none.\<close>

definition device_ok :: "'x stereo_out \<Rightarrow> ('x \<Rightarrow> i16 list) \<Rightarrow> ('x \<Rightarrow> bytes) \<Rightarrow> bool" where
  "device_ok out heard banked \<longleftrightarrow>
     (\<forall>xs x res x'. out xs x = (res, x') \<longrightarrow> banked x' = banked x \<and>
        (case res of Inr k \<Rightarrow> k * 2 \<le> length xs \<and> heard x' = heard x @ take (k * 2) xs
         | Inl _ \<Rightarrow> heard x' = heard x))"

text \<open>Every index of the ring and every mark sits on a sample boundary.\<close>

definition aligned :: "RingState \<Rightarrow> bool" where
  "aligned r \<longleftrightarrow> even (unat (rs_head r)) \<and> even (unat (rs_tail r)) \<and> even (unat (rs_head_at_reset r)) \<and>
     (\<forall>m \<in> set (rs_marks r). even (unat (mark_pos m)))"

lemma even_unat_add: "even (unat a) \<Longrightarrow> even n \<Longrightarrow> even (unat (a + of_nat n :: u32))"
  by (simp add: unat_word_ariths unat_of_nat mod_simps dvd_mod_iff)

lemma even_unat_diff:
  assumes "even (unat a)" "even (unat b)"
  shows "even (unat (a - b :: u32))"
proof -
  have "even (2 ^ 32 - unat b)" using assms(2) by simp
  then have "even (unat (a + of_nat (2 ^ 32 - unat b)))" by (rule even_unat_add [OF assms(1)])
  moreover have "a + of_nat (2 ^ 32 - unat b) = a - b"
    using unat_u32_less [of b] by (simp add: of_nat_diff)
  ultimately show ?thesis by (simp only:)
qed

lemma aligned_pop: "aligned r \<Longrightarrow> aligned (snd (pop_mark_if_at p r))"
  by (auto simp: aligned_def pop_mark_if_at_def split: list.splits)

lemma aligned_mark: "aligned r \<Longrightarrow> aligned (snd (mark_end_of_audio r))"
  by (cases "rs_marks r") (auto simp: aligned_def mark_end_of_audio_def push_mark_def Let_def)

lemma aligned_advance:
  "aligned r \<Longrightarrow> even n \<Longrightarrow> advance n r = Some (b, r') \<Longrightarrow> aligned r'"
proof -
  let ?r = "r\<lparr>rs_tail := rs_tail r + of_nat n\<rparr>"
  assume "aligned r" "even n" "advance n r = Some (b, r')"
  then have "aligned ?r" "r' = snd (pop_mark_if_at (rs_tail ?r) ?r)"
    using even_unat_add [of "rs_tail r" n] by (auto simp: aligned_def advance_def Let_def split: if_splits)
  then show "aligned r'" by (simp only: aligned_pop)
qed

lemma aligned_apply_reset: "aligned r \<Longrightarrow> aligned (snd (apply_reset r))"
  by (auto simp: aligned_def apply_reset_def Let_def discard_dead_generation_marks_filter)

lemma aligned_run_even:
  assumes "ring_ok r" "aligned r" "even m" "even (length tx)" "copy_run_into m tx r = (run, tx')"
  shows "even (run_n run)"
proof -
  have "even (capacity r)" using assms(1) by (simp only: ring_ok_def)
  then have "even (capacity r - unat (rs_tail r) mod capacity r)"
    using assms(2) by (auto simp: aligned_def dvd_mod_iff)
  then have base: "even (base_run m (length tx) r)"
    using assms(2-4) even_unat_diff [of "rs_head r" "rs_tail r"]
    by (auto simp: base_run_def min_def ring_used_def aligned_def)
  have "even (unat (p - rs_tail r))" if "peek_mark_pos r = Some p" for p
    using that assms(2) by (intro even_unat_diff) (auto simp: peek_mark_pos_def aligned_def split: list.splits)
  then show ?thesis using base copy_run_into_n [of m tx r] assms(5) by (auto split: option.splits if_splits)
qed

section \<open>A pass is a run of the ring protocol\<close>

text \<open>
  The simulation between the drain with its ring and the protocol system: same ring, same
  acted generation, the system's invariant, sample alignment, and the drain's two scratch
  buffers at the size of one write unit.
\<close>

definition sim :: "PlaybackDrain \<Rightarrow> RingState \<Rightarrow> ring_sys \<Rightarrow> bool" where
  "sim d r s \<longleftrightarrow> sys_ring s = r \<and> sys_acted s = pd_acted_generation d \<and> ring_sys_inv s \<and> aligned r \<and>
     length (pd_raw d) = INBOUND_PCM_WRITE_UNIT_BYTES \<and> length (pd_stereo d) = INBOUND_PCM_WRITE_UNIT_BYTES"

lemma simD:
  assumes "sim d r s"
  shows "sys_ring s = r" "sys_acted s = pd_acted_generation d" "ring_sys_inv s" "aligned r" "ring_ok r"
    "length (pd_raw d) = 640" "length (pd_stereo d) = 640"
  using assms ring_sys_invD(1) by (auto simp: sim_def INBOUND_PCM_WRITE_UNIT_BYTES_def)

text \<open>
  The bytes the drain may still play: all that is banked, or, while a boundary is pending, what
  was banked after it.
\<close>

definition level :: "ring_sys \<Rightarrow> bool" where
  "level s \<longleftrightarrow> rs_generation (sys_ring s) = sys_acted s"

definition live_bytes :: "ring_sys \<Rightarrow> bytes" where
  "live_bytes s = drop (if level s then sys_tail s else sys_reset s) (sys_written s)"

lemma live_level: "sim d r s \<Longrightarrow> level s \<Longrightarrow> live_bytes s = ring_contents r"
  using ring_sys_invD(5) [of s] by (auto simp: live_bytes_def sim_def)

lemma quiet_op_sim:
  assumes "quiet_op r bs r'" "sim d r s"
  shows "\<exists>s'. ring_step s s' \<and> sim d r' s' \<and> sys_staged s' = sys_staged s \<and> sys_played s' = sys_played s \<and>
    level s' = level s \<and> live_bytes s' = live_bytes s @ bs"
  using assms
proof (cases rule: quiet_op.cases)
  case (bank pcm b)
  note S = simD [OF assms(2)]
  note fr = write_pcm_frame [OF S(5) bank(3,4)]
  have al: "aligned r'" using S(4) fr bank(2) even_unat_add by (auto simp: aligned_def)
  let ?s = "s\<lparr>sys_ring := r', sys_written := sys_written s @ (if b then pcm else [])\<rparr>"
  have st: "ring_step s ?s"
    using ring_step.bank [of pcm s r'] ring_step.bank_full [of pcm s r'] bank(3,4) S(1) by (cases b) auto
  then show ?thesis using al fr(2) ring_step_inv [OF st S(3)] assms(2) ring_sys_invD(4,7) [OF S(3)] bank(1)
    by (intro exI [of _ ?s]) (auto simp: sim_def level_def live_bytes_def)
next
  case mark
  note S = simD [OF assms(2)]
  let ?s = "s\<lparr>sys_ring := snd (mark_end_of_audio (sys_ring s))\<rparr>"
  have st: "ring_step s ?s" by (rule ring_step.mark)
  then show ?thesis using S(1) mark aligned_mark [OF S(4)] ring_step_inv [OF st S(3)] assms(2)
    by (intro exI [of _ ?s]) (auto simp: sim_def level_def live_bytes_def)
qed

lemma quiet_sim:
  assumes "quiet_ops r bs r'" "sim d r s"
  shows "\<exists>s'. ring_step\<^sup>*\<^sup>* s s' \<and> sim d r' s' \<and> sys_staged s' = sys_staged s \<and> sys_played s' = sys_played s \<and>
    level s' = level s \<and> live_bytes s' = live_bytes s @ bs"
  using assms
proof (induction rule: quiet_ops.induct)
  case (idle r)
  then show ?case by auto
next
  case (more r bs r1 cs r2)
  then obtain s1 where "ring_step\<^sup>*\<^sup>* s s1" "sim d r1 s1" "sys_staged s1 = sys_staged s"
    "sys_played s1 = sys_played s" "level s1 = level s" "live_bytes s1 = live_bytes s @ bs" by blast
  moreover from quiet_op_sim [OF more.hyps(2) this(2)] obtain s2 where
    "ring_step s1 s2" "sim d r2 s2" "sys_staged s2 = sys_staged s1" "sys_played s2 = sys_played s1"
    "level s2 = level s1" "live_bytes s2 = live_bytes s1 @ cs" by blast
  ultimately show ?case by (metis append.assoc rtranclp.rtrancl_into_rtrancl)
qed

text \<open>The streamer's turn before a lock acquisition.\<close>

lemma other_sim:
  assumes "other_quiet other heard banked" "sim d r s" "other x r = (r', x')"
  shows "\<exists>s' bs. ring_step\<^sup>*\<^sup>* s s' \<and> sim d r' s' \<and> sys_staged s' = sys_staged s \<and> sys_played s' = sys_played s \<and>
    level s' = level s \<and> live_bytes s' = live_bytes s @ bs \<and> banked x' = banked x @ bs \<and> heard x' = heard x"
proof -
  obtain bs where "quiet_ops r bs r'" "banked x' = banked x @ bs" "heard x' = heard x"
    using assms(1,3) unfolding other_quiet_def by blast
  then show ?thesis using quiet_sim [OF _ assms(2)] by metis
qed

text \<open>The copy under the lock is a protocol step because no boundary fell since the last check.\<close>

lemma copy_sim:
  assumes "sim d r s" "level s" "even m" "copy_run_into m (pd_raw d) r = (run, raw')"
  shows "ring_step s (s\<lparr>sys_staged := take (run_n run) raw'\<rparr>)"
    "sim (d\<lparr>pd_raw := raw'\<rparr>) r (s\<lparr>sys_staged := take (run_n run) raw'\<rparr>)"
    "even (run_n run)" "run_n run \<le> m" "length (take (run_n run) raw') = run_n run" "run_n run \<le> 640"
proof -
  note S = simD [OF assms(1)] and L = length_copy_run [OF assms(4)]
  have g: "run_generation run = sys_acted s"
    using copy_run_into_fields(1) [of m "pd_raw d" r] assms(2,4) S(1) by (simp add: level_def)
  show st: "ring_step s (s\<lparr>sys_staged := take (run_n run) raw'\<rparr>)"
    using ring_step.copy [of m "pd_raw d" s] assms(4) S(1) g by simp
  show "sim (d\<lparr>pd_raw := raw'\<rparr>) r (s\<lparr>sys_staged := take (run_n run) raw'\<rparr>)"
    using ring_step_inv [OF st S(3)] assms(1) L by (simp add: sim_def)
  show "even (run_n run)" using aligned_run_even [OF S(5,4) assms(3) _ assms(4)] S(6) by simp
  show "run_n run \<le> m" "length (take (run_n run) raw') = run_n run" "run_n run \<le> 640"
    using L S(6) by simp_all
qed

lemma map_snd_stamp [simp]: "map snd (stamp t bs) = bs"
  by (simp add: stamp_def)

lemma consume_sim:
  assumes "sim d r s" "level s" "k * 2 \<le> length (sys_staged s)"
  obtains b r' s' where "advance (k * 2) r = Some (b, r')" "ring_step s s'" "sim d r' s'" "level s'"
    "sys_played s' = sys_played s @ stamp (sys_tail s) (take (k * 2) (sys_staged s))"
    "live_bytes s = take (k * 2) (sys_staged s) @ live_bytes s'"
proof -
  note S = simD [OF assms(1)]
  have "k * 2 \<le> ring_used r"
    using assms(3) ring_sys_inv_staged_le [OF S(3)] ring_sys_inv_used [OF S(3)] S(1) by simp
  then obtain b r' where a: "advance (k * 2) r = Some (b, r')" "rs_generation r' = rs_generation r"
    using advance_spec [OF S(5)] by metis
  let ?s = "s\<lparr>sys_ring := r', sys_tail := sys_tail s + k * 2, sys_staged := [],
      sys_played := sys_played s @ stamp (sys_tail s) (take (k * 2) (sys_staged s))\<rparr>"
  have st: "ring_step s ?s" using ring_step.consume [OF assms(3), of b r'] a S(1) by simp
  have "sim d r' ?s"
    using ring_step_inv [OF st S(3)] assms(1) aligned_advance [OF S(4) _ a(1)] by (simp add: sim_def)
  moreover have "level ?s" using a(2) assms(2) S(1) by (simp add: level_def)
  moreover have "take (k * 2) (sys_staged s) = take (k * 2) (drop (sys_tail s) (sys_written s))"
    using assms(3) by (subst ring_sys_invD(8) [OF S(3)]) simp
  then have "drop (sys_tail s) (sys_written s) =
      take (k * 2) (sys_staged s) @ drop (sys_tail s + k * 2) (sys_written s)"
    by (metis add.commute append_take_drop_id drop_drop)
  then have "live_bytes s = take (k * 2) (sys_staged s) @ live_bytes ?s"
    using \<open>level ?s\<close> assms(2) by (simp add: live_bytes_def)
  ultimately show ?thesis using that a st by simp
qed

text \<open>
  What a stretch of the drain from \<open>(d, r, x, s)\<close> to \<open>(d', r', x')\<close> has done, within a byte budget: it is a run
  of the protocol, the card has heard the bytes played, and the bytes that were live at its start
  together with those banked meanwhile are exactly the bytes played and what is left in the ring.
\<close>

definition plays ::
  "('x \<Rightarrow> i16 list) \<Rightarrow> ('x \<Rightarrow> bytes) \<Rightarrow> nat \<Rightarrow> ring_sys \<Rightarrow> 'x \<Rightarrow> PlaybackDrain \<times> RingState \<times> 'x \<Rightarrow> bool" where
  "plays heard banked budget s x res =
     (case res of (d', r', x') \<Rightarrow> \<exists>s' ps bs. ring_step\<^sup>*\<^sup>* s s' \<and> sim d' r' s' \<and> level s' \<and>
        sys_played s' = sys_played s @ ps \<and> heard x' = heard x @ stereo_of (map snd ps) \<and>
        even (length ps) \<and> length ps \<le> budget \<and>
        banked x' = banked x @ bs \<and> live_bytes s @ bs = map snd ps @ live_bytes s')"

lemma playsE:
  assumes "plays heard banked budget s x (d', r', x')"
  obtains played bs where "heard x' = heard x @ stereo_of played" "even (length played)" "length played \<le> budget"
    "banked x' = banked x @ bs" "live_bytes s @ bs = played @ ring_contents r'"
proof -
  obtain s' bs and ps :: "(nat \<times> u8) list" where "sim d' r' s'" "level s'"
    "heard x' = heard x @ stereo_of (map snd ps)" "even (length ps)"
    "length ps \<le> budget" "banked x' = banked x @ bs" "live_bytes s @ bs = map snd ps @ live_bytes s'"
    using assms unfolding plays_def prod.case by blast
  then show ?thesis using that [of "map snd ps" bs] live_level [of d' r' s'] by simp
qed

lemma plays_none:
  "sim d' r' s' \<Longrightarrow> ring_step\<^sup>*\<^sup>* s s' \<Longrightarrow> level s' \<Longrightarrow> sys_played s' = sys_played s \<Longrightarrow> heard x' = heard x \<Longrightarrow>
     banked x' = banked x @ bs \<Longrightarrow> live_bytes s' = live_bytes s @ bs \<Longrightarrow> plays heard banked budget s x (d', r', x')"
  unfolding plays_def prod.case by (rule exI [of _ s'], rule exI [of _ "[]"], rule exI [of _ bs]) simp

lemma plays_more:
  assumes "plays heard banked budget s1 x1 res" "ring_step\<^sup>*\<^sup>* s s1" "sys_played s1 = sys_played s @ ps"
    "heard x1 = heard x @ stereo_of (map snd ps)" "even (length ps)" "budget + length ps \<le> budget'"
    "banked x1 = banked x @ bs" "live_bytes s @ bs = map snd ps @ live_bytes s1"
  shows "plays heard banked budget' s x res"
proof -
  obtain d' r' x' where res: "res = (d', r', x')" by (cases res)
  with assms(1) obtain s' qs cs where q: "ring_step\<^sup>*\<^sup>* s1 s'" "sim d' r' s'" "level s'" "sys_played s' = sys_played s1 @ qs"
    "heard x' = heard x1 @ stereo_of (map snd qs)" "even (length qs)" "length qs \<le> budget"
    "banked x' = banked x1 @ cs" "live_bytes s1 @ cs = map snd qs @ live_bytes s'"
    by (auto simp: plays_def)
  have "stereo_of (map snd (ps @ qs)) = stereo_of (map snd ps) @ stereo_of (map snd qs)"
    using assms(5) by (simp add: stereo_of_append)
  moreover have "live_bytes s @ bs @ cs = map snd (ps @ qs) @ live_bytes s'"
    using assms(8) q(9) by (metis append.assoc map_append)
  ultimately show ?thesis using q assms(2-7) unfolding plays_def res prod.case
    by - (rule exI [of _ s'], rule exI [of _ "ps @ qs"], rule exI [of _ "bs @ cs"], auto)
qed

text \<open>One iteration up to the device's answer.\<close>

lemma offer_run:
  assumes q: "other_quiet other heard banked" and s: "sim d r s" "level s" "even budget"
    and o1: "other x r = (r1, x1)"
    and cp: "copy_run_into (min budget (length (pd_raw d))) (pd_raw d) r1 = (run, raw')"
  obtains s2 st' bs where "ring_step\<^sup>*\<^sup>* s s2" "sim (d\<lparr>pd_raw := raw', pd_stereo := st'\<rparr>) r1 s2"
    "sim (d\<lparr>pd_raw := raw'\<rparr>) r1 s2" "sys_played s2 = sys_played s" "sys_staged s2 = take (run_n run) raw'"
    "expand_mono_to_stereo (take (run_n run) raw') (pd_stereo d) = Some (run_n run div 2, st')"
    "take (run_n run) st' = stereo_of (take (run_n run) raw')" "length (take (run_n run) raw') = run_n run"
    "even (run_n run)" "run_n run \<le> budget" "heard x1 = heard x" "level s2"
    "banked x1 = banked x @ bs" "live_bytes s2 = live_bytes s @ bs"
proof -
  from other_sim [OF q s(1) o1] obtain s1 bs where s1: "ring_step\<^sup>*\<^sup>* s s1" "sim d r1 s1"
    "sys_played s1 = sys_played s" "level s1" "heard x1 = heard x" "banked x1 = banked x @ bs" "live_bytes s1 = live_bytes s @ bs"
    using s(2) by blast
  have m: "even (min budget (length (pd_raw d)))" using s(3) simD(6) [OF s(1)] by (simp add: min_def)
  note C = copy_sim [OF s1(2,4) m cp]
  obtain st' where e: "expand_mono_to_stereo (take (run_n run) raw') (pd_stereo d) = Some (run_n run div 2, st')"
    "length st' = 640" "take (run_n run) st' = stereo_of (take (run_n run) raw')"
    using expand_mono_spec [of "take (run_n run) raw'" "pd_stereo d"] C(3,5,6) simD(7) [OF s(1)] by metis
  let ?s2 = "s1\<lparr>sys_staged := take (run_n run) raw'\<rparr>"
  have "ring_step\<^sup>*\<^sup>* s ?s2" using s1(1) C(1) by (rule rtranclp.rtrancl_into_rtrancl)
  moreover have "sim (d\<lparr>pd_raw := raw', pd_stereo := st'\<rparr>) r1 ?s2"
    using C(2) e(2) by (simp add: sim_def INBOUND_PCM_WRITE_UNIT_BYTES_def)
  moreover have "level ?s2" "live_bytes ?s2 = live_bytes s @ bs" using s1(4,7) by (simp_all add: level_def live_bytes_def)
  ultimately show ?thesis using that C e s1(3,5,6) by simp
qed

text \<open>The device took \<open>k\<close> frames of the staged run: the tail follows by exactly their bytes.\<close>

lemma accept_run:
  assumes q: "other_quiet other heard banked" and dv: "device_ok out heard banked"
    and s: "sim d r1 s2" "level s2" "sys_staged s2 = run"
    and even: "even (length run)" and o1: "out (stereo_of run) x1 = (Inr k, x2)" and o2: "other x2 r1 = (r2, x3)"
  obtains b r3 s4 ps bs where "advance (k * 2) r2 = Some (b, r3)" "ring_step\<^sup>*\<^sup>* s2 s4" "sim d r3 s4"
    "sys_played s4 = sys_played s2 @ ps" "heard x3 = heard x1 @ stereo_of (map snd ps)" "length ps = k * 2"
    "k * 2 \<le> length run" "level s4" "banked x3 = banked x1 @ bs" "live_bytes s2 @ bs = map snd ps @ live_bytes s4"
proof -
  have k: "k * 2 \<le> length (stereo_of run)" "heard x2 = heard x1 @ take (k * 2) (stereo_of run)" "banked x2 = banked x1"
    using dv o1 unfolding device_ok_def by fastforce+
  have kb: "k * 2 \<le> length run" using k(1) even by (simp add: length_stereo_of)
  then have hk: "heard x2 = heard x1 @ stereo_of (take (k * 2) run)"
    using k(2) take_stereo_of [of k run] by (simp add: mult.commute)
  from other_sim [OF q s(1) o2] obtain s3 bs where s3: "ring_step\<^sup>*\<^sup>* s2 s3" "sim d r2 s3"
    "sys_staged s3 = run" "sys_played s3 = sys_played s2" "level s3" "live_bytes s3 = live_bytes s2 @ bs"
    "banked x3 = banked x1 @ bs" "heard x3 = heard x2" using s(2,3) k(3) by auto
  have "k * 2 \<le> length (sys_staged s3)" using kb s3(3) by simp
  from consume_sim [OF s3(2,5) this] obtain b r3 s4 where C: "advance (k * 2) r2 = Some (b, r3)" "ring_step s3 s4"
    "sim d r3 s4" "level s4" "sys_played s4 = sys_played s3 @ stamp (sys_tail s3) (take (k * 2) (sys_staged s3))"
    "live_bytes s3 = take (k * 2) (sys_staged s3) @ live_bytes s4" by blast
  let ?ps = "stamp (sys_tail s3) (take (k * 2) run)"
  have "ring_step\<^sup>*\<^sup>* s2 s4" using s3(1) C(2) by (rule rtranclp.rtrancl_into_rtrancl)
  moreover have "length ?ps = k * 2" using kb by (simp add: stamp_def)
  moreover have "heard x3 = heard x1 @ stereo_of (map snd ?ps)" using hk s3(8) by simp
  moreover have "live_bytes s2 @ bs = map snd ?ps @ live_bytes s4" using C(6) s3(3,6) by simp
  ultimately show ?thesis using that [of b r3 s4 ?ps bs] C kb s3 by simp
qed

lemma drain_runs_plays:
  assumes q: "other_quiet other heard banked" and dv: "device_ok out heard banked"
  shows "sim d r s \<Longrightarrow> level s \<Longrightarrow> even budget \<Longrightarrow>
    \<exists>e res. drain_runs other out budget played d r x = Some (e, res) \<and> plays heard banked budget s x res"
proof (induction budget arbitrary: played d r x s rule: less_induct)
  case (less budget)
  show ?case
  proof (cases "budget = 0")
    case True
    then show ?thesis using less.prems(1,2) by (subst drain_runs.simps) (auto intro: plays_none [of _ _ _ _ _ _ _ _ "[]"])
  next
    case pos: False
    obtain r1 x1 where o1: "other x r = (r1, x1)" by fastforce
    obtain run raw' where cp: "copy_run_into (min budget (length (pd_raw d))) (pd_raw d) r1 = (run, raw')" by fastforce
    let ?bs = "take (run_n run) raw'"
    obtain s2 st' cs where R: "ring_step\<^sup>*\<^sup>* s s2" "sim (d\<lparr>pd_raw := raw', pd_stereo := st'\<rparr>) r1 s2"
      "sim (d\<lparr>pd_raw := raw'\<rparr>) r1 s2" "sys_played s2 = sys_played s" "sys_staged s2 = ?bs"
      "expand_mono_to_stereo ?bs (pd_stereo d) = Some (run_n run div 2, st')"
      "take (run_n run) st' = stereo_of ?bs" "length ?bs = run_n run" "even (run_n run)" "run_n run \<le> budget"
      "heard x1 = heard x" "level s2" "banked x1 = banked x @ cs" "live_bytes s2 = live_bytes s @ cs"
      by (rule offer_run [OF q less.prems o1 cp])
    obtain a x2 where a: "out (stereo_of ?bs) x1 = (a, x2)" by fastforce
    have fr: "run_n run div 2 * CHANNELS = run_n run" using R(9) by (simp add: CHANNELS_def)
    note loop = drain_runs.simps [of other out budget played d r x, simplified o1 cp Let_def prod.case]
    note none = plays_none [OF _ R(1,12,4) _ _ R(14)]
    show ?thesis
    proof (cases "run_n run = 0")
      case True
      then show ?thesis unfolding loop using pos none [OF R(3,11,13)] by simp
    next
      case run: False
      show ?thesis
      proof (cases a)
        case (Inl f)
        then have h: "heard x2 = heard x" "banked x2 = banked x @ cs"
          using dv a R(11,13) unfolding device_ok_def by fastforce+
        have gate: "sim (d\<lparr>pd_raw := raw', pd_stereo := st', pd_underruns := u, pd_gate := g\<rparr>) r1 s2" for u g
          using R(2) by (simp add: sim_def)
        show ?thesis unfolding loop
          using pos run R(6,7) a Inl fr none [OF R(2) h] none [OF gate h] by (cases f) auto
      next
        case (Inr k)
        obtain r2 x3 where o2: "other x2 r1 = (r2, x3)" by fastforce
        obtain b r3 s4 ps ds where C: "advance (k * 2) r2 = Some (b, r3)" "ring_step\<^sup>*\<^sup>* s2 s4"
          "sim (d\<lparr>pd_raw := raw', pd_stereo := st'\<rparr>) r3 s4" "sys_played s4 = sys_played s2 @ ps"
          "heard x3 = heard x1 @ stereo_of (map snd ps)" "length ps = k * 2" "k * 2 \<le> length ?bs"
          "level s4" "banked x3 = banked x1 @ ds" "live_bytes s2 @ ds = map snd ps @ live_bytes s4"
          by (rule accept_run [OF q dv R(2,12,5) _ a [unfolded Inr] o2]) (use R(8,9) in simp)
        let ?d3 = "d\<lparr>pd_raw := raw', pd_stereo := st', pd_played_frames := pd_played_frames d + k\<rparr>"
        have sim4: "sim ?d3 r3 s4" using C(3) by (simp add: sim_def)
        have lift: "plays heard banked budget s x res" if "plays heard banked (budget - k * 2) s4 x3 res" for res
          using plays_more [OF that, of s ps x budget "cs @ ds"] rtranclp_trans [OF R(1) C(2)] C(4-7,9,10) R(4,8,10,11,13,14)
          by simp
        have stop: "plays heard banked budget s x (?d3, r3, x3)"
          by (rule lift, rule plays_none [OF sim4, where bs = "[]"]) (use C(8) in auto)
        have go: "\<exists>e res. drain_runs other out (budget - k * 2) (played + k) ?d3 r3 x3 = Some (e, res) \<and>
            plays heard banked (budget - k * 2) s4 x3 res" if "\<not> k < run_n run div 2"
          using that run R(9) C(8) pos less.prems(3) by (intro less.IH sim4) auto
        show ?thesis unfolding loop
          using pos run R(6,7,8,10) a Inr fr o2 C(1,7) stop go lift
          by (auto simp: WIRE_BYTES_PER_SAMPLE_def)
      qed
    qed
  qed
qed

lemma sim_bookkeeping [simp]:
  "sim (d\<lparr>pd_gate := g\<rparr>) r s = sim d r s" "sim (d\<lparr>pd_boundaries := n\<rparr>) r s = sim d r s"
  "sim (d\<lparr>pd_underruns := n\<rparr>) r s = sim d r s"
  by (simp_all add: sim_def)

text \<open>Acting on a pending boundary keeps what was banked after it.\<close>

lemma apply_sim:
  assumes "sim d r s" "\<not> level s" "apply_reset r = (g, r')"
  shows "\<exists>s'. ring_step s s' \<and> sim (d\<lparr>pd_acted_generation := g\<rparr>) r' s' \<and> sys_played s' = sys_played s \<and>
    level s' \<and> live_bytes s' = live_bytes s"
proof -
  note S = simD [OF assms(1)]
  let ?s = "s\<lparr>sys_ring := r', sys_acted := g, sys_staged := [], sys_tail := sys_reset s\<rparr>"
  have st: "ring_step s ?s" using ring_step.apply_pending [of s g r'] assms(2,3) S(1) by (simp add: level_def)
  have "aligned r'" using aligned_apply_reset [OF S(4)] assms(3) by simp
  moreover have "rs_generation r' = g" using assms(3) by (auto simp: apply_reset_def Let_def)
  ultimately show ?thesis using st ring_step_inv [OF st S(3)] assms(1,2)
    by (intro exI [of _ ?s]) (auto simp: sim_def level_def live_bytes_def)
qed

lemma take_mark_sim:
  assumes "sim d r s" "take_mark_at_tail r = (b, r')"
  shows "\<exists>s'. ring_step s s' \<and> sim d r' s' \<and> sys_played s' = sys_played s \<and> level s' = level s \<and> live_bytes s' = live_bytes s"
proof -
  note S = simD [OF assms(1)]
  let ?s = "s\<lparr>sys_ring := snd (take_mark_at_tail (sys_ring s))\<rparr>"
  have st: "ring_step s ?s" by (rule ring_step.take_mark)
  have r': "r' = snd (take_mark_at_tail r)" using assms(2) by simp
  then have "aligned r'" using aligned_pop [OF S(4)] by (simp add: take_mark_at_tail_def)
  then show ?thesis using st ring_step_inv [OF st S(3)] assms(1) S(1) r'
    by (intro exI [of _ ?s]) (auto simp: sim_def level_def live_bytes_def)
qed

text \<open>The head of a pass: a pending boundary is acted on before anything else.\<close>

lemma pass_head_sim:
  assumes q: "other_quiet other heard banked" and s: "sim d r s" and o0: "other x r = (r0, x0)"
    and hd: "(d1, r1, x1) = (if rs_generation r0 \<noteq> pd_acted_generation d
      then let (ra, xa) = other x0 r0; (g, rb) = apply_reset ra
           in (d\<lparr>pd_acted_generation := g, pd_gate := arm_base (pd_gate d)\<rparr>, rb, xa)
      else (d, r0, x0))"
  shows "\<exists>s' bs. ring_step\<^sup>*\<^sup>* s s' \<and> sim d1 r1 s' \<and> sys_played s' = sys_played s \<and> heard x1 = heard x \<and>
    level s' \<and> banked x1 = banked x @ bs \<and> live_bytes s' = live_bytes s @ bs"
proof -
  from other_sim [OF q s o0] obtain s0 bs where s0: "ring_step\<^sup>*\<^sup>* s s0" "sim d r0 s0"
    "sys_played s0 = sys_played s" "heard x0 = heard x" "banked x0 = banked x @ bs" "live_bytes s0 = live_bytes s @ bs" by blast
  have lv: "level s0 \<longleftrightarrow> rs_generation r0 = pd_acted_generation d"
    using simD(1,2) [OF s0(2)] by (simp add: level_def)
  show ?thesis
  proof (cases "level s0")
    case True
    then show ?thesis using hd s0 lv by auto
  next
    case False
    obtain ra xa where oa: "other x0 r0 = (ra, xa)" by fastforce
    obtain g rb where ap: "apply_reset ra = (g, rb)" by fastforce
    from other_sim [OF q s0(2) oa] obtain sa cs where sa: "ring_step\<^sup>*\<^sup>* s0 sa" "sim d ra sa"
      "sys_played sa = sys_played s0" "heard xa = heard x0" "level sa = level s0" "banked xa = banked x0 @ cs"
      "live_bytes sa = live_bytes s0 @ cs" by blast
    from apply_sim [OF sa(2) _ ap] obtain sb where sb: "ring_step sa sb" "sim (d\<lparr>pd_acted_generation := g\<rparr>) rb sb"
      "sys_played sb = sys_played sa" "level sb" "live_bytes sb = live_bytes sa" using False sa(5) by auto
    have "ring_step\<^sup>*\<^sup>* s sb" using s0(1) sa(1) sb(1) by (meson rtranclp_trans rtranclp.rtrancl_into_rtrancl)
    moreover have "d1 = d\<lparr>pd_acted_generation := g, pd_gate := arm_base (pd_gate d)\<rparr>" "r1 = rb" "x1 = xa"
      using hd False lv oa ap by auto
    ultimately show ?thesis using s0 sa sb
      by - (rule exI [of _ sb], rule exI [of _ "bs @ cs"], simp)
  qed
qed

lemma drain_pass_plays:
  assumes q: "other_quiet other heard banked" and dv: "device_ok out heard banked" and s: "sim d r s"
  shows "\<exists>e res. drain_pass other out now d r x = Some (e, res) \<and> plays heard banked DRAIN_BYTES_PER_PASS s x res"
proof -
  obtain r0 x0 where o0: "other x r = (r0, x0)" by fastforce
  obtain d1 r1 x1 where hd: "(d1, r1, x1) = (if rs_generation r0 \<noteq> pd_acted_generation d
      then let (ra, xa) = other x0 r0; (g, rb) = apply_reset ra
           in (d\<lparr>pd_acted_generation := g, pd_gate := arm_base (pd_gate d)\<rparr>, rb, xa)
      else (d, r0, x0))" by (metis prod_cases3)
  obtain s1 as where s1: "ring_step\<^sup>*\<^sup>* s s1" "sim d1 r1 s1" "sys_played s1 = sys_played s" "heard x1 = heard x"
    "level s1" "banked x1 = banked x @ as" "live_bytes s1 = live_bytes s @ as" using pass_head_sim [OF q s o0 hd] by blast
  obtain r2 x2 where o2: "other x1 r1 = (r2, x2)" by fastforce
  obtain b r3 where tm: "take_mark_at_tail r2 = (b, r3)" by fastforce
  obtain r4 x4 where o4: "other x2 r3 = (r4, x4)" by fastforce
  from other_sim [OF q s1(2) o2] obtain s2 bs where s2: "ring_step\<^sup>*\<^sup>* s1 s2" "sim d1 r2 s2"
    "sys_played s2 = sys_played s1" "heard x2 = heard x1" "level s2 = level s1" "banked x2 = banked x1 @ bs"
    "live_bytes s2 = live_bytes s1 @ bs" by blast
  from take_mark_sim [OF s2(2) tm] obtain s3 where s3: "ring_step s2 s3" "sim d1 r3 s3"
    "sys_played s3 = sys_played s2" "level s3 = level s2" "live_bytes s3 = live_bytes s2" by blast
  from other_sim [OF q s3(2) o4] obtain s4 cs where s4: "ring_step\<^sup>*\<^sup>* s3 s4" "sim d1 r4 s4"
    "sys_played s4 = sys_played s3" "heard x4 = heard x2" "level s4 = level s3" "banked x4 = banked x2 @ cs"
    "live_bytes s4 = live_bytes s3 @ cs" by blast
  have to3: "ring_step\<^sup>*\<^sup>* s s3" using s1(1) s2(1) s3(1) by (meson rtranclp_trans rtranclp.rtrancl_into_rtrancl)
  have to4: "ring_step\<^sup>*\<^sup>* s s4" using to3 s4(1) by (rule rtranclp_trans)
  have at4: "sys_played s4 = sys_played s" "heard x4 = heard x" "level s4" "banked x4 = banked x @ (as @ bs @ cs)"
    "live_bytes s4 = live_bytes s @ (as @ bs @ cs)" using s1 s2 s3 s4 by auto
  obtain play g where ga: "gate_admit (available r4) now (pd_gate d1) = (play, g)" by fastforce
  have "\<exists>e res. drain_runs other out DRAIN_BYTES_PER_PASS 0 (d1\<lparr>pd_gate := g\<rparr>) r4 x4 = Some (e, res) \<and>
      plays heard banked DRAIN_BYTES_PER_PASS s4 x4 res"
    using s4(2) at4(3) by (intro drain_runs_plays [OF q dv]) (auto simp: DRAIN_BYTES_PER_PASS_def)
  then obtain e d3 r5 x5 where
    dr: "drain_runs other out DRAIN_BYTES_PER_PASS 0 (d1\<lparr>pd_gate := g\<rparr>) r4 x4 = Some (e, d3, r5, x5)"
    and pl: "plays heard banked DRAIN_BYTES_PER_PASS s4 x4 (d3, r5, x5)" by auto
  have played: "plays heard banked DRAIN_BYTES_PER_PASS s x (d3, r5, x5)"
    using plays_more [OF pl to4, of "[]" x DRAIN_BYTES_PER_PASS "as @ bs @ cs"] at4 by simp
  have mark: "plays heard banked DRAIN_BYTES_PER_PASS s x (d1\<lparr>pd_boundaries := n, pd_gate := g\<rparr>, r3, x2)" for n g
    using to3 s1 s2 s3 by (intro plays_none [of _ _ s3 _ _ _ _ _ "as @ bs"]) auto
  have hold: "plays heard banked DRAIN_BYTES_PER_PASS s x (d1\<lparr>pd_gate := g\<rparr>, r4, x4)"
    "plays heard banked DRAIN_BYTES_PER_PASS s x (d1\<lparr>pd_gate := g, pd_underruns := n\<rparr>, r4, x4)" for g n
    using to4 at4 s4(2) by (intro plays_none [of _ _ s4 _ _ _ _ _ "as @ bs @ cs"]; simp)+
  have after: "plays heard banked DRAIN_BYTES_PER_PASS s x (d3, r5, x5) \<Longrightarrow>
      plays heard banked DRAIN_BYTES_PER_PASS s x (d3\<lparr>pd_boundaries := n, pd_gate := g\<rparr>, r5, x5)" for d3 r5 x5 n g
    by (auto simp: plays_def)
  show ?thesis
    unfolding drain_pass_def Let_def o0 prod.case hd [symmetric, unfolded Let_def] o2 tm o4 ga
    using played mark hold after by (cases e) (auto simp: dr split: prod.splits)
qed

lemma run_drain_loop_plays:
  assumes q: "other_quiet other heard banked" and dv: "device_ok out heard banked"
  shows "sim d r s \<Longrightarrow> level s \<Longrightarrow> \<exists>e res. run_drain_loop other out nows d r x = Some (e, res) \<and>
    plays heard banked (length nows * DRAIN_BYTES_PER_PASS) s x res"
proof (induction nows arbitrary: d r x s)
  case Nil
  then show ?case by (auto intro: plays_none [of _ _ _ _ _ _ _ _ "[]"])
next
  case (Cons now nows)
  from drain_pass_plays [OF q dv Cons.prems(1), of now x] obtain e d1 r1 x1 where
    p: "drain_pass other out now d r x = Some (e, d1, r1, x1)" "plays heard banked DRAIN_BYTES_PER_PASS s x (d1, r1, x1)"
    by auto
  then obtain s1 ps bs where s1: "ring_step\<^sup>*\<^sup>* s s1" "sim d1 r1 s1" "level s1" "sys_played s1 = sys_played s @ ps"
    "heard x1 = heard x @ stereo_of (map snd ps)" "even (length ps)" "length ps \<le> DRAIN_BYTES_PER_PASS"
    "banked x1 = banked x @ bs" "live_bytes s @ bs = map snd ps @ live_bytes s1"
    by (auto simp: plays_def)
  have lift: "plays heard banked (length nows * DRAIN_BYTES_PER_PASS) s1 x1 res \<Longrightarrow>
      plays heard banked (length (now # nows) * DRAIN_BYTES_PER_PASS) s x res" for res
    using s1 by (elim plays_more) auto
  have "plays heard banked (length nows * DRAIN_BYTES_PER_PASS) s1 x1 (d1, r1, x1)"
    using s1(2,3) by (intro plays_none [of _ _ _ _ _ _ _ _ "[]"]) auto
  then show ?case using p(1) Cons.IH [OF s1(2,3), of x1] lift by (cases e) auto
qed

lemma playback_pair_sim:
  assumes "InboundPcmRing_new cap = Some ring" "0 < cap" "even cap" "cap dvd 2 ^ 32" "cap < 2 ^ 32"
  shows "sim (PlaybackDrain_new ring) ring (ring_sys_init ring)" "level (ring_sys_init ring)" "live_bytes (ring_sys_init ring) = []"
proof -
  have "aligned ring"
    using assms(1) by (auto simp: InboundPcmRing_new_def with_storage_def aligned_def split: if_splits)
  then show "sim (PlaybackDrain_new ring) ring (ring_sys_init ring)" using ring_sys_inv_init [OF assms]
    by (simp add: sim_def ring_sys_init_def PlaybackDrain_new_def INBOUND_PCM_WRITE_UNIT_BYTES_def
        WIRE_BYTES_PER_SAMPLE_def CHANNELS_def)
qed (simp_all add: level_def live_bytes_def ring_sys_init_def)

section \<open>Boundaries between passes\<close>

text \<open>
  The drain over the life of the ring: passes, and between two passes whatever the streamer thread does, connection
  boundaries and flushes included. The last two components are the bytes banked and not yet played or dropped, and
  the number of boundaries since the last pass, which stays below the range of the generation counter.
\<close>

inductive drain_history ::
  "'x producer \<Rightarrow> 'x stereo_out \<Rightarrow> RingState \<Rightarrow> PlaybackDrain \<Rightarrow> RingState \<Rightarrow> 'x \<Rightarrow> bytes \<Rightarrow> nat \<Rightarrow> bool"
  for other out ring where
  fresh: "drain_history other out ring (PlaybackDrain_new ring) ring x [] 0"
| pass: "drain_history other out ring d r x l k \<Longrightarrow> drain_pass other out now d r x = Some (Inr outcome, d', r', x') \<Longrightarrow>
    drain_history other out ring d' r' x' (ring_contents r') 0"
| between: "drain_history other out ring d r x l k \<Longrightarrow> quiet_op r bs r' \<Longrightarrow>
    drain_history other out ring d r' x (l @ bs) k"
| boundary: "drain_history other out ring d r x l k \<Longrightarrow> k + 1 < 2 ^ 32 \<Longrightarrow>
    drain_history other out ring d (ring_reset r) x [] (k + 1)"

lemma reset_sim:
  assumes "sim d r s" "rs_generation r = sys_acted s + of_nat k" "k + 1 < 2 ^ 32"
  shows "\<exists>s'. sim d (ring_reset r) s' \<and> rs_generation (ring_reset r) = sys_acted s' + of_nat (k + 1) \<and> live_bytes s' = []"
proof -
  note S = simD [OF assms(1)]
  let ?s = "s\<lparr>sys_ring := ring_reset (sys_ring s), sys_reset := length (sys_written s)\<rparr>"
  have st: "ring_step s ?s" by (rule ring_step.reset)
  have "aligned (ring_reset r)" using S(4) by (auto simp: aligned_def)
  moreover have g: "rs_generation (ring_reset r) = sys_acted s + of_nat (k + 1)"
    using assms(2) by (simp add: ring_reset_def)
  moreover have "(of_nat (k + 1) :: u32) \<noteq> 0"
    using assms(3) unat_of_nat_u32_small [of "k + 1"] by (metis add_is_0 one_neq_zero unat_0)
  then have "\<not> level ?s" using g S(1) by (simp add: level_def add.commute)
  ultimately show ?thesis using ring_step_inv [OF st S(3)] assms(1) S(1)
    by (intro exI [of _ ?s]) (auto simp: sim_def live_bytes_def)
qed

lemma drain_history_sim:
  assumes hist: "drain_history other out ring d r x l k" and q: "other_quiet other heard banked"
    and dv: "device_ok out heard banked"
    and cap: "InboundPcmRing_new cap = Some ring" "0 < cap" "even cap" "cap dvd 2 ^ 32" "cap < 2 ^ 32"
  shows "\<exists>s. sim d r s \<and> rs_generation r = sys_acted s + of_nat k \<and> live_bytes s = l"
  using hist
proof (induction rule: drain_history.induct)
  case (fresh x)
  then show ?case using playback_pair_sim [OF cap]
    by (intro exI [of _ "ring_sys_init ring"]) (simp add: ring_sys_init_def)
next
  case (pass d r x l k now outcome d' r' x')
  then obtain s where "sim d r s" by blast
  from drain_pass_plays [OF q dv this, of now x] pass(2) have "plays heard banked DRAIN_BYTES_PER_PASS s x (d', r', x')"
    by simp
  then obtain s' where "sim d' r' s'" "level s'" by (auto simp: plays_def)
  then show ?case using live_level [of d' r' s'] simD(1) [of d' r' s'] by (auto simp: level_def)
next
  case (between d r x l k bs r')
  then obtain s where s: "sim d r s" "rs_generation r = sys_acted s + of_nat k" "live_bytes s = l" by blast
  from quiet_op_sim [OF between(2) s(1)] obtain s' where s': "sim d r' s'" "live_bytes s' = live_bytes s @ bs" by blast
  moreover have "rs_generation r' = rs_generation r"
    using between(2) simD(5) [OF s(1)] write_pcm_frame(2) by (cases rule: quiet_op.cases) auto
  moreover have "sys_acted s' = sys_acted s" using simD(2) [OF s(1)] simD(2) [OF s'(1)] by simp
  ultimately show ?case using s by metis
next
  case (boundary d r x l k)
  then show ?case using reset_sim by blast
qed

section \<open>A scripted run\<close>

text \<open>
  The outside world of a concrete run: the PCM the streamer thread banks before each of the drain's lock
  acquisitions, what it has banked, and what the sound card has played; the card takes all it is offered.
\<close>

record script_world =
  sw_todo :: "bytes list"
  sw_banked :: bytes
  sw_heard :: "i16 list"

definition bank_script :: "script_world producer" where
  "bank_script x r =
     (case sw_todo x of
        [] \<Rightarrow> (r, x)
      | pcm # ps \<Rightarrow>
          if even (length pcm) \<and> length pcm \<le> capacity r then
            (case write_pcm pcm r of
               Some (True, r') \<Rightarrow> (r', x\<lparr>sw_todo := ps, sw_banked := sw_banked x @ pcm\<rparr>)
             | _ \<Rightarrow> (r, x))
          else (r, x))"

definition card_out :: "script_world stereo_out" where
  "card_out xs x = (Inr (length xs div 2), x\<lparr>sw_heard := sw_heard x @ take (length xs div 2 * 2) xs\<rparr>)"

lemma quiet_ops_bank:
  assumes "even (length pcm)" "length pcm \<le> capacity r" "write_pcm pcm r = Some (True, r')"
  shows "quiet_ops r pcm r'"
  using quiet_ops.more [OF quiet_ops.idle quiet_op.bank [OF assms]] by simp

lemma bank_script_quiet: "other_quiet bank_script sw_heard sw_banked"
  by (auto simp: other_quiet_def bank_script_def split: list.splits if_splits option.splits bool.splits
      intro: quiet_ops.idle quiet_ops_bank)

lemma card_out_ok: "device_ok card_out sw_heard sw_banked"
  by (auto simp: device_ok_def card_out_def)

end
