(* ===== verification/Listener_Ring.thy ===== *)
theory Listener_Ring
  imports Pod_Prelude
begin

text \<open>
  The listener's rolling PCM buffer (\<^verbatim>\<open>host/crates/speech-pipeline/src/listener/ring.rs\<close>): runs of
  samples keyed on absolute sample index, from which utterances are carved.

  A sample index is a \<open>u64\<close>, a length a \<open>usize\<close>. \<open>evict\<close> indexes the first run without a check, so it is
  \<open>None\<close> when there is none; the two slices of a \<open>VecDeque\<close> are one list.

  The lemmas: the ring implements a map from indexes to samples. A push adds the samples
  beyond the last index held and keeps the newest of all; a carve reads the map, with silence
  where it has nothing.
\<close>

section \<open>Operations\<close>

record pcm_run =
  rn_start :: u64
  rn_samples :: "i16 list"

definition run_end :: "pcm_run \<Rightarrow> u64" where
  "run_end r = rn_start r + of_nat (length (rn_samples r))"

record PcmRing =
  pr_capacity :: nat
  pr_stored :: nat
  pr_runs :: "pcm_run list"

definition PcmRing_new :: "nat \<Rightarrow> PcmRing" where
  "PcmRing_new capacity = \<lparr>pr_capacity = capacity, pr_stored = 0, pr_runs = []\<rparr>"

definition pcm_reset :: "PcmRing \<Rightarrow> PcmRing" where
  "pcm_reset r = r\<lparr>pr_runs := [], pr_stored := 0\<rparr>"

definition pcm_len :: "PcmRing \<Rightarrow> nat" where
  "pcm_len r = pr_stored r"

definition pcm_is_empty :: "PcmRing \<Rightarrow> bool" where
  "pcm_is_empty r \<longleftrightarrow> pr_stored r = 0"

text \<open>The loop of \<open>evict\<close> over the runs and the stored count.\<close>

function evict_runs :: "nat \<Rightarrow> nat \<Rightarrow> pcm_run list \<Rightarrow> (nat \<times> pcm_run list) option" where
  "evict_runs capacity stored runs =
     (if stored \<le> capacity then Some (stored, runs)
      else
        let overflow = stored - capacity in
        (case runs of
           [] \<Rightarrow> None
         | front # rest \<Rightarrow>
             if length (rn_samples front) \<le> overflow then evict_runs capacity (stored - length (rn_samples front)) rest
             else evict_runs capacity (stored - overflow)
               (front\<lparr>rn_start := rn_start front + of_nat overflow, rn_samples := drop overflow (rn_samples front)\<rparr> # rest)))"
  by pat_completeness auto
termination
  by (relation "measures [\<lambda>(_, _, runs). length runs, \<lambda>(_, stored, _). stored]") auto

declare evict_runs.simps [simp del]

definition evict :: "PcmRing \<Rightarrow> PcmRing option" where
  "evict r =
     (case evict_runs (pr_capacity r) (pr_stored r) (pr_runs r) of
        None \<Rightarrow> None
      | Some (stored, runs) \<Rightarrow> Some (r\<lparr>pr_stored := stored, pr_runs := runs\<rparr>))"

text \<open>What is left of a push after the overlap with the last run is trimmed: the count, the index, the samples.\<close>

definition trim_overlap :: "u64 \<Rightarrow> i16 list \<Rightarrow> pcm_run list \<Rightarrow> nat \<times> u64 \<times> i16 list" where
  "trim_overlap start pcm runs =
     (if runs \<noteq> [] \<and> start < run_end (last runs) then
        let trimmed = min (unat (run_end (last runs) - start)) (length pcm)
        in (trimmed, start + of_nat trimmed, drop trimmed pcm)
      else (0, start, pcm))"

definition append_run :: "u64 \<Rightarrow> i16 list \<Rightarrow> pcm_run list \<Rightarrow> pcm_run list" where
  "append_run start pcm runs =
     (if runs \<noteq> [] \<and> start = run_end (last runs)
      then butlast runs @ [(last runs)\<lparr>rn_samples := rn_samples (last runs) @ pcm\<rparr>]
      else runs @ [\<lparr>rn_start = start, rn_samples = pcm\<rparr>])"

definition pcm_push :: "u64 \<Rightarrow> i16 list \<Rightarrow> PcmRing \<Rightarrow> (nat \<times> PcmRing) option" where
  "pcm_push first_sample_index pcm r =
     (if pcm = [] then Some (0, r)
      else
        let (trimmed, start, pcm1) = trim_overlap first_sample_index pcm (pr_runs r) in
        if pcm1 = [] then Some (trimmed, r)
        else map_option (Pair trimmed)
          (evict (r\<lparr>pr_runs := append_run start pcm1 (pr_runs r), pr_stored := pr_stored r + length pcm1\<rparr>)))"

definition carve_run :: "u64 \<Rightarrow> u64 \<Rightarrow> i16 list \<Rightarrow> pcm_run \<Rightarrow> i16 list" where
  "carve_run start end_ix out run =
     (let lo = max (rn_start run) start; hi = min (run_end run) end_ix in
      if hi \<le> lo then out
      else
        let dst = unat (lo - start); src = unat (lo - rn_start run); n = unat (hi - lo)
        in splice_at out dst (take n (drop src (rn_samples run))))"

definition carve :: "u64 \<Rightarrow> u64 \<Rightarrow> PcmRing \<Rightarrow> i16 list" where
  "carve start end_ix r =
     (if end_ix \<le> start then []
      else foldl (carve_run start end_ix) (replicate (unat (end_ix - start)) 0) (pr_runs r))"

section \<open>The samples held\<close>

text \<open>A run as pairs of index and sample, and the pairs of a whole ring, oldest first.\<close>

definition at_index :: "nat \<Rightarrow> i16 list \<Rightarrow> (nat \<times> i16) list" where
  "at_index i pcm = zip [i..<i + length pcm] pcm"

definition run_hi :: "pcm_run \<Rightarrow> nat" where
  "run_hi r = unat (rn_start r) + length (rn_samples r)"

definition run_pairs :: "pcm_run \<Rightarrow> (nat \<times> i16) list" where
  "run_pairs r = at_index (unat (rn_start r)) (rn_samples r)"

definition runs_pairs :: "pcm_run list \<Rightarrow> (nat \<times> i16) list" where
  "runs_pairs runs = concat (map run_pairs runs)"

definition held_samples :: "PcmRing \<Rightarrow> (nat \<times> i16) list" where
  "held_samples r = runs_pairs (pr_runs r)"

definition runs_ok :: "pcm_run list \<Rightarrow> bool" where
  "runs_ok runs \<longleftrightarrow> (\<forall>r \<in> set runs. rn_samples r \<noteq> [] \<and> run_hi r < 2 ^ 64) \<and>
     sorted_wrt (\<lambda>a b. run_hi a < unat (rn_start b)) runs"

definition pcm_ring_ok :: "PcmRing \<Rightarrow> bool" where
  "pcm_ring_ok r \<longleftrightarrow> runs_ok (pr_runs r) \<and> pr_stored r = length (held_samples r) \<and> pr_stored r \<le> pr_capacity r"

text \<open>The reference: an association list by index that keeps its newest entries.\<close>

definition newest :: "nat \<Rightarrow> 'a list \<Rightarrow> 'a list" where
  "newest n xs = drop (length xs - n) xs"

definition fresh_samples :: "(nat \<times> i16) list \<Rightarrow> nat \<Rightarrow> i16 list \<Rightarrow> (nat \<times> i16) list" where
  "fresh_samples held i pcm = filter (\<lambda>(j, _). held = [] \<or> fst (last held) < j) (at_index i pcm)"

definition sample_or_silence :: "(nat \<times> i16) list \<Rightarrow> nat \<Rightarrow> i16" where
  "sample_or_silence held i = (case map_of held i of None \<Rightarrow> 0 | Some x \<Rightarrow> x)"

lemma length_at_index [simp]: "length (at_index i pcm) = length pcm"
  by (simp add: at_index_def)

lemma at_index_append: "at_index i (xs @ ys) = at_index i xs @ at_index (i + length xs) ys"
proof -
  have "[i..<i + length (xs @ ys)] = [i..<i + length xs] @ [i + length xs..<i + length xs + length ys]"
    using upt_add_eq_append [of i "i + length xs" "length ys"] by (simp add: add.assoc)
  then show ?thesis by (simp add: at_index_def)
qed

lemma drop_at_index: "drop k (at_index i pcm) = at_index (i + k) (drop k pcm)"
proof (cases "k \<le> length pcm")
  case False
  then show ?thesis by (simp add: at_index_def)
qed (simp add: at_index_def drop_zip)

lemma fst_set_at_index: "p \<in> set (at_index i pcm) \<Longrightarrow> i \<le> fst p \<and> fst p < i + length pcm"
  by (cases p) (auto simp: at_index_def dest: set_zip_leftD)

lemma map_of_at_index: "map_of (at_index i pcm) j = (if i \<le> j \<and> j < i + length pcm then Some (pcm ! (j - i)) else None)"
proof (induction pcm arbitrary: i)
  case (Cons x xs)
  have "at_index i (x # xs) = (i, x) # at_index (Suc i) xs" by (simp add: at_index_def upt_rec)
  then show ?case using Cons [of "Suc i"] by (auto simp: nth_Cons')
qed (simp add: at_index_def)

lemma run_end_nat: "run_hi r < 2 ^ 64 \<Longrightarrow> unat (run_end r) = run_hi r"
  unfolding run_end_def run_hi_def by (simp add: unat_word_ariths unat_of_nat)

lemma length_run_pairs [simp]: "length (run_pairs r) = length (rn_samples r)"
  by (simp add: run_pairs_def)

lemma runs_pairs_simps [simp]: "runs_pairs [] = []" "runs_pairs (r # rs) = run_pairs r @ runs_pairs rs"
  "runs_pairs (rs @ qs) = runs_pairs rs @ runs_pairs qs"
  by (simp_all add: runs_pairs_def)

lemma runs_ok_simps: "runs_ok [] \<longleftrightarrow> True"
  "runs_ok (r # rs) \<longleftrightarrow> rn_samples r \<noteq> [] \<and> run_hi r < 2 ^ 64 \<and> (\<forall>q \<in> set rs. run_hi r < unat (rn_start q)) \<and> runs_ok rs"
  by (auto simp: runs_ok_def)

lemma runs_ok_snoc: "runs_ok (rs @ [r]) \<longleftrightarrow>
    runs_ok rs \<and> rn_samples r \<noteq> [] \<and> run_hi r < 2 ^ 64 \<and> (\<forall>q \<in> set rs. run_hi q < unat (rn_start r))"
  by (auto simp: runs_ok_def sorted_wrt_append)

lemma trimmed_run:
  assumes "run_hi r < 2 ^ 64" "k < length (rn_samples r)"
  defines "r' \<equiv> r\<lparr>rn_start := rn_start r + of_nat k, rn_samples := drop k (rn_samples r)\<rparr>"
  shows "run_pairs r' = drop k (run_pairs r)" "run_hi r' = run_hi r" "rn_samples r' \<noteq> []"
proof -
  have "unat (rn_start r + of_nat k) = unat (rn_start r) + k"
    using assms(1,2) by (simp add: run_hi_def unat_word_ariths unat_of_nat)
  then show "run_pairs r' = drop k (run_pairs r)" "run_hi r' = run_hi r" "rn_samples r' \<noteq> []"
    using assms(2) by (simp_all add: r'_def run_pairs_def run_hi_def drop_at_index)
qed

lemma evict_runs_newest:
  assumes "runs_ok runs" "stored = length (runs_pairs runs)"
  shows "\<exists>runs'. evict_runs capacity stored runs = Some (length (runs_pairs runs'), runs') \<and> runs_ok runs' \<and>
    runs_pairs runs' = newest capacity (runs_pairs runs)"
  using assms
proof (induction capacity stored runs rule: evict_runs.induct)
  case (1 capacity stored runs)
  show ?case
  proof (cases "stored \<le> capacity")
    case True
    then show ?thesis using 1(3,4) by (simp add: evict_runs.simps [of capacity] newest_def)
  next
    case False
    then obtain front rest where runs: "runs = front # rest" using 1(4) by (cases runs) auto
    let ?o = "stored - capacity" and ?n = "length (rn_samples front)"
    let ?front = "front\<lparr>rn_start := rn_start front + of_nat ?o, rn_samples := drop ?o (rn_samples front)\<rparr>"
    have ok: "runs_ok rest" "run_hi front < 2 ^ 64" "\<forall>q \<in> set rest. run_hi front < unat (rn_start q)"
      and st: "stored = ?n + length (runs_pairs rest)"
      using 1(3,4) unfolding runs by (auto simp: runs_ok_simps)
    show ?thesis
    proof (cases "?n \<le> ?o")
      case True
      from 1(1) [OF False refl runs True ok(1)] obtain runs' where R:
        "evict_runs capacity (stored - ?n) rest = Some (length (runs_pairs runs'), runs')" "runs_ok runs'"
        "runs_pairs runs' = newest capacity (runs_pairs rest)" using st by auto
      have "evict_runs capacity stored runs = Some (length (runs_pairs runs'), runs')"
        using False True R(1) by (simp add: runs evict_runs.simps [of capacity stored] Let_def)
      moreover have "runs_pairs runs' = newest capacity (runs_pairs runs)"
        using R(3) st True by (simp add: runs newest_def)
      ultimately show ?thesis using R(2) by blast
    next
      case short: False
      then have "?o < ?n" by simp
      note T = trimmed_run [OF ok(2) this]
      have e: "evict_runs capacity stored runs = Some (capacity, ?front # rest)"
        using False short by (simp add: runs evict_runs.simps [of capacity stored] evict_runs.simps [of capacity capacity] Let_def)
      have "runs_ok (?front # rest)" using ok T by (simp add: runs_ok_simps)
      moreover have p: "runs_pairs (?front # rest) = newest capacity (runs_pairs runs)"
        using T(1) st short by (simp add: runs newest_def)
      moreover have "length (runs_pairs (?front # rest)) = capacity" using st False unfolding p by (simp add: runs newest_def)
      ultimately show ?thesis using e by (intro exI [of _ "?front # rest"] conjI) simp_all
    qed
  qed
qed


lemma last_pair:
  assumes "runs_ok runs" "runs \<noteq> []"
  shows "runs_pairs runs \<noteq> []" "Suc (fst (last (runs_pairs runs))) = run_hi (last runs)"
proof -
  obtain rs r where runs: "runs = rs @ [r]" using assms(2) by (metis rev_exhaust)
  have ne: "rn_samples r \<noteq> []" using assms(1) unfolding runs by (simp add: runs_ok_snoc)
  then obtain xs x where x: "rn_samples r = xs @ [x]" by (metis rev_exhaust)
  have "run_pairs r = at_index (unat (rn_start r)) xs @ [(unat (rn_start r) + length xs, x)]"
    unfolding run_pairs_def x at_index_append by (simp add: at_index_def)
  then show "runs_pairs runs \<noteq> []" "Suc (fst (last (runs_pairs runs))) = run_hi (last runs)"
    by (simp_all add: runs run_hi_def x)
qed

lemma run_hi_le_last:
  assumes "runs_ok runs" "q \<in> set runs"
  shows "run_hi q \<le> run_hi (last runs)"
proof -
  obtain rs r where runs: "runs = rs @ [r]" using assms(2) by (metis rev_exhaust empty_iff list.set(1))
  show ?thesis using assms unfolding runs by (auto simp: runs_ok_snoc run_hi_def dest!: bspec)
qed

lemma filter_at_index: "filter (\<lambda>(j, _). e \<le> j) (at_index i pcm) = drop (e - i) (at_index i pcm)"
proof (induction pcm arbitrary: i)
  case (Cons x xs)
  have c: "at_index i (x # xs) = (i, x) # at_index (Suc i) xs" by (simp add: at_index_def upt_rec)
  show ?case
  proof (cases "e \<le> i")
    case True
    then have "\<forall>p \<in> set (at_index i (x # xs)). e \<le> fst p" by (auto dest!: fst_set_at_index)
    then show ?thesis using True by (auto simp: case_prod_beta filter_id_conv)
  next
    case False
    then show ?thesis using Cons [of "Suc i"] unfolding c by (simp add: Suc_diff_Suc [symmetric] drop_Cons')
  qed
qed (simp add: at_index_def)

text \<open>The trim of a push, with its three results.\<close>

lemma trim_overlap_fresh:
  assumes ok: "runs_ok runs" and idx: "unat i + length pcm < 2 ^ 64" and t: "trim_overlap i pcm runs = (trimmed, start, pcm1)"
  shows "fresh_samples (runs_pairs runs) (unat i) pcm = at_index (unat start) pcm1" "trimmed = length pcm - length pcm1"
    "unat start + length pcm1 = unat i + length pcm" "runs \<noteq> [] \<and> pcm1 \<noteq> [] \<Longrightarrow> run_hi (last runs) \<le> unat start"
proof -
  let ?e = "if runs = [] then 0 else run_hi (last runs)"
  have fresh: "fresh_samples (runs_pairs runs) (unat i) pcm = drop (?e - unat i) (at_index (unat i) pcm)"
  proof (cases "runs = []")
    case True
    then show ?thesis by (simp add: fresh_samples_def case_prod_beta)
  next
    case False
    have "(\<lambda>(j, _ :: i16). runs_pairs runs = [] \<or> fst (last (runs_pairs runs)) < j) = (\<lambda>(j, _). run_hi (last runs) \<le> j)"
      using last_pair [OF ok False] by (auto simp: fun_eq_iff)
    then show ?thesis using False filter_at_index [of "run_hi (last runs)"] by (simp add: fresh_samples_def)
  qed
  have all: "fresh_samples (runs_pairs runs) (unat i) pcm = at_index (unat start) pcm1 \<and> trimmed = length pcm - length pcm1 \<and>
      unat start + length pcm1 = unat i + length pcm \<and> (runs \<noteq> [] \<and> pcm1 \<noteq> [] \<longrightarrow> run_hi (last runs) \<le> unat start)"
  proof (cases "runs \<noteq> [] \<and> i < run_end (last runs)")
    case True
    have hi: "unat (run_end (last runs)) = run_hi (last runs)" using ok True run_end_nat [of "last runs"] by (auto simp: runs_ok_def)
    have lt: "unat i < run_hi (last runs)" using True hi by (simp add: word_less_nat_alt)
    have d: "unat (run_end (last runs) - i) = run_hi (last runs) - unat i" using True hi by (simp add: unat_sub word_le_nat_alt word_less_nat_alt)
    let ?k = "min (run_hi (last runs) - unat i) (length pcm)"
    have t': "trimmed = ?k" "start = i + of_nat ?k" "pcm1 = drop ?k pcm" using t True d by (auto simp: trim_overlap_def Let_def)
    have s: "unat start = unat i + ?k" using idx unfolding t'(2) by (simp add: unat_word_ariths unat_of_nat)
    have "drop ?k (at_index (unat i) pcm) = drop (run_hi (last runs) - unat i) (at_index (unat i) pcm)"
      by (simp add: min_def)
    then show ?thesis using True fresh s lt unfolding t' by (auto simp: drop_at_index)
  next
    case False
    then have t': "trimmed = 0" "start = i" "pcm1 = pcm" using t by (auto simp: trim_overlap_def)
    have "runs \<noteq> [] \<Longrightarrow> run_hi (last runs) \<le> unat i"
      using False ok run_end_nat [of "last runs"] by (auto simp: runs_ok_def word_less_nat_alt)
    then show ?thesis using fresh t' by auto
  qed
  then show "fresh_samples (runs_pairs runs) (unat i) pcm = at_index (unat start) pcm1" "trimmed = length pcm - length pcm1"
    "unat start + length pcm1 = unat i + length pcm" "runs \<noteq> [] \<and> pcm1 \<noteq> [] \<Longrightarrow> run_hi (last runs) \<le> unat start" by auto
qed

lemma append_run_pairs:
  assumes ok: "runs_ok runs" and idx: "unat start + length pcm < 2 ^ 64" and pcm: "pcm \<noteq> []"
    and beyond: "runs \<noteq> [] \<Longrightarrow> run_hi (last runs) \<le> unat start"
  shows "runs_ok (append_run start pcm runs) \<and> runs_pairs (append_run start pcm runs) = runs_pairs runs @ at_index (unat start) pcm"
proof (cases "runs \<noteq> [] \<and> start = run_end (last runs)")
  case True
  obtain rs r where runs: "runs = rs @ [r]" using True by (metis rev_exhaust)
  have r: "run_hi r < 2 ^ 64" using ok unfolding runs by (simp add: runs_ok_snoc)
  have s: "unat start = run_hi r" using True run_end_nat [OF r] by (simp add: runs)
  show ?thesis
    using ok True idx pcm s unfolding append_run_def runs
    by (simp add: runs_ok_snoc run_pairs_def at_index_append run_hi_def)
next
  case False
  have "run_hi q < unat start" if q: "q \<in> set runs" for q
  proof -
    have ne: "runs \<noteq> []" using q by auto
    have "unat start \<noteq> run_hi (last runs)"
      using False ne ok run_end_nat [of "last runs"] by (auto simp: runs_ok_def word_unat_eq_iff)
    then show ?thesis using beyond [OF ne] run_hi_le_last [OF ok q] by linarith
  qed
  then show ?thesis
    using False ok idx pcm unfolding append_run_def by (auto simp: runs_ok_snoc run_pairs_def run_hi_def)
qed

lemma pcm_push_refines:
  assumes ok: "pcm_ring_ok r" and idx: "unat i + length pcm < 2 ^ 64"
  shows "\<exists>r'. pcm_push i pcm r = Some (length pcm - length (fresh_samples (held_samples r) (unat i) pcm), r') \<and>
    pcm_ring_ok r' \<and> pr_capacity r' = pr_capacity r \<and>
    held_samples r' = newest (pr_capacity r) (held_samples r @ fresh_samples (held_samples r) (unat i) pcm)"
proof -
  have rok: "runs_ok (pr_runs r)" "pr_stored r = length (held_samples r)" "pr_stored r \<le> pr_capacity r"
    using ok by (auto simp: pcm_ring_ok_def)
  obtain trimmed start pcm1 where t: "trim_overlap i pcm (pr_runs r) = (trimmed, start, pcm1)" by (metis prod_cases3)
  note T = trim_overlap_fresh [OF rok(1) idx t]
  show ?thesis
  proof (cases "pcm1 = []")
    case True
    then have "pcm_push i pcm r = Some (length pcm, r)" using t T(2) by (simp add: pcm_push_def)
    then show ?thesis using ok True T(1) rok by (simp add: held_samples_def newest_def at_index_def)
  next
    case False
    let ?runs = "append_run start pcm1 (pr_runs r)"
    have "unat start + length pcm1 < 2 ^ 64" using T(3) idx by simp
    from append_run_pairs [OF rok(1) this False] T(4) False
    have A: "runs_ok ?runs" "runs_pairs ?runs = runs_pairs (pr_runs r) @ at_index (unat start) pcm1" by auto
    have "pr_stored r + length pcm1 = length (runs_pairs ?runs)" using A(2) rok(2) by (simp add: held_samples_def)
    from evict_runs_newest [OF A(1) this, of "pr_capacity r"] obtain runs' where E:
      "evict_runs (pr_capacity r) (pr_stored r + length pcm1) ?runs = Some (length (runs_pairs runs'), runs')" "runs_ok runs'"
      "runs_pairs runs' = newest (pr_capacity r) (runs_pairs ?runs)" by blast
    have "pcm \<noteq> []" using False t by (auto simp: trim_overlap_def Let_def split: if_splits)
    then have "pcm_push i pcm r = Some (trimmed, r\<lparr>pr_runs := runs', pr_stored := length (runs_pairs runs')\<rparr>)"
      using t False E(1) by (simp add: pcm_push_def evict_def)
    then show ?thesis
      using E A T(1,2) by (simp add: held_samples_def pcm_ring_ok_def newest_def)
  qed
qed

section \<open>Carving\<close>

lemma runs_pairs_None: "(\<And>q. q \<in> set rs \<Longrightarrow> run_hi q \<le> i) \<Longrightarrow> map_of (runs_pairs rs) i = None"
proof (induction rs)
  case (Cons r rs)
  have "run_hi r \<le> i" "map_of (runs_pairs rs) i = None" using Cons by auto
  then show ?case by (auto simp: run_pairs_def map_of_at_index run_hi_def map_add_def)
qed simp

lemma carve_run_reads:
  assumes ok: "runs_ok (rs @ [r])" and ab: "a < b"
    and out: "out = map (sample_or_silence (runs_pairs rs)) [unat a..<unat b]"
  shows "carve_run a b out r = map (sample_or_silence (runs_pairs (rs @ [r]))) [unat a..<unat b]"
proof -
  have hi: "unat (run_end r) = run_hi r" and before: "\<And>q. q \<in> set rs \<Longrightarrow> run_hi q < unat (rn_start r)"
    using ok run_end_nat [of r] by (auto simp: runs_ok_snoc)
  define l where "l = max (unat (rn_start r)) (unat a)"
  define h where "h = min (run_hi r) (unat b)"
  have lo: "unat (max (rn_start r) a) = l" "unat (min (run_end r) b) = h"
    using hi by (simp_all add: l_def h_def max_def min_def word_le_nat_alt)
  have new: "sample_or_silence (runs_pairs rs @ run_pairs r) i =
      (if unat (rn_start r) \<le> i \<and> i < run_hi r then rn_samples r ! (i - unat (rn_start r)) else sample_or_silence (runs_pairs rs) i)" for i
  proof -
    have "unat (rn_start r) \<le> i \<Longrightarrow> map_of (runs_pairs rs) i = None" using runs_pairs_None [of rs i] before by (meson le_trans less_imp_le)
    then show ?thesis by (auto simp: sample_or_silence_def run_pairs_def map_of_at_index map_add_def run_hi_def split: option.splits)
  qed
  show ?thesis
  proof (cases "h \<le> l")
    case True
    then have "carve_run a b out r = out" using lo by (simp add: carve_run_def word_le_nat_alt)
    moreover have "\<not> (unat (rn_start r) \<le> i \<and> i < run_hi r)" if "i \<in> set [unat a..<unat b]" for i
      using that True by (auto simp: l_def h_def)
    ultimately show ?thesis unfolding out by (auto simp: new)
  next
    case False
    have le: "max (rn_start r) a \<le> min (run_end r) b" unfolding word_le_nat_alt lo using False by simp
    have n: "unat (max (rn_start r) a - a) = l - unat a" "unat (max (rn_start r) a - rn_start r) = l - unat (rn_start r)"
      "unat (min (run_end r) b - max (rn_start r) a) = h - l"
      using lo unat_sub [OF le] unat_sub [OF max.cobounded2 [of a "rn_start r"]] unat_sub [OF max.cobounded1 [of "rn_start r" a]] by simp_all
    have L: "unat a \<le> l" "unat (rn_start r) \<le> l" "l = unat (rn_start r) \<or> l = unat a" by (auto simp: l_def max_def)
    have H: "h \<le> run_hi r" "h \<le> unat b" "h = run_hi r \<or> h = unat b" by (auto simp: h_def min_def)
    let ?xs = "take (h - l) (drop (l - unat (rn_start r)) (rn_samples r))"
    have c: "carve_run a b out r = splice_at out (l - unat a) ?xs"
      using False lo by (simp add: carve_run_def Let_def n word_le_nat_alt)
    have len: "length ?xs = h - l" "length out = unat b - unat a" "l - unat a + (h - l) \<le> unat b - unat a"
      using False unfolding out by (auto simp: l_def h_def run_hi_def)
    show ?thesis
    proof (rule nth_equalityI)
      show "length (carve_run a b out r) = length (map (sample_or_silence (runs_pairs (rs @ [r]))) [unat a..<unat b])"
        unfolding c using len by simp
      fix k
      assume "k < length (carve_run a b out r)"
      then have k: "k < unat b - unat a" unfolding c using len by simp
      have "splice_at out (l - unat a) ?xs ! k =
          (if l - unat a \<le> k \<and> k < l - unat a + (h - l) then ?xs ! (k - (l - unat a)) else out ! k)"
        using len k by (subst nth_splice_at) auto
      moreover have "(l - unat a \<le> k \<and> k < l - unat a + (h - l)) = (unat (rn_start r) \<le> unat a + k \<and> unat a + k < run_hi r)"
        using k L H False by linarith
      moreover have "?xs ! (k - (l - unat a)) = rn_samples r ! (unat a + k - unat (rn_start r))"
        if "l - unat a \<le> k" "k < l - unat a + (h - l)"
      proof -
        have "k - (l - unat a) < h - l" "l - unat (rn_start r) + (k - (l - unat a)) = unat a + k - unat (rn_start r)"
          using that L by linarith+
        moreover have "l - unat (rn_start r) \<le> length (rn_samples r)" using H(1) L(2) False unfolding run_hi_def by linarith
        ultimately show ?thesis by (simp add: add.commute)
      qed
      moreover have "map f [unat a..<unat b] ! k = f (unat a + k)" for f :: "nat \<Rightarrow> i16" using k by simp
      ultimately show "carve_run a b out r ! k = map (sample_or_silence (runs_pairs (rs @ [r]))) [unat a..<unat b] ! k"
        unfolding c unfolding out runs_pairs_simps append_Nil2 by (simp only: new split: if_split) metis
    qed
  qed
qed

lemma carve_reads:
  assumes "runs_ok (pr_runs r)"
  shows "carve a b r = map (sample_or_silence (held_samples r)) [unat a..<unat b]"
proof (cases "b \<le> a")
  case False
  then have ab: "a < b" by simp
  let ?out = "replicate (unat (b - a)) 0"
  have "foldl (carve_run a b) ?out rs = map (sample_or_silence (runs_pairs rs)) [unat a..<unat b]" if "runs_ok rs" for rs
    using that
  proof (induction rs rule: rev_induct)
    case Nil
    show ?case using ab by (simp add: sample_or_silence_def map_replicate_trivial unat_sub word_le_nat_alt word_less_nat_alt map_replicate_const)
  next
    case (snoc r rs)
    then show ?case using carve_run_reads [OF snoc(2) ab refl] by (simp add: runs_ok_snoc)
  qed
  then show ?thesis using assms False by (simp add: carve_def held_samples_def)
qed (simp add: carve_def word_le_nat_alt)

lemma PcmRing_new_ok: "pcm_ring_ok (PcmRing_new capacity)" "held_samples (PcmRing_new capacity) = []"
  by (simp_all add: pcm_ring_ok_def PcmRing_new_def held_samples_def runs_ok_def)

lemma pcm_reset_ok: "pcm_ring_ok (pcm_reset r)" "held_samples (pcm_reset r) = []"
  by (simp_all add: pcm_ring_ok_def pcm_reset_def held_samples_def runs_ok_def)

section \<open>A stream of pushes\<close>

fun pcm_pushes :: "(u64 \<times> i16 list) list \<Rightarrow> PcmRing \<Rightarrow> PcmRing option" where
  "pcm_pushes [] r = Some r"
| "pcm_pushes ((i, pcm) # ps) r = (case pcm_push i pcm r of None \<Rightarrow> None | Some (_, r1) \<Rightarrow> pcm_pushes ps r1)"

fun ref_pushes :: "nat \<Rightarrow> (u64 \<times> i16 list) list \<Rightarrow> (nat \<times> i16) list \<Rightarrow> (nat \<times> i16) list" where
  "ref_pushes capacity [] held = held"
| "ref_pushes capacity ((i, pcm) # ps) held =
     ref_pushes capacity ps (newest capacity (held @ fresh_samples held (unat i) pcm))"

lemma pcm_pushes_refine:
  assumes "pcm_ring_ok r" "\<forall>(i, pcm) \<in> set ps. unat i + length pcm < 2 ^ 64"
  shows "\<exists>r'. pcm_pushes ps r = Some r' \<and> pcm_ring_ok r' \<and> pr_capacity r' = pr_capacity r \<and>
    held_samples r' = ref_pushes (pr_capacity r) ps (held_samples r)"
  using assms
proof (induction ps arbitrary: r)
  case (Cons p ps)
  obtain i pcm where p: "p = (i, pcm)" by fastforce
  have "unat i + length pcm < 2 ^ 64" using Cons.prems(2) by (simp add: p)
  from pcm_push_refines [OF Cons.prems(1) this] obtain n r1 where P: "pcm_push i pcm r = Some (n, r1)" "pcm_ring_ok r1"
    "pr_capacity r1 = pr_capacity r" "held_samples r1 = newest (pr_capacity r) (held_samples r @ fresh_samples (held_samples r) (unat i) pcm)"
    by blast
  from Cons.IH [OF P(2)] Cons.prems(2) show ?case by (simp add: p P)
qed simp

text \<open>
  Pushes that leave no hole: each starts no later than the end of what was pushed before, from index \<open>b\<close> on, and
  each is a stretch of \<open>H\<close>.
\<close>

fun gapless :: "i16 list \<Rightarrow> nat \<Rightarrow> nat \<Rightarrow> (u64 \<times> i16 list) list \<Rightarrow> bool" where
  "gapless H b e [] \<longleftrightarrow> e \<le> length H"
| "gapless H b e ((i, pcm) # ps) \<longleftrightarrow> b \<le> unat i \<and> unat i \<le> e \<and> unat i + length pcm \<le> length H \<and>
     pcm = take (length pcm) (drop (unat i) H) \<and> gapless H b (max e (unat i + length pcm)) ps"

fun pushed_end :: "nat \<Rightarrow> (u64 \<times> i16 list) list \<Rightarrow> nat" where
  "pushed_end e [] = e"
| "pushed_end e ((i, pcm) # ps) = pushed_end (max e (unat i + length pcm)) ps"

definition slice :: "'a list \<Rightarrow> nat \<Rightarrow> nat \<Rightarrow> 'a list" where
  "slice H s e = take (e - s) (drop s H)"

lemma slice_append: "s \<le> m \<Longrightarrow> m \<le> e \<Longrightarrow> slice H s m @ slice H m e = slice H s e"
proof -
  assume "s \<le> m" "m \<le> e"
  then have "take (e - s) (drop s H) = take (m - s) (drop s H) @ take (e - m) (drop (m - s) (drop s H))"
    using take_add [of "m - s" "e - m" "drop s H"] by simp
  then show ?thesis using \<open>s \<le> m\<close> by (simp add: slice_def)
qed

lemma length_slice: "e \<le> length H \<Longrightarrow> length (slice H s e) = e - s"
  by (simp add: slice_def)

lemma drop_slice: "drop k (slice H s e) = slice H (s + k) e"
  by (simp add: slice_def drop_take add.commute)

lemma fresh_after_slice:
  assumes "s < e" "e \<le> length H" "i \<le> e" "i + n \<le> length H"
  shows "fresh_samples (at_index s (slice H s e)) i (slice H i (i + n)) = at_index e (slice H e (max e (i + n)))"
proof -
  let ?held = "at_index s (slice H s e)"
  have len: "length ?held = e - s" using assms(2) by (simp add: length_slice)
  then have ne: "?held \<noteq> []" using assms(1) by (metis length_0_conv zero_less_diff less_numeral_extra(3))
  have "?held = at_index s (slice H s (e - 1)) @ at_index (e - 1) (slice H (e - 1) e)"
    using at_index_append [of s "slice H s (e - 1)" "slice H (e - 1) e"] slice_append [of s "e - 1" e H] assms(1,2)
    by (simp add: length_slice)
  moreover have "at_index (e - 1) (slice H (e - 1) e) = [(e - 1, H ! (e - 1))]"
    using assms(1,2) by (simp add: slice_def at_index_def take_Suc_conv_app_nth hd_drop_conv_nth take_Suc upt_rec)
  ultimately have "fst (last ?held) = e - 1" by simp
  then have "(\<lambda>(j, _ :: i16). ?held = [] \<or> fst (last ?held) < j) = (\<lambda>(j, _). e \<le> j)"
    using ne assms(1) by (auto simp: fun_eq_iff)
  then have "fresh_samples ?held i (slice H i (i + n)) = drop (e - i) (at_index i (slice H i (i + n)))"
    by (simp add: fresh_samples_def filter_at_index)
  moreover have "drop (e - i) (slice H i (i + n)) = slice H e (i + n)" unfolding drop_slice using assms(3) by simp
  moreover have "slice H e (i + n) = slice H e (max e (i + n))" by (simp add: slice_def max_def)
  ultimately show ?thesis using assms(3) by (simp add: drop_at_index)
qed

lemma ref_pushes_gapless:
  assumes "gapless H b e ps" "0 < capacity" "b \<le> e" "e \<le> length H" "s = max b (e - capacity)" "held = at_index s (slice H s e)"
  shows "ref_pushes capacity ps held =
    at_index (max b (pushed_end e ps - capacity)) (slice H (max b (pushed_end e ps - capacity)) (pushed_end e ps)) \<and>
    pushed_end e ps \<le> length H \<and> e \<le> pushed_end e ps"
  using assms
proof (induction ps arbitrary: e s held)
  case (Cons p ps)
  obtain i pcm where p: "p = (i, pcm)" by fastforce
  let ?n = "length pcm" and ?e = "max e (unat i + length pcm)"
  have g: "b \<le> unat i" "unat i \<le> e" "unat i + ?n \<le> length H" "pcm = slice H (unat i) (unat i + ?n)" "gapless H b ?e ps"
    using Cons.prems(1) by (auto simp: p slice_def)
  let ?s = "max b (?e - capacity)"
  have all: "held @ fresh_samples held (unat i) pcm = at_index s (slice H s ?e)"
  proof (cases "s < e")
    case True
    have "held @ fresh_samples held (unat i) pcm = at_index s (slice H s e) @ at_index e (slice H e ?e)"
      using fresh_after_slice [OF True Cons.prems(4) g(2,3)] g(4) Cons.prems(6) by simp
    also have "\<dots> = at_index s (slice H s e @ slice H e ?e)"
      using at_index_append [of s "slice H s e" "slice H e ?e"] True Cons.prems(4) by (simp add: length_slice)
    also have "\<dots> = at_index s (slice H s ?e)" using slice_append [of s e ?e H] True by simp
    finally show ?thesis .
  next
    case False
    then have "s = b" "e = b" using Cons.prems(2,3,5) by auto
    then have "unat i = s" "held = []" using g(1,2) Cons.prems(6) by (auto simp: slice_def at_index_def)
    moreover have "?e = unat i + ?n" using \<open>e = b\<close> g(1) by simp
    ultimately show ?thesis using g(4) by (simp add: fresh_samples_def case_prod_beta)
  qed
  have "newest capacity (at_index s (slice H s ?e)) = at_index ?s (slice H ?s ?e)"
  proof -
    have "length (slice H s ?e) = ?e - s" using g(3) Cons.prems(4) by (simp add: length_slice)
    moreover have "s + (?e - s - capacity) = ?s" using Cons.prems(3,5) by (auto simp: max_def)
    ultimately show ?thesis by (simp add: newest_def drop_at_index drop_slice)
  qed
  with all have h: "newest capacity (held @ fresh_samples held (unat i) pcm) = at_index ?s (slice H ?s ?e)" by simp
  have "b \<le> ?e" "?e \<le> length H" using g(3) Cons.prems(3,4) by auto
  from Cons.IH [OF g(5) Cons.prems(2) this refl refl] show ?case using h by (simp add: p)
qed simp

lemma carve_slice:
  assumes "s \<le> a" "z \<le> e" "e \<le> length H"
  shows "map (sample_or_silence (at_index s (slice H s e))) [a..<z] = slice H a z"
proof (rule nth_equalityI)
  fix k
  assume "k < length (map (sample_or_silence (at_index s (slice H s e))) [a..<z])"
  then have k: "a + k < z" by simp
  then have "sample_or_silence (at_index s (slice H s e)) (a + k) = slice H s e ! (a + k - s)"
    using assms by (simp add: sample_or_silence_def map_of_at_index length_slice)
  then show "map (sample_or_silence (at_index s (slice H s e))) [a..<z] ! k = slice H a z ! k"
    using k assms by (simp add: slice_def)
qed (use assms in \<open>simp add: length_slice\<close>)

end
