(* ===== verification/Endpointer.thy ===== *)
theory Endpointer
  imports Vad
begin

text \<open>
  The host endpointer (\<^verbatim>\<open>host/crates/speech-pipeline/src/listener/endpointer.rs\<close>): the state machine over
  speech probabilities that carves utterances out of the sample stream.

  A probability is an \<open>f32\<close> bit pattern compared as IEEE 754 does, sample indexes are \<open>u64\<close>, chunk counts \<open>u32\<close>.

  The lemmas: every call records at most one transition and returns at most one event, the two
  always follow the protocol of an abstract utterance, and on a stream of chunks the spans of the
  events lie in the stream and are bounded.
\<close>

section \<open>Data\<close>

datatype EndpointCause = CauseSoftEndpoint | CauseCapped | CauseDeviceVadRelease

datatype EndpointEvent = EvSoftEndpoint u64 u64 EndpointCause | EvSuperseded | EvUtteranceClosed

datatype EndpointState = StateIdle | StateSpeech | StateSoftEndpointed

datatype TransitionCause =
  TcOnset | TcSoftEndpoint | TcCapped | TcContinuation | TcClosed | TcDeviceRelease | TcDeviceReleaseClosed
| TcMissedOnsetCarve | TcReset | TcDispatched

record EndpointTransition =
  et_from :: EndpointState
  et_to :: EndpointState
  et_cause :: TransitionCause
  et_sample_offset :: u64

record EndpointerConfig =
  ec_onset_thresh :: f32
  ec_release_thresh :: f32
  ec_onset_chunks :: u32
  ec_soft_hangover_chunks :: u32
  ec_continuation_chunks :: u32
  ec_preroll_pad_samples :: u64
  ec_max_utterance_samples :: u64

definition CHUNK_SAMPLES :: u64 where "CHUNK_SAMPLES = 512"

text \<open>The defaults; \<open>0.5\<close> and \<open>0.35\<close> by their bits.\<close>

definition EndpointerConfig_default :: EndpointerConfig where
  "EndpointerConfig_default =
     \<lparr>ec_onset_thresh = 0x3F000000, ec_release_thresh = 0x3EB33333, ec_onset_chunks = 3, ec_soft_hangover_chunks = 8,
      ec_continuation_chunks = 31, ec_preroll_pad_samples = 8000, ec_max_utterance_samples = 60 * 16000\<rparr>"

datatype ep_state = EpIdle u32 u64 | EpSpeech u64 u64 u32 | EpSoftEndpointed u64 u32

fun ep_label :: "ep_state \<Rightarrow> EndpointState" where
  "ep_label (EpIdle _ _) = StateIdle"
| "ep_label (EpSpeech _ _ _) = StateSpeech"
| "ep_label (EpSoftEndpointed _ _) = StateSoftEndpointed"

record Endpointer =
  ep_config :: EndpointerConfig
  ep_state :: ep_state
  ep_transitions :: "EndpointTransition list"

section \<open>Operations\<close>

definition f32_ge :: "f32 \<Rightarrow> f32 \<Rightarrow> bool" where
  "f32_ge x y \<longleftrightarrow> \<not> f32_is_nan x \<and> \<not> f32_is_nan y \<and> f32_order y \<le> f32_order x"

definition u64_saturating_sub :: "u64 \<Rightarrow> u64 \<Rightarrow> u64" where
  "u64_saturating_sub a b = (if b \<le> a then a - b else 0)"

definition Endpointer_new :: "EndpointerConfig \<Rightarrow> Endpointer" where
  "Endpointer_new config = \<lparr>ep_config = config, ep_state = EpIdle 0 0, ep_transitions = []\<rparr>"

definition ep_record :: "EndpointState \<Rightarrow> EndpointState \<Rightarrow> TransitionCause \<Rightarrow> u64 \<Rightarrow> Endpointer \<Rightarrow> Endpointer" where
  "ep_record from_st to_st cause sample_offset ep =
     ep\<lparr>ep_transitions := ep_transitions ep @
          [\<lparr>et_from = from_st, et_to = to_st, et_cause = cause, et_sample_offset = sample_offset\<rparr>]\<rparr>"

definition ep_to_idle :: "TransitionCause \<Rightarrow> u64 \<Rightarrow> Endpointer \<Rightarrow> Endpointer" where
  "ep_to_idle cause at_sample ep =
     (let from_st = ep_label (ep_state ep); ep1 = ep\<lparr>ep_state := EpIdle 0 0\<rparr>
      in if from_st \<noteq> StateIdle then ep_record from_st StateIdle cause at_sample ep1 else ep1)"

definition ep_reset :: "u64 \<Rightarrow> Endpointer \<Rightarrow> Endpointer" where
  "ep_reset at_sample ep = ep_to_idle TcReset at_sample ep"

definition ep_close :: "u64 \<Rightarrow> Endpointer \<Rightarrow> Endpointer" where
  "ep_close at_sample ep = ep_to_idle TcDispatched at_sample ep"

definition drain_transitions :: "Endpointer \<Rightarrow> EndpointTransition list \<times> Endpointer" where
  "drain_transitions ep = (ep_transitions ep, ep\<lparr>ep_transitions := []\<rparr>)"

definition utterance_in_progress :: "Endpointer \<Rightarrow> bool" where
  "utterance_in_progress ep \<longleftrightarrow> ep_label (ep_state ep) \<noteq> StateIdle"

definition fully_idle :: "Endpointer \<Rightarrow> bool" where
  "fully_idle ep = (case ep_state ep of EpIdle onset_run _ \<Rightarrow> onset_run = 0 | _ \<Rightarrow> False)"

definition speech_start :: "Endpointer \<Rightarrow> u64 option" where
  "speech_start ep = (case ep_state ep of EpSpeech start _ _ \<Rightarrow> Some start | _ \<Rightarrow> None)"

definition push_idle :: "f32 \<Rightarrow> u64 \<Rightarrow> u32 \<Rightarrow> u64 \<Rightarrow> Endpointer \<Rightarrow> Endpointer" where
  "push_idle p chunk_end onset_run onset_start ep =
     (let cfg = ep_config ep; chunk_start = u64_saturating_sub chunk_end CHUNK_SAMPLES in
      if f32_ge p (ec_onset_thresh cfg) then
        let anchor = (if onset_run = 0 then chunk_start else onset_start); onset_run1 = onset_run + 1 in
        if ec_onset_chunks cfg \<le> onset_run1 then
          ep_record StateIdle StateSpeech TcOnset chunk_end
            (ep\<lparr>ep_state := EpSpeech (u64_saturating_sub anchor (ec_preroll_pad_samples cfg)) chunk_end 0\<rparr>)
        else ep\<lparr>ep_state := EpIdle onset_run1 anchor\<rparr>
      else ep\<lparr>ep_state := EpIdle 0 0\<rparr>)"

definition push_speech :: "f32 \<Rightarrow> u64 \<Rightarrow> u64 \<Rightarrow> u64 \<Rightarrow> u32 \<Rightarrow> Endpointer \<Rightarrow> EndpointEvent option \<times> Endpointer" where
  "push_speech p chunk_end start speech_end release_run ep =
     (let cfg = ep_config ep in
      if ec_max_utterance_samples cfg \<le> u64_saturating_sub chunk_end start then
        (Some (EvSoftEndpoint start chunk_end CauseCapped),
         ep_record StateSpeech StateIdle TcCapped chunk_end (ep\<lparr>ep_state := EpIdle 0 0\<rparr>))
      else if f32_gt (ec_release_thresh cfg) p then
        if ec_soft_hangover_chunks cfg \<le> release_run + 1 then
          (Some (EvSoftEndpoint start speech_end CauseSoftEndpoint),
           ep_record StateSpeech StateSoftEndpointed TcSoftEndpoint chunk_end (ep\<lparr>ep_state := EpSoftEndpointed start 0\<rparr>))
        else (None, ep\<lparr>ep_state := EpSpeech start speech_end (release_run + 1)\<rparr>)
      else (None, ep\<lparr>ep_state := EpSpeech start chunk_end 0\<rparr>))"

definition push_soft :: "f32 \<Rightarrow> u64 \<Rightarrow> u64 \<Rightarrow> u32 \<Rightarrow> Endpointer \<Rightarrow> EndpointEvent option \<times> Endpointer" where
  "push_soft p chunk_end start cont_run ep =
     (let cfg = ep_config ep in
      if f32_ge p (ec_onset_thresh cfg) then
        (Some EvSuperseded,
         ep_record StateSoftEndpointed StateSpeech TcContinuation chunk_end (ep\<lparr>ep_state := EpSpeech start chunk_end 0\<rparr>))
      else if ec_continuation_chunks cfg \<le> cont_run + 1 then
        (Some EvUtteranceClosed, ep_record StateSoftEndpointed StateIdle TcClosed chunk_end (ep\<lparr>ep_state := EpIdle 0 0\<rparr>))
      else (None, ep\<lparr>ep_state := EpSoftEndpointed start (cont_run + 1)\<rparr>))"

definition ep_push :: "f32 \<Rightarrow> u64 \<Rightarrow> Endpointer \<Rightarrow> EndpointEvent option \<times> Endpointer" where
  "ep_push p chunk_end ep =
     (case ep_state ep of
        EpIdle onset_run onset_start \<Rightarrow> (None, push_idle p chunk_end onset_run onset_start ep)
      | EpSpeech start speech_end release_run \<Rightarrow> push_speech p chunk_end start speech_end release_run ep
      | EpSoftEndpointed start cont_run \<Rightarrow> push_soft p chunk_end start cont_run ep)"

definition missed_onset :: "EndpointerConfig \<Rightarrow> u64 \<Rightarrow> u64 \<Rightarrow> u64 option" where
  "missed_onset cfg close_sample wake_end =
     (let start = max (u64_saturating_sub wake_end (ec_preroll_pad_samples cfg))
            (u64_saturating_sub close_sample (ec_max_utterance_samples cfg))
      in if start < close_sample then Some start else None)"

definition on_device_release :: "u64 \<Rightarrow> u64 option \<Rightarrow> Endpointer \<Rightarrow> EndpointEvent option \<times> Endpointer" where
  "on_device_release close_sample armed_wake_end ep =
     (let (event, ep1) =
        (case ep_state ep of
           EpSpeech start _ _ \<Rightarrow>
             (Some (EvSoftEndpoint start close_sample CauseDeviceVadRelease),
              ep_record StateSpeech StateIdle TcDeviceRelease close_sample ep)
         | EpSoftEndpointed _ _ \<Rightarrow>
             (Some EvUtteranceClosed, ep_record StateSoftEndpointed StateIdle TcDeviceReleaseClosed close_sample ep)
         | EpIdle _ _ \<Rightarrow>
             (case Option.bind armed_wake_end (missed_onset (ep_config ep) close_sample) of
                None \<Rightarrow> (None, ep)
              | Some start \<Rightarrow>
                  (Some (EvSoftEndpoint start close_sample CauseDeviceVadRelease),
                   ep_record StateIdle StateIdle TcMissedOnsetCarve close_sample ep)))
      in (event, ep1\<lparr>ep_state := EpIdle 0 0\<rparr>))"

section \<open>Calls\<close>

text \<open>A call of the listener, its event, and the transitions it drains after the call.\<close>

datatype ep_call = CallPush f32 u64 | CallRelease u64 "u64 option" | CallClose u64 | CallReset u64

type_synonym ep_answer = "EndpointTransition list \<times> EndpointEvent option"

fun ep_call_body :: "ep_call \<Rightarrow> Endpointer \<Rightarrow> EndpointEvent option \<times> Endpointer" where
  "ep_call_body (CallPush p chunk_end) ep = ep_push p chunk_end ep"
| "ep_call_body (CallRelease close_sample wake) ep = on_device_release close_sample wake ep"
| "ep_call_body (CallClose at_sample) ep = (None, ep_close at_sample ep)"
| "ep_call_body (CallReset at_sample) ep = (None, ep_reset at_sample ep)"

definition ep_do :: "ep_call \<Rightarrow> Endpointer \<Rightarrow> ep_answer \<times> Endpointer" where
  "ep_do call ep =
     (let (event, ep1) = ep_call_body call ep; (transitions, ep2) = drain_transitions ep1 in ((transitions, event), ep2))"

fun ep_run :: "ep_call list \<Rightarrow> Endpointer \<Rightarrow> ep_answer list \<times> Endpointer" where
  "ep_run [] ep = ([], ep)"
| "ep_run (c # cs) ep = (let (a, ep1) = ep_do c ep; (as, ep2) = ep_run cs ep1 in (a # as, ep2))"

section \<open>The protocol of an utterance\<close>

text \<open>What a consumer knows: no utterance, one that is live (with its start once it was announced), one that has paused.\<close>

datatype utterance = NoUtterance | LiveUtterance "u64 option" | PausedUtterance u64

fun utt_label :: "utterance \<Rightarrow> EndpointState" where
  "utt_label NoUtterance = StateIdle"
| "utt_label (LiveUtterance _) = StateSpeech"
| "utt_label (PausedUtterance _) = StateSoftEndpointed"

definition same_start :: "u64 option \<Rightarrow> u64 \<Rightarrow> bool" where
  "same_start x start \<longleftrightarrow> x = None \<or> x = Some start"

definition endpoints :: "EndpointCause \<Rightarrow> EndpointEvent option \<Rightarrow> utterance \<Rightarrow> u64 option" where
  "endpoints cause event u =
     (case event of
        Some (EvSoftEndpoint start _ c) \<Rightarrow>
          (case u of LiveUtterance x \<Rightarrow> if c = cause \<and> same_start x start then Some start else None | _ \<Rightarrow> None)
      | _ \<Rightarrow> None)"

definition utt_next :: "TransitionCause \<Rightarrow> EndpointEvent option \<Rightarrow> utterance \<Rightarrow> utterance option" where
  "utt_next cause event u =
     (case cause of
        TcOnset \<Rightarrow> if event = None \<and> u = NoUtterance then Some (LiveUtterance None) else None
      | TcSoftEndpoint \<Rightarrow> map_option PausedUtterance (endpoints CauseSoftEndpoint event u)
      | TcCapped \<Rightarrow> map_option (\<lambda>_. NoUtterance) (endpoints CauseCapped event u)
      | TcDeviceRelease \<Rightarrow> map_option (\<lambda>_. NoUtterance) (endpoints CauseDeviceVadRelease event u)
      | TcContinuation \<Rightarrow> (case u of PausedUtterance start \<Rightarrow> if event = Some EvSuperseded then Some (LiveUtterance (Some start)) else None | _ \<Rightarrow> None)
      | TcMissedOnsetCarve \<Rightarrow>
          (case event of
             Some (EvSoftEndpoint _ _ c) \<Rightarrow> if c = CauseDeviceVadRelease \<and> u = NoUtterance then Some NoUtterance else None
           | _ \<Rightarrow> None)
      | TcClosed \<Rightarrow> (case u of PausedUtterance _ \<Rightarrow> if event = Some EvUtteranceClosed then Some NoUtterance else None | _ \<Rightarrow> None)
      | TcDeviceReleaseClosed \<Rightarrow> (case u of PausedUtterance _ \<Rightarrow> if event = Some EvUtteranceClosed then Some NoUtterance else None | _ \<Rightarrow> None)
      | TcReset \<Rightarrow> if event = None \<and> u \<noteq> NoUtterance then Some NoUtterance else None
      | TcDispatched \<Rightarrow> if event = None \<and> u \<noteq> NoUtterance then Some NoUtterance else None)"

fun utt_answer :: "ep_answer \<Rightarrow> utterance \<Rightarrow> utterance option" where
  "utt_answer ([], None) u = Some u"
| "utt_answer ([t], event) u =
     (case utt_next (et_cause t) event u of
        Some u1 \<Rightarrow> if et_from t = utt_label u \<and> et_to t = utt_label u1 then Some u1 else None
      | None \<Rightarrow> None)"
| "utt_answer _ _ = None"

fun utt_answers :: "ep_answer list \<Rightarrow> utterance \<Rightarrow> utterance option" where
  "utt_answers [] u = Some u"
| "utt_answers (a # as) u = Option.bind (utt_answer a u) (utt_answers as)"

fun utt_of :: "ep_state \<Rightarrow> utterance \<Rightarrow> bool" where
  "utt_of (EpIdle _ _) u \<longleftrightarrow> u = NoUtterance"
| "utt_of (EpSpeech start _ _) u \<longleftrightarrow> (\<exists>x. u = LiveUtterance x \<and> same_start x start)"
| "utt_of (EpSoftEndpointed start _) u \<longleftrightarrow> u = PausedUtterance start"

lemma ep_do_protocol:
  assumes "ep_do call ep = (a, ep')" "ep_transitions ep = []" "utt_of (ep_state ep) u"
  shows "\<exists>u'. utt_answer a u = Some u' \<and> utt_of (ep_state ep') u' \<and> ep_transitions ep' = [] \<and> ep_config ep' = ep_config ep"
  using assms
  by (cases call; cases "ep_state ep")
    (auto simp: ep_do_def drain_transitions_def ep_push_def push_idle_def push_speech_def push_soft_def on_device_release_def
       ep_close_def ep_reset_def ep_to_idle_def ep_record_def same_start_def utt_next_def endpoints_def Let_def split: if_splits option.splits)

lemma ep_run_protocol:
  assumes "ep_run calls ep = (as, ep')" "ep_transitions ep = []" "utt_of (ep_state ep) u"
  shows "\<exists>u'. utt_answers as u = Some u' \<and> utt_of (ep_state ep') u'"
  using assms
proof (induction calls arbitrary: ep as u)
  case (Cons c cs)
  obtain a ep1 where d: "ep_do c ep = (a, ep1)" by fastforce
  obtain as1 where r: "ep_run cs ep1 = (as1, ep')" "as = a # as1" using Cons.prems(1) d by (auto split: prod.splits)
  from ep_do_protocol [OF d Cons.prems(2,3)] obtain u1 where u1: "utt_answer a u = Some u1" "utt_of (ep_state ep1) u1" "ep_transitions ep1 = []" by blast
  from Cons.IH [OF r(1) u1(3,2)] show ?case using u1(1) r(2) by simp
qed simp

section \<open>Spans\<close>

text \<open>
  The listener's cursor: a chunk ends one chunk after it, a release comes before the next chunk is full,
  a reset moves it.
\<close>

fun on_cursor :: "nat \<Rightarrow> ep_call list \<Rightarrow> bool" where
  "on_cursor now [] \<longleftrightarrow> True"
| "on_cursor now (CallPush p chunk_end # cs) \<longleftrightarrow> unat chunk_end = now + 512 \<and> on_cursor (now + 512) cs"
| "on_cursor now (CallRelease close_sample wake # cs) \<longleftrightarrow> now \<le> unat close_sample \<and> unat close_sample < now + 512 \<and> on_cursor now cs"
| "on_cursor now (CallClose at_sample # cs) \<longleftrightarrow> on_cursor now cs"
| "on_cursor now (CallReset at_sample # cs) \<longleftrightarrow> on_cursor (unat at_sample) cs"

definition chunk_count :: "u32 \<Rightarrow> nat" where
  "chunk_count n = max 1 (unat n)"

definition speech_bound :: "EndpointerConfig \<Rightarrow> nat" where
  "speech_bound cfg =
     max (unat (ec_max_utterance_samples cfg) + chunk_count (ec_continuation_chunks cfg) * 512)
       (unat (ec_preroll_pad_samples cfg) + chunk_count (ec_onset_chunks cfg) * 512 + 1)"

fun cursor_ok :: "EndpointerConfig \<Rightarrow> nat \<Rightarrow> ep_state \<Rightarrow> bool" where
  "cursor_ok cfg now (EpIdle onset_run onset_start) \<longleftrightarrow>
     unat onset_run < chunk_count (ec_onset_chunks cfg) \<and> (onset_run \<noteq> 0 \<longrightarrow> unat onset_start + unat onset_run * 512 = now)"
| "cursor_ok cfg now (EpSpeech start speech_end release_run) \<longleftrightarrow>
     unat start \<le> unat speech_end \<and> unat speech_end + unat release_run * 512 = now \<and>
     unat release_run < chunk_count (ec_soft_hangover_chunks cfg) \<and> now - unat start < speech_bound cfg"
| "cursor_ok cfg now (EpSoftEndpointed start cont_run) \<longleftrightarrow>
     unat start \<le> now \<and> unat cont_run < chunk_count (ec_continuation_chunks cfg) \<and>
     now - unat start < unat (ec_max_utterance_samples cfg) + unat cont_run * 512"

definition span_ok :: "EndpointerConfig \<Rightarrow> nat \<Rightarrow> EndpointEvent option \<Rightarrow> bool" where
  "span_ok cfg until event =
     (case event of
        Some (EvSoftEndpoint start end_ix _) \<Rightarrow>
          start \<le> end_ix \<and> unat end_ix \<le> until \<and> unat end_ix - unat start < speech_bound cfg + 512
      | _ \<Rightarrow> True)"

lemma unat_saturating_sub: "unat (u64_saturating_sub a b) = unat a - unat b"
  by (simp add: u64_saturating_sub_def unat_sub word_le_nat_alt)

lemma chunk_count_Suc: "unat (n :: u32) < chunk_count m \<Longrightarrow> unat (n + 1) = unat n + 1"
  using unat_u32_less [of m] by (auto simp: chunk_count_def unat_word_ariths max_def split: if_splits)

lemma chunk_count_step: "unat (n :: u32) < chunk_count m \<Longrightarrow> \<not> m \<le> n + 1 \<Longrightarrow> unat (n + 1) < chunk_count m"
  using chunk_count_Suc [of n m] by (auto simp: chunk_count_def word_le_nat_alt)

lemma max_less_bound: "unat (ec_max_utterance_samples cfg) < speech_bound cfg"
  by (simp add: speech_bound_def chunk_count_def less_max_iff_disj)

lemma unat_chunk_start: "unat chunk_end = now + 512 \<Longrightarrow> unat (u64_saturating_sub chunk_end CHUNK_SAMPLES) = now"
  by (simp add: unat_saturating_sub CHUNK_SAMPLES_def)

lemma push_idle_cursor:
  assumes "unat chunk_end = now + 512" "cursor_ok (ep_config ep) now (EpIdle onset_run onset_start)"
  shows "cursor_ok (ep_config ep) (now + 512) (ep_state (push_idle p chunk_end onset_run onset_start ep))"
proof -
  let ?cfg = "ep_config ep"
  define anchor where "anchor = (if onset_run = 0 then u64_saturating_sub chunk_end CHUNK_SAMPLES else onset_start)"
  have run: "unat onset_run < chunk_count (ec_onset_chunks ?cfg)" using assms(2) by simp
  have a: "unat anchor + (unat onset_run + 1) * 512 = now + 512"
    using assms unat_chunk_start [OF assms(1)] by (auto simp: anchor_def algebra_simps)
  let ?start = "u64_saturating_sub anchor (ec_preroll_pad_samples ?cfg)"
  have "(unat onset_run + 1) * 512 \<le> chunk_count (ec_onset_chunks ?cfg) * 512" using run by simp
  then have speech: "unat ?start \<le> now + 512" "now + 512 - unat ?start < speech_bound ?cfg"
    using a unfolding unat_saturating_sub speech_bound_def by linarith+
  have idle: "cursor_ok ?cfg (now + 512) (EpIdle (onset_run + 1) anchor)" if "\<not> ec_onset_chunks ?cfg \<le> onset_run + 1"
    using a chunk_count_Suc [OF run] chunk_count_step [OF run that] by simp
  show ?thesis
    using speech idle assms(1) by (auto simp: push_idle_def ep_record_def anchor_def [symmetric] chunk_count_def Let_def)
qed

lemma push_speech_cursor:
  assumes e: "unat chunk_end = now + 512" and ok: "cursor_ok (ep_config ep) now (EpSpeech start speech_end release_run)"
    and p: "push_speech p chunk_end start speech_end release_run ep = (event, ep')"
  shows "cursor_ok (ep_config ep) (now + 512) (ep_state ep') \<and> span_ok (ep_config ep) (now + 512) event"
proof -
  let ?cfg = "ep_config ep"
  have s: "unat start \<le> unat speech_end" "unat speech_end + unat release_run * 512 = now" "now - unat start < speech_bound ?cfg"
    and run: "unat release_run < chunk_count (ec_soft_hangover_chunks ?cfg)" using ok by auto
  have len: "unat (u64_saturating_sub chunk_end start) = now + 512 - unat start" using e by (simp add: unat_saturating_sub)
  note max = max_less_bound [of ?cfg]
  show ?thesis
  proof (cases "ec_max_utterance_samples ?cfg \<le> u64_saturating_sub chunk_end start")
    case True
    then show ?thesis using p s e by (auto simp: push_speech_def Let_def ep_record_def span_ok_def chunk_count_def word_le_nat_alt)
  next
    case False
    then have short: "now + 512 - unat start < unat (ec_max_utterance_samples ?cfg)" using len by (simp add: word_le_nat_alt)
    have "cursor_ok ?cfg (now + 512) (EpSpeech start speech_end (release_run + 1))" if "\<not> ec_soft_hangover_chunks ?cfg \<le> release_run + 1"
      using s short max chunk_count_Suc [OF run] chunk_count_step [OF run that] by simp
    moreover have "cursor_ok ?cfg (now + 512) (EpSpeech start chunk_end 0)" using s short max e by (simp add: chunk_count_def)
    moreover have "cursor_ok ?cfg (now + 512) (EpSoftEndpointed start 0)" using s short by (simp add: chunk_count_def)
    moreover have "span_ok ?cfg (now + 512) (Some (EvSoftEndpoint start speech_end CauseSoftEndpoint))"
      using s by (simp add: span_ok_def word_le_nat_alt)
    ultimately show ?thesis
      using p False by (auto simp: push_speech_def Let_def ep_record_def span_ok_def split: if_splits)
  qed
qed

lemma push_soft_cursor:
  assumes e: "unat chunk_end = now + 512" and ok: "cursor_ok (ep_config ep) now (EpSoftEndpointed start cont_run)"
    and p: "push_soft p chunk_end start cont_run ep = (event, ep')"
  shows "cursor_ok (ep_config ep) (now + 512) (ep_state ep') \<and> span_ok (ep_config ep) (now + 512) event"
proof -
  let ?cfg = "ep_config ep"
  have run: "unat cont_run < chunk_count (ec_continuation_chunks ?cfg)" using ok by simp
  have "(unat cont_run + 1) * 512 \<le> chunk_count (ec_continuation_chunks ?cfg) * 512" using run by simp
  then have "now + 512 - unat start < speech_bound ?cfg" using ok unfolding speech_bound_def by simp linarith
  then have "cursor_ok ?cfg (now + 512) (EpSpeech start chunk_end 0)" using ok e by (simp add: chunk_count_def)
  moreover have "cursor_ok ?cfg (now + 512) (EpSoftEndpointed start (cont_run + 1))" if "\<not> ec_continuation_chunks ?cfg \<le> cont_run + 1"
    using ok chunk_count_Suc [OF run] chunk_count_step [OF run that] by simp linarith
  ultimately show ?thesis using p by (auto simp: push_soft_def Let_def ep_record_def span_ok_def chunk_count_def split: if_splits)
qed

lemma release_cursor:
  assumes c: "now \<le> unat close_sample" "unat close_sample < now + 512" and ok: "cursor_ok (ep_config ep) now (ep_state ep)"
    and p: "on_device_release close_sample wake ep = (event, ep')"
  shows "cursor_ok (ep_config ep) now (ep_state ep') \<and> span_ok (ep_config ep) (unat close_sample) event"
proof -
  let ?cfg = "ep_config ep"
  have "span_ok ?cfg (unat close_sample) (Some (EvSoftEndpoint start close_sample CauseDeviceVadRelease))"
    if "missed_onset ?cfg close_sample w = Some start" for w start
  proof -
    have lt: "start < close_sample" and "u64_saturating_sub close_sample (ec_max_utterance_samples ?cfg) \<le> start"
      using that by (auto simp: missed_onset_def Let_def split: if_splits)
    then have "unat close_sample - unat start \<le> unat (ec_max_utterance_samples ?cfg)"
      by (simp add: word_le_nat_alt unat_saturating_sub)
    then show ?thesis using lt max_less_bound [of ?cfg] by (auto simp: span_ok_def)
  qed
  moreover have "span_ok ?cfg (unat close_sample) (Some (EvSoftEndpoint start close_sample CauseDeviceVadRelease))"
    if "ep_state ep = EpSpeech start speech_end run" for start speech_end run
    using ok c that by (auto simp: span_ok_def word_le_nat_alt)
  ultimately show ?thesis
    using p by (auto simp: on_device_release_def Let_def ep_record_def span_ok_def [of _ _ None] span_ok_def [of _ _ "Some EvUtteranceClosed"] chunk_count_def
        split: ep_state.splits option.splits Option.bind_splits)
qed

fun call_sample :: "ep_call \<Rightarrow> nat" where
  "call_sample (CallPush _ chunk_end) = unat chunk_end"
| "call_sample (CallRelease close_sample _) = unat close_sample"
| "call_sample (CallClose at_sample) = unat at_sample"
| "call_sample (CallReset at_sample) = unat at_sample"

lemma idle_cursor_ok: "cursor_ok cfg now (EpIdle 0 0)"
  by (simp add: chunk_count_def)

lemma ep_do_cursor:
  assumes d: "ep_do c ep = (a, ep')" and on: "on_cursor now (c # cs)" and ok: "cursor_ok (ep_config ep) now (ep_state ep)"
  shows "\<exists>now'. on_cursor now' cs \<and> cursor_ok (ep_config ep) now' (ep_state ep') \<and> span_ok (ep_config ep) (call_sample c) (snd a)"
proof -
  obtain event ep1 where b: "ep_call_body c ep = (event, ep1)" by fastforce
  have a: "snd a = event" "ep_state ep' = ep_state ep1" using d b by (auto simp: ep_do_def drain_transitions_def)
  show ?thesis
  proof (cases c)
    case (CallPush p chunk_end)
    then have e: "unat chunk_end = now + 512" "on_cursor (now + 512) cs" using on by auto
    have "cursor_ok (ep_config ep) (now + 512) (ep_state ep1) \<and> span_ok (ep_config ep) (now + 512) event"
    proof (cases "ep_state ep")
      case (EpIdle onset_run onset_start)
      then have "event = None" "ep1 = push_idle p chunk_end onset_run onset_start ep" using b CallPush by (auto simp: ep_push_def)
      then show ?thesis using push_idle_cursor [OF e(1)] ok EpIdle by (simp add: span_ok_def)
    next
      case (EpSpeech start speech_end release_run)
      then show ?thesis using push_speech_cursor [OF e(1)] ok b CallPush by (simp add: ep_push_def)
    next
      case (EpSoftEndpointed start cont_run)
      then show ?thesis using push_soft_cursor [OF e(1)] ok b CallPush by (simp add: ep_push_def)
    qed
    then show ?thesis using e a CallPush by auto
  next
    case (CallRelease close_sample wake)
    then show ?thesis using release_cursor [OF _ _ ok, of close_sample wake event ep1] on b a by auto
  next
    case (CallClose at_sample)
    then show ?thesis using on b a idle_cursor_ok by (auto simp: ep_close_def ep_to_idle_def ep_record_def span_ok_def Let_def)
  next
    case (CallReset at_sample)
    then show ?thesis using on b a idle_cursor_ok by (auto simp: ep_reset_def ep_to_idle_def ep_record_def span_ok_def Let_def)
  qed
qed

lemma ep_do_config: "ep_do c ep = (a, ep') \<Longrightarrow> ep_config ep' = ep_config ep"
  by (cases c; cases "ep_state ep")
    (auto simp: ep_do_def drain_transitions_def ep_push_def push_idle_def push_speech_def push_soft_def on_device_release_def
       ep_close_def ep_reset_def ep_to_idle_def ep_record_def Let_def split: if_splits option.splits)

lemma ep_run_cursor:
  assumes "ep_run cs ep = (as, ep')" "on_cursor now cs" "cursor_ok (ep_config ep) now (ep_state ep)"
  shows "list_all2 (\<lambda>c a. span_ok (ep_config ep) (call_sample c) (snd a)) cs as"
  using assms
proof (induction cs arbitrary: ep as now)
  case (Cons c cs)
  obtain a ep1 where d: "ep_do c ep = (a, ep1)" by fastforce
  obtain as1 where r: "ep_run cs ep1 = (as1, ep')" "as = a # as1" using Cons.prems(1) d by (auto split: prod.splits)
  from ep_do_cursor [OF d Cons.prems(2,3)] obtain now' where n: "on_cursor now' cs" "cursor_ok (ep_config ep) now' (ep_state ep1)"
    "span_ok (ep_config ep) (call_sample c) (snd a)" by blast
  from Cons.IH [OF r(1) n(1)] n(2,3) r(2) ep_do_config [OF d] show ?case by simp
qed simp

end
