(* ===== verification/Lane_Queue.thy ===== *)
theory Lane_Queue
  imports Pod_Prelude "HOL-Library.Multiset" "HOL-Library.Sublist"
begin

text \<open>
  The queue between assembler and pipeline (\<^verbatim>\<open>host/crates/speech-pipeline/src/queue.rs\<close>, with the
  high-water mark of \<^verbatim>\<open>stats.rs\<close>): one FIFO with a sheddable lane, which the capacity bounds, and a reliable lane.

  The mutex makes the locked part of a send and of a poll of \<open>recv\<close> one step each; what a send does before and after the
  lock, on atomics, are steps of their own. \<open>recv\<close> is its poll: an item, the end, or pending. The wake-up
  of a pending receiver is the executor's; \<open>debug_assert!\<close> is not part of a release build.

  The lemmas are about every interleaving of any number of senders and the receiver.
\<close>

section \<open>State\<close>

record 'a lane_entry =
  en_item :: 'a
  en_sheddable :: bool

record 'a lane_queue =
  lq_items :: "'a lane_entry list"
  lq_sheddable_len :: nat
  lq_capacity :: nat
  lq_pushed :: u64
  lq_sheddable_pushed :: u64
  lq_dropped_oldest :: u64
  lq_bookkeeping_faults :: u64
  lq_high_water :: u64
  lq_reliable_high_water :: u64
  lq_senders :: nat
  lq_closed :: bool
  lq_send_failures :: u64

record QueueStats =
  qs_depth :: u64
  qs_high_water :: u64
  qs_pushed :: u64
  qs_sheddable_pushed :: u64
  qs_dropped_oldest :: u64
  qs_send_failures :: u64
  qs_reliable_high_water :: u64
  qs_sheddable_depth :: u64
  qs_bookkeeping_faults :: u64

section \<open>Operations\<close>

definition lane_queue_new :: "nat \<Rightarrow> 'a lane_queue option" where
  "lane_queue_new capacity =
     (if 1 \<le> capacity then
        Some \<lparr>lq_items = [], lq_sheddable_len = 0, lq_capacity = capacity, lq_pushed = 0, lq_sheddable_pushed = 0,
          lq_dropped_oldest = 0, lq_bookkeeping_faults = 0, lq_high_water = 0, lq_reliable_high_water = 0, lq_senders = 1,
          lq_closed = False, lq_send_failures = 0\<rparr>
      else None)"

definition closed_send :: "'a lane_queue \<Rightarrow> bool \<times> 'a lane_queue" where
  "closed_send q = (if lq_closed q then (True, q\<lparr>lq_send_failures := lq_send_failures q + 1\<rparr>) else (False, q))"

text \<open>The oldest sheddable entry, and the entries without it.\<close>

fun remove_oldest :: "'a lane_entry list \<Rightarrow> ('a lane_entry \<times> 'a lane_entry list) option" where
  "remove_oldest [] = None"
| "remove_oldest (e # es) =
     (if en_sheddable e then Some (e, es) else map_option (\<lambda>(v, rest). (v, e # rest)) (remove_oldest es))"

definition shed_overflow :: "'a lane_queue \<Rightarrow> 'a option \<times> 'a lane_queue" where
  "shed_overflow q =
     (if lq_capacity q < lq_sheddable_len q then
        (case remove_oldest (lq_items q) of
           Some (victim, items) \<Rightarrow> (Some (en_item victim), q\<lparr>lq_sheddable_len := lq_sheddable_len q - 1, lq_items := items\<rparr>)
         | None \<Rightarrow> (None, q\<lparr>lq_bookkeeping_faults := lq_bookkeeping_faults q + 1\<rparr>))
      else (None, q))"

text \<open>The enqueue, and the locked part of \<open>push\<close>, which looks at the flag again.\<close>

definition enqueue :: "'a \<Rightarrow> bool \<Rightarrow> 'a lane_queue \<Rightarrow> 'a option \<times> 'a lane_queue" where
  "enqueue item sheddable q =
     (let q1 = q\<lparr>lq_items := lq_items q @ [\<lparr>en_item = item, en_sheddable = sheddable\<rparr>], lq_pushed := lq_pushed q + 1\<rparr>;
          (displaced, q2) =
            (if sheddable
             then shed_overflow (q1\<lparr>lq_sheddable_len := lq_sheddable_len q1 + 1, lq_sheddable_pushed := lq_sheddable_pushed q1 + 1\<rparr>)
             else (None, q1));
          q3 = q2\<lparr>lq_high_water := max (lq_high_water q2) (of_nat (length (lq_items q2)))\<rparr>;
          q4 = (if sheddable then q3
                else q3\<lparr>lq_reliable_high_water :=
                          max (lq_reliable_high_water q3) (of_nat (length (lq_items q3) - lq_sheddable_len q3))\<rparr>)
      in (displaced, q4))"

definition push_locked :: "'a \<Rightarrow> bool \<Rightarrow> 'a lane_queue \<Rightarrow> 'a option \<times> 'a lane_queue" where
  "push_locked item sheddable q =
     (if lq_closed q then (None, q\<lparr>lq_send_failures := lq_send_failures q + 1\<rparr>) else enqueue item sheddable q)"

definition count_dropped :: "'a lane_queue \<Rightarrow> 'a lane_queue" where
  "count_dropped q = q\<lparr>lq_dropped_oldest := lq_dropped_oldest q + 1\<rparr>"

definition queue_push :: "'a \<Rightarrow> bool \<Rightarrow> 'a lane_queue \<Rightarrow> 'a option \<times> 'a lane_queue" where
  "queue_push item sheddable q =
     (case closed_send q of
        (True, q1) \<Rightarrow> (None, q1)
      | (False, q1) \<Rightarrow>
          let (displaced, q2) = push_locked item sheddable q1
          in (displaced, if displaced \<noteq> None then count_dropped q2 else q2))"

definition send_sheddable :: "'a \<Rightarrow> 'a lane_queue \<Rightarrow> 'a option \<times> 'a lane_queue" where
  "send_sheddable item q = queue_push item True q"

definition send_reliable :: "'a \<Rightarrow> 'a lane_queue \<Rightarrow> 'a lane_queue" where
  "send_reliable item q = snd (queue_push item False q)"

datatype 'a recv_result = RecvItem 'a | RecvEnd | RecvPending

definition recv_poll :: "'a lane_queue \<Rightarrow> 'a recv_result \<times> 'a lane_queue" where
  "recv_poll q =
     (case lq_items q of
        entry # rest \<Rightarrow>
          (RecvItem (en_item entry),
           q\<lparr>lq_items := rest, lq_sheddable_len := (if en_sheddable entry then lq_sheddable_len q - 1 else lq_sheddable_len q)\<rparr>)
      | [] \<Rightarrow> (if lq_senders q = 0 then RecvEnd else RecvPending, q))"

definition sender_clone :: "'a lane_queue \<Rightarrow> 'a lane_queue" where
  "sender_clone q = q\<lparr>lq_senders := lq_senders q + 1\<rparr>"

definition sender_drop :: "'a lane_queue \<Rightarrow> 'a lane_queue" where
  "sender_drop q = q\<lparr>lq_senders := lq_senders q - 1\<rparr>"

text \<open>The receiver's drop: the flag first, the sweep under the lock after it.\<close>

definition receiver_close :: "'a lane_queue \<Rightarrow> 'a lane_queue" where
  "receiver_close q = q\<lparr>lq_closed := True\<rparr>"

definition receiver_sweep :: "'a lane_queue \<Rightarrow> 'a lane_queue" where
  "receiver_sweep q = q\<lparr>lq_items := [], lq_sheddable_len := 0\<rparr>"

definition queue_stats :: "'a lane_queue \<Rightarrow> QueueStats \<times> 'a lane_queue" where
  "queue_stats q =
     (let depth = of_nat (length (lq_items q)); sheddable_depth = of_nat (lq_sheddable_len q);
          q1 = (if depth < sheddable_depth then q\<lparr>lq_bookkeeping_faults := lq_bookkeeping_faults q + 1\<rparr> else q)
      in (\<lparr>qs_depth = depth, qs_high_water = lq_high_water q1, qs_pushed = lq_pushed q1,
           qs_sheddable_pushed = lq_sheddable_pushed q1, qs_dropped_oldest = lq_dropped_oldest q1,
           qs_send_failures = lq_send_failures q1, qs_reliable_high_water = lq_reliable_high_water q1,
           qs_sheddable_depth = sheddable_depth, qs_bookkeeping_faults = lq_bookkeeping_faults q1\<rparr>, q1))"

section \<open>Interleavings\<close>

text \<open>
  The queue with what has happened to it: the entries accepted, those received, those displaced, those swept when the
  receiver went, all in order, and the displacements whose counter is not yet raised.
\<close>

record 'a lane_sys =
  ls_queue :: "'a lane_queue"
  ls_sent :: "'a lane_entry list"
  ls_got :: "'a lane_entry list"
  ls_shed :: "'a lane_entry list"
  ls_swept :: "'a lane_entry list"
  ls_uncounted :: nat

definition lane_start :: "'a lane_queue \<Rightarrow> 'a lane_sys" where
  "lane_start q = \<lparr>ls_queue = q, ls_sent = [], ls_got = [], ls_shed = [], ls_swept = [], ls_uncounted = 0\<rparr>"

inductive lane_step :: "'a lane_sys \<Rightarrow> 'a lane_sys \<Rightarrow> bool" where
  refused: "closed_send (ls_queue s) = (True, q') \<Longrightarrow> lane_step s (s\<lparr>ls_queue := q'\<rparr>)"
| late: "lq_closed (ls_queue s) \<Longrightarrow> push_locked item sheddable (ls_queue s) = (displaced, q') \<Longrightarrow> lane_step s (s\<lparr>ls_queue := q'\<rparr>)"
| send: "0 < lq_senders (ls_queue s) \<Longrightarrow> \<not> lq_closed (ls_queue s) \<Longrightarrow> push_locked item sheddable (ls_queue s) = (None, q') \<Longrightarrow>
    lane_step s (s\<lparr>ls_queue := q', ls_sent := ls_sent s @ [\<lparr>en_item = item, en_sheddable = sheddable\<rparr>]\<rparr>)"
| shed: "0 < lq_senders (ls_queue s) \<Longrightarrow> \<not> lq_closed (ls_queue s) \<Longrightarrow> push_locked item sheddable (ls_queue s) = (Some old, q') \<Longrightarrow>
    lane_step s (s\<lparr>ls_queue := q', ls_sent := ls_sent s @ [\<lparr>en_item = item, en_sheddable = sheddable\<rparr>],
      ls_shed := ls_shed s @ [\<lparr>en_item = old, en_sheddable = True\<rparr>], ls_uncounted := ls_uncounted s + 1\<rparr>)"
| counted: "0 < ls_uncounted s \<Longrightarrow> lane_step s (s\<lparr>ls_queue := count_dropped (ls_queue s), ls_uncounted := ls_uncounted s - 1\<rparr>)"
| receive: "\<not> lq_closed (ls_queue s) \<Longrightarrow> lq_items (ls_queue s) = entry # rest \<Longrightarrow> recv_poll (ls_queue s) = (RecvItem (en_item entry), q') \<Longrightarrow>
    lane_step s (s\<lparr>ls_queue := q', ls_got := ls_got s @ [entry]\<rparr>)"
| clone: "0 < lq_senders (ls_queue s) \<Longrightarrow> lane_step s (s\<lparr>ls_queue := sender_clone (ls_queue s)\<rparr>)"
| drop: "0 < lq_senders (ls_queue s) \<Longrightarrow> lane_step s (s\<lparr>ls_queue := sender_drop (ls_queue s)\<rparr>)"
| close: "lane_step s (s\<lparr>ls_queue := receiver_close (ls_queue s)\<rparr>)"
| sweep: "lq_closed (ls_queue s) \<Longrightarrow>
    lane_step s (s\<lparr>ls_queue := receiver_sweep (ls_queue s), ls_swept := ls_swept s @ lq_items (ls_queue s)\<rparr>)"
| stats: "queue_stats (ls_queue s) = (st, q') \<Longrightarrow> length (lq_items (ls_queue s)) < 2 ^ 64 \<Longrightarrow> lane_step s (s\<lparr>ls_queue := q'\<rparr>)"

abbreviation sheddables :: "'a lane_entry list \<Rightarrow> 'a lane_entry list" where
  "sheddables \<equiv> filter en_sheddable"

abbreviation reliables :: "'a lane_entry list \<Rightarrow> 'a lane_entry list" where
  "reliables \<equiv> filter (\<lambda>e. \<not> en_sheddable e)"

definition lane_out :: "'a lane_sys \<Rightarrow> 'a lane_entry list" where
  "lane_out s = ls_got s @ ls_swept s @ lq_items (ls_queue s)"

definition lane_inv :: "nat \<Rightarrow> 'a lane_sys \<Rightarrow> bool" where
  "lane_inv capacity s \<longleftrightarrow>
     lq_capacity (ls_queue s) = capacity \<and> 1 \<le> capacity \<and>
     lq_sheddable_len (ls_queue s) = length (sheddables (lq_items (ls_queue s))) \<and> lq_sheddable_len (ls_queue s) \<le> capacity \<and>
     lq_bookkeeping_faults (ls_queue s) = 0 \<and> (ls_swept s \<noteq> [] \<longrightarrow> lq_closed (ls_queue s) \<and> lq_items (ls_queue s) = []) \<and>
     subseq (lane_out s) (ls_sent s) \<and> reliables (lane_out s) = reliables (ls_sent s) \<and>
     suffix (sheddables (ls_swept s @ lq_items (ls_queue s))) (sheddables (ls_sent s)) \<and>
     mset (ls_sent s) = mset (lane_out s) + mset (ls_shed s) \<and>
     lq_pushed (ls_queue s) = of_nat (length (ls_sent s)) \<and>
     lq_sheddable_pushed (ls_queue s) = of_nat (length (sheddables (ls_sent s))) \<and>
     lq_dropped_oldest (ls_queue s) + of_nat (ls_uncounted s) = of_nat (length (ls_shed s))"

lemma remove_oldest_some:
  assumes "remove_oldest es = Some (v, rest)"
  shows "en_sheddable v" "sheddables es = v # sheddables rest" "reliables rest = reliables es" "subseq rest es"
    "mset es = add_mset v (mset rest)"
  using assms by (induction es arbitrary: rest) (auto split: if_splits)

lemma remove_oldest_None: "remove_oldest es = None \<longleftrightarrow> sheddables es = []"
  by (induction es) auto

text \<open>What an enqueue does to the queue, in both outcomes.\<close>

lemma enqueue_cases:
  assumes q: "enqueue item sheddable q = (displaced, q')" and len: "lq_sheddable_len q = length (sheddables (lq_items q))"
    and cap: "lq_sheddable_len q \<le> lq_capacity q" "1 \<le> lq_capacity q"
  defines "e \<equiv> \<lparr>en_item = item, en_sheddable = sheddable\<rparr>"
  shows "lq_capacity q' = lq_capacity q" "lq_sheddable_len q' = length (sheddables (lq_items q'))" "lq_sheddable_len q' \<le> lq_capacity q"
    "lq_bookkeeping_faults q' = lq_bookkeeping_faults q" "lq_closed q' = lq_closed q" "lq_pushed q' = lq_pushed q + 1"
    "lq_sheddable_pushed q' = lq_sheddable_pushed q + (if sheddable then 1 else 0)" "lq_dropped_oldest q' = lq_dropped_oldest q"
    "displaced = None \<Longrightarrow> lq_items q' = lq_items q @ [e]"
    "displaced = Some old \<Longrightarrow> remove_oldest (lq_items q @ [e]) = Some (\<lparr>en_item = old, en_sheddable = True\<rparr>, lq_items q')"
proof -
  have "lq_capacity q' = lq_capacity q \<and> lq_sheddable_len q' = length (sheddables (lq_items q')) \<and> lq_sheddable_len q' \<le> lq_capacity q \<and>
    lq_bookkeeping_faults q' = lq_bookkeeping_faults q \<and> lq_closed q' = lq_closed q \<and> lq_pushed q' = lq_pushed q + 1 \<and>
    lq_sheddable_pushed q' = lq_sheddable_pushed q + (if sheddable then 1 else 0) \<and> lq_dropped_oldest q' = lq_dropped_oldest q \<and>
    (displaced = None \<longrightarrow> lq_items q' = lq_items q @ [e]) \<and>
    (\<forall>old. displaced = Some old \<longrightarrow> remove_oldest (lq_items q @ [e]) = Some (\<lparr>en_item = old, en_sheddable = True\<rparr>, lq_items q'))"
  proof (cases "sheddable \<and> lq_capacity q < lq_sheddable_len q + 1")
    case True
    have "sheddables (lq_items q @ [e]) \<noteq> []" using True by (simp add: e_def)
    then obtain v items where v: "remove_oldest (lq_items q @ [e]) = Some (v, items)"
      using remove_oldest_None [of "lq_items q @ [e]"] by (metis option.exhaust prod.exhaust)
    note R = remove_oldest_some [OF v]
    have "length (sheddables items) = length (sheddables (lq_items q))" using R(2) True by (auto simp: e_def dest: arg_cong [where f = length])
    moreover have "v = \<lparr>en_item = en_item v, en_sheddable = True\<rparr>" using R(1) by (cases v) simp
    moreover have d: "displaced = Some (en_item v)"
      and q': "q' = q\<lparr>lq_items := items, lq_pushed := lq_pushed q + 1, lq_sheddable_len := lq_sheddable_len q,
        lq_sheddable_pushed := lq_sheddable_pushed q + 1, lq_high_water := max (lq_high_water q) (of_nat (length items))\<rparr>"
      using q True v by (auto simp: enqueue_def shed_overflow_def e_def Let_def)
    ultimately show ?thesis unfolding q' using True v len cap by simp
  next
    case False
    then show ?thesis using q len cap by (auto simp: enqueue_def shed_overflow_def e_def Let_def split: if_splits)
  qed
  then show "lq_capacity q' = lq_capacity q" "lq_sheddable_len q' = length (sheddables (lq_items q'))" "lq_sheddable_len q' \<le> lq_capacity q"
    "lq_bookkeeping_faults q' = lq_bookkeeping_faults q" "lq_closed q' = lq_closed q" "lq_pushed q' = lq_pushed q + 1"
    "lq_sheddable_pushed q' = lq_sheddable_pushed q + (if sheddable then 1 else 0)" "lq_dropped_oldest q' = lq_dropped_oldest q"
    "displaced = None \<Longrightarrow> lq_items q' = lq_items q @ [e]"
    "displaced = Some old \<Longrightarrow> remove_oldest (lq_items q @ [e]) = Some (\<lparr>en_item = old, en_sheddable = True\<rparr>, lq_items q')"
    by blast+
qed

lemma lane_inv_send:
  assumes inv: "lane_inv capacity s" and open_q: "\<not> lq_closed (ls_queue s)"
    and p: "push_locked item sheddable (ls_queue s) = (displaced, q')"
  defines "e \<equiv> \<lparr>en_item = item, en_sheddable = sheddable\<rparr>"
  shows "displaced = None \<Longrightarrow> lane_inv capacity (s\<lparr>ls_queue := q', ls_sent := ls_sent s @ [e]\<rparr>)"
    "displaced = Some old \<Longrightarrow> lane_inv capacity (s\<lparr>ls_queue := q', ls_sent := ls_sent s @ [e],
       ls_shed := ls_shed s @ [\<lparr>en_item = old, en_sheddable = True\<rparr>], ls_uncounted := ls_uncounted s + 1\<rparr>)"
proof -
  let ?q = "ls_queue s"
  note I = inv [unfolded lane_inv_def]
  have en: "enqueue item sheddable ?q = (displaced, q')" using p open_q by (simp add: push_locked_def)
  have swept: "ls_swept s = []" using I open_q by blast
  have pre: "lq_sheddable_len ?q = length (sheddables (lq_items ?q))" "lq_sheddable_len ?q \<le> lq_capacity ?q" "1 \<le> lq_capacity ?q"
    using I by auto
  note E = enqueue_cases [OF en pre, folded e_def]
  have sub: "subseq (ls_got s @ lq_items ?q @ [e]) (ls_sent s @ [e])"
    using I swept list_emb_append_mono [of "(=)" "lane_out s" "ls_sent s" "[e]" "[e]"] by (simp add: lane_out_def)
  have suf: "suffix (sheddables (lq_items ?q @ [e])) (sheddables (ls_sent s @ [e]))"
    using I swept by (auto simp: suffix_def)
  show "lane_inv capacity (s\<lparr>ls_queue := q', ls_sent := ls_sent s @ [e]\<rparr>)" if "displaced = None"
    using I E(1-8) E(9) [OF that] sub suf swept unfolding lane_inv_def lane_out_def by (auto simp: e_def)
  show "lane_inv capacity (s\<lparr>ls_queue := q', ls_sent := ls_sent s @ [e],
       ls_shed := ls_shed s @ [\<lparr>en_item = old, en_sheddable = True\<rparr>], ls_uncounted := ls_uncounted s + 1\<rparr>)" if "displaced = Some old"
  proof -
    note R = remove_oldest_some [OF E(10) [OF that]]
    have "subseq (ls_got s @ lq_items q') (ls_sent s @ [e])"
      by (rule subseq_order.trans [OF list_emb_append_mono sub]) (simp_all add: R(4))
    moreover have "suffix (sheddables (lq_items q')) (sheddables (ls_sent s @ [e]))"
      by (rule suffix_ConsD [OF suf [unfolded R(2)]])
    moreover have "mset (ls_sent s @ [e]) = mset (ls_got s @ lq_items q') + mset (ls_shed s @ [\<lparr>en_item = old, en_sheddable = True\<rparr>])"
      using I swept R(5) by (simp add: lane_out_def)
    moreover have "reliables (ls_got s @ lq_items q') = reliables (ls_sent s @ [e])"
      using I swept R(3) by (simp add: lane_out_def)
    ultimately show ?thesis using I E(1-8) swept unfolding lane_inv_def lane_out_def by (auto simp: e_def)
  qed
qed

lemma lane_inv_step:
  assumes "lane_step s s'" "lane_inv capacity s"
  shows "lane_inv capacity s'"
  using assms
proof (cases rule: lane_step.cases)
  case (send item sheddable q')
  then show ?thesis using lane_inv_send(1) [OF assms(2)] by blast
next
  case (shed item sheddable old q')
  then show ?thesis using lane_inv_send(2) [OF assms(2)] by blast
next
  case (receive entry rest q')
  then show ?thesis using assms(2) unfolding lane_inv_def lane_out_def
    by (auto simp: recv_poll_def suffix_def split: if_splits)
next
  case (stats st q')
  then have "q' = ls_queue s"
  proof -
    let ?q = "ls_queue s"
    have "length (sheddables (lq_items ?q)) mod 2 ^ 64 \<le> length (lq_items ?q)"
      by (rule order.trans [OF mod_less_eq_dividend length_filter_le])
    moreover have "lq_sheddable_len ?q = length (sheddables (lq_items ?q))" using assms(2) by (simp add: lane_inv_def)
    ultimately have "\<not> (of_nat (length (lq_items ?q)) :: u64) < of_nat (lq_sheddable_len ?q)"
      using stats(3) by (simp add: word_less_nat_alt unat_of_nat)
    then show ?thesis using stats(2) by (auto simp: queue_stats_def Let_def)
  qed
  then show ?thesis using assms(2) stats(1) by simp
next
  case counted
  then show ?thesis using assms(2) by (auto simp: lane_inv_def lane_out_def count_dropped_def algebra_simps of_nat_diff)
qed (auto simp: lane_inv_def lane_out_def closed_send_def push_locked_def sender_clone_def sender_drop_def receiver_close_def
    receiver_sweep_def split: if_splits)

lemma lane_run_inv:
  assumes "lane_queue_new capacity = Some q" "lane_step\<^sup>*\<^sup>* (lane_start q) s"
  shows "lane_inv capacity s"
  using assms(2)
proof (induction rule: rtranclp_induct)
  case base
  show ?case using assms(1) by (auto simp: lane_queue_new_def lane_start_def lane_inv_def lane_out_def split: if_splits)
next
  case (step s1 s2)
  then show ?case using lane_inv_step by blast
qed

end
