(* ===== verification/Telemetry_Poll.thy ===== *)
theory Telemetry_Poll
  imports Segment Vad
begin

text \<open>
  The telemetry thread (\<^verbatim>\<open>firmware/crates/pod-streamer/src/telemetry.rs\<close>) with the control reads it makes
  (\<^verbatim>\<open>firmware/crates/xvf3800-ctrl/src/lib.rs\<close>): one tick reads the chip's speech energy, drives the gate, and tells
  the streamer about onsets, releases and readings over a channel that may be full.

  The chip's transport, the clock, the ring's write head and the channel are the environment. What the
  thread shows to the streamer, stores to the closed flag and offers to the channel, is a list of actions in
  program order, so that an observer between any two of them is covered. The \<open>f32\<close> maximum ignores NaN as the
  library's does; between zeros of different sign, where that choice is open, it keeps the first.

  The lemmas: the actions keep a protocol under which a release is visible in the flag even when its message is
  dropped, and nothing is sent for a segment the streamer was not told of.
\<close>

section \<open>Control reads\<close>

definition STATUS_DONE :: u8 where "STATUS_DONE = 0"
definition STATUS_WAIT :: u8 where "STATUS_WAIT = 1"
definition STATUS_RETRY :: u8 where "STATUS_RETRY = 0x40"
definition AEC_RESID :: u8 where "AEC_RESID = 33"
definition AEC_AZIMUTH_VALUES_CMD :: u8 where "AEC_AZIMUTH_VALUES_CMD = 75"
definition AEC_SPENERGY_VALUES_CMD :: u8 where "AEC_SPENERGY_VALUES_CMD = 80"
definition AEC_AZIMUTH_READ_LEN :: nat where "AEC_AZIMUTH_READ_LEN = 16"
definition AEC_SPENERGY_READ_LEN :: nat where "AEC_SPENERGY_READ_LEN = 16"

definition should_retry :: "u8 \<Rightarrow> bool" where
  "should_retry status \<longleftrightarrow> status = STATUS_WAIT \<or> status = STATUS_RETRY"

record RetryPolicy =
  rp_max_retries :: nat
  rp_delay_ms :: u32

text \<open>One attempt of a transport: the payload it filled and the status, or the transport's failure.\<close>

record 'e control_transport =
  ct_read_once :: "u8 \<Rightarrow> u8 \<Rightarrow> nat \<Rightarrow> nat \<Rightarrow> 'e \<Rightarrow> (bytes \<times> u8) option \<times> 'e"
  ct_delay_ms :: "u32 \<Rightarrow> 'e \<Rightarrow> 'e"

function control_read_from ::
  "'e control_transport \<Rightarrow> RetryPolicy \<Rightarrow> u8 \<Rightarrow> u8 \<Rightarrow> nat \<Rightarrow> nat \<Rightarrow> 'e \<Rightarrow> (bytes \<times> u8 \<times> nat) option \<times> 'e" where
  "control_read_from ct policy resid cmd len attempt e =
     (let attempt1 = attempt + 1 in
      case ct_read_once ct resid cmd len attempt1 e of
        (None, e1) \<Rightarrow> (None, e1)
      | (Some (payload, status), e1) \<Rightarrow>
          if should_retry status \<and> attempt1 \<le> rp_max_retries policy
          then control_read_from ct policy resid cmd len attempt1 (ct_delay_ms ct (rp_delay_ms policy) e1)
          else (Some (payload, status, attempt1), e1))"
  by pat_completeness auto
termination
  by (relation "measure (\<lambda>(_, policy, _, _, _, attempt, _). Suc (rp_max_retries policy) - attempt)") auto

declare control_read_from.simps [simp del]

definition control_read ::
  "'e control_transport \<Rightarrow> RetryPolicy \<Rightarrow> u8 \<Rightarrow> u8 \<Rightarrow> nat \<Rightarrow> 'e \<Rightarrow> (bytes \<times> u8 \<times> nat) option \<times> 'e" where
  "control_read ct policy resid cmd len e = control_read_from ct policy resid cmd len 0 e"

definition decode_f32x4 :: "bytes \<Rightarrow> f32 list" where
  "decode_f32x4 p = map (\<lambda>k. u32_from_le_bytes (take 4 (drop (4 * k) p))) [0, 1, 2, 3]"

section \<open>Readings\<close>

definition VAD_POLL_HZ :: nat where "VAD_POLL_HZ = 20"
definition DOA_POLL_HZ :: nat where "DOA_POLL_HZ = 10"
definition VAD_POLL_INTERVAL_MS :: nat where "VAD_POLL_INTERVAL_MS = 1000 div VAD_POLL_HZ"
definition DOA_EVERY_N_TICKS :: nat where "DOA_EVERY_N_TICKS = VAD_POLL_HZ div DOA_POLL_HZ"

datatype Reading = ReadSpEnergy | ReadAzimuths

definition reading_resid :: "Reading \<Rightarrow> u8" where
  "reading_resid r = AEC_RESID"

fun reading_cmd :: "Reading \<Rightarrow> u8" where
  "reading_cmd ReadSpEnergy = AEC_SPENERGY_VALUES_CMD"
| "reading_cmd ReadAzimuths = AEC_AZIMUTH_VALUES_CMD"

fun reading_len :: "Reading \<Rightarrow> nat" where
  "reading_len ReadSpEnergy = AEC_SPENERGY_READ_LEN"
| "reading_len ReadAzimuths = AEC_AZIMUTH_READ_LEN"

fun reading_kind :: "Reading \<Rightarrow> f32 list \<Rightarrow> TelemetryKind" where
  "reading_kind ReadSpEnergy values = SpEnergy values"
| "reading_kind ReadAzimuths values = Azimuths values"

definition read_f32x4_reading ::
  "'e control_transport \<Rightarrow> RetryPolicy \<Rightarrow> Reading \<Rightarrow> 'e \<Rightarrow> f32 list option \<times> 'e" where
  "read_f32x4_reading ct policy reading e =
     (case control_read ct policy (reading_resid reading) (reading_cmd reading) 16 e of
        (Some (payload, status, _), e1) \<Rightarrow> (if status = STATUS_DONE then Some (decode_f32x4 payload) else None, e1)
      | (None, e1) \<Rightarrow> (None, e1))"

section \<open>The poll core\<close>

datatype try_send_result = SendOk | SendFull | SendDisconnected

record 'e telemetry_env =
  te_read :: "Reading \<Rightarrow> 'e \<Rightarrow> f32 list option \<times> 'e"
  te_try_send :: "StreamerMsg \<Rightarrow> 'e \<Rightarrow> try_send_result \<times> 'e"
  te_write_head :: "'e \<Rightarrow> nat \<times> 'e"
  te_now_us :: "'e \<Rightarrow> u64 \<times> 'e"
  te_capture_quiesced :: "'e \<Rightarrow> bool \<times> 'e"

datatype tel_action = StoreFlag bool | Offered StreamerMsg try_send_result

record TelemetryCore =
  tc_vad :: VadStateMachine
  tc_segment_open :: bool
  tc_telemetry_drops :: u32
  tc_tick :: u32

text \<open>The hangover in ticks overflows only far above the largest hangover a pod accepts (\<open>None\<close>).\<close>

definition TelemetryCore_new :: "f32 \<Rightarrow> nat \<Rightarrow> TelemetryCore option" where
  "TelemetryCore_new threshold hangover_ms =
     map_option (\<lambda>ticks. \<lparr>tc_vad = VadStateMachine_new threshold ticks, tc_segment_open = False, tc_telemetry_drops = 0, tc_tick = 0\<rparr>)
       (vad_hangover_ticks_ms hangover_ms VAD_POLL_HZ)"

definition u32_saturating_add :: "u32 \<Rightarrow> u32 \<Rightarrow> u32" where
  "u32_saturating_add a b = (if unat a + unat b < 2 ^ 32 then a + b else - 1)"

definition drop_counted :: "TelemetryCore \<Rightarrow> TelemetryCore" where
  "drop_counted c = c\<lparr>tc_telemetry_drops := u32_saturating_add (tc_telemetry_drops c) 1\<rparr>"

definition F32_NEG_INFINITY :: f32 where "F32_NEG_INFINITY = 0xFF800000"

definition f32_max :: "f32 \<Rightarrow> f32 \<Rightarrow> f32" where
  "f32_max x y = (if f32_is_nan x then y else if f32_is_nan y then x else if f32_order x < f32_order y then y else x)"

definition note_vad_opened :: "'e telemetry_env \<Rightarrow> TelemetryCore \<Rightarrow> 'e \<Rightarrow> tel_action list \<times> TelemetryCore \<times> 'e" where
  "note_vad_opened te c e =
     (let (write_head, e1) = te_write_head te e;
          c1 = c\<lparr>tc_segment_open := True\<rparr>;
          (r, e2) = te_try_send te (VadOpened write_head) e1
      in if r \<noteq> SendOk
         then ([StoreFlag False, Offered (VadOpened write_head) r, StoreFlag True], (drop_counted c1)\<lparr>tc_segment_open := False\<rparr>, e2)
         else ([StoreFlag False, Offered (VadOpened write_head) r], c1, e2))"

definition note_vad_closed :: "'e telemetry_env \<Rightarrow> TelemetryCore \<Rightarrow> 'e \<Rightarrow> tel_action list \<times> TelemetryCore \<times> 'e" where
  "note_vad_closed te c e =
     (let c1 = c\<lparr>tc_segment_open := False\<rparr>; (r, e1) = te_try_send te VadClosed e
      in ([StoreFlag True, Offered VadClosed r], if r \<noteq> SendOk then drop_counted c1 else c1, e1))"

definition forward ::
  "'e telemetry_env \<Rightarrow> Reading \<Rightarrow> f32 list \<Rightarrow> u64 \<Rightarrow> TelemetryCore \<Rightarrow> 'e \<Rightarrow> tel_action list \<times> TelemetryCore \<times> 'e" where
  "forward te reading values device_ts_us c e =
     (let msg = TelemetryMsg \<lparr>tl_device_ts_us = device_ts_us, tl_kind = reading_kind reading values\<rparr>;
          (r, e1) = te_try_send te msg e
      in ([Offered msg r], if r = SendFull then drop_counted c else c, e1))"

text \<open>The part of a tick that a speech-energy reading drives, and the direction reading on its own cadence.\<close>

definition energy_tick ::
  "'e telemetry_env \<Rightarrow> f32 list \<Rightarrow> u64 \<Rightarrow> TelemetryCore \<Rightarrow> 'e \<Rightarrow> VadTransition \<times> tel_action list \<times> TelemetryCore \<times> 'e" where
  "energy_tick te sp now_us c e =
     (let (quiesced, e1) = te_capture_quiesced te e;
          max_energy = (if quiesced then F32_NEG_INFINITY else foldl f32_max F32_NEG_INFINITY sp);
          (transition, vad) = vad_update max_energy (tc_vad c);
          c1 = c\<lparr>tc_vad := vad\<rparr>;
          (as1, c2, e2) = (case transition of
             Opened \<Rightarrow> note_vad_opened te c1 e1 | Closed \<Rightarrow> note_vad_closed te c1 e1 | Unchanged \<Rightarrow> ([], c1, e1));
          (as2, c3, e3) = (if tc_segment_open c2 then forward te ReadSpEnergy sp now_us c2 e2 else ([], c2, e2))
      in (transition, as1 @ as2, c3, e3))"

definition doa_tick :: "'e telemetry_env \<Rightarrow> TelemetryCore \<Rightarrow> 'e \<Rightarrow> tel_action list \<times> TelemetryCore \<times> 'e" where
  "doa_tick te c e =
     (if unat (tc_tick c) mod DOA_EVERY_N_TICKS = 0 then
        (case te_read te ReadAzimuths e of
           (Some az, e1) \<Rightarrow>
             (if tc_segment_open c then let (doa_now_us, e2) = te_now_us te e1 in forward te ReadAzimuths az doa_now_us c e2
              else ([], c, e1))
         | (None, e1) \<Rightarrow> ([], c, e1))
      else ([], c, e))"

definition poll_tick ::
  "'e telemetry_env \<Rightarrow> TelemetryCore \<Rightarrow> 'e \<Rightarrow> VadTransition option \<times> tel_action list \<times> TelemetryCore \<times> 'e" where
  "poll_tick te c e =
     (let (sp_values, e1) = te_read te ReadSpEnergy e;
          (now_us, e2) = te_now_us te e1;
          (transition, as1, c1, e3) =
            (case sp_values of
               None \<Rightarrow> (None, [], c, e2)
             | Some sp \<Rightarrow> (case energy_tick te sp now_us c e2 of (t, as, c', e') \<Rightarrow> (Some t, as, c', e')));
          (as2, c2, e4) = doa_tick te c1 e3
      in (transition, as1 @ as2, c2\<lparr>tc_tick := tc_tick c2 + 1\<rparr>, e4))"

text \<open>The loop, by the number of its turns; \<open>after_tick\<close> and the sleep only move the environment.\<close>

fun run_telemetry_loop ::
  "'e telemetry_env \<Rightarrow> (TelemetryCore \<Rightarrow> 'e \<Rightarrow> 'e) \<Rightarrow> (nat \<Rightarrow> 'e \<Rightarrow> 'e) \<Rightarrow> nat \<Rightarrow> TelemetryCore \<Rightarrow> 'e \<Rightarrow>
     tel_action list \<times> TelemetryCore \<times> 'e" where
  "run_telemetry_loop te after_tick sleep_ms 0 c e = ([], c, e)"
| "run_telemetry_loop te after_tick sleep_ms (Suc n) c e =
     (case poll_tick te c e of
        (_, as, c1, e1) \<Rightarrow>
          (case run_telemetry_loop te after_tick sleep_ms n c1 (sleep_ms VAD_POLL_INTERVAL_MS (after_tick c1 e1)) of
             (as', c2, e2) \<Rightarrow> (as @ as', c2, e2)))"

section \<open>The protocol\<close>

text \<open>
  What the streamer can rely on: the flag, once it was stored, and whether a segment it was told of is still open.
  A release shows in the flag before its message; an onset finds the flag cleared; readings belong to an open segment.
\<close>

record tel_view =
  tv_flag :: "bool option"
  tv_open :: bool

fun view_action :: "tel_action \<Rightarrow> tel_view \<Rightarrow> tel_view option" where
  "view_action (StoreFlag b) v = (if tv_open v \<and> \<not> b then None else Some \<lparr>tv_flag = Some b, tv_open = False\<rparr>)"
| "view_action (Offered (VadOpened _) r) v =
     (if tv_flag v = Some False \<and> \<not> tv_open v then Some (v\<lparr>tv_open := (r = SendOk)\<rparr>) else None)"
| "view_action (Offered VadClosed r) v = (if tv_flag v = Some True \<and> \<not> tv_open v then Some v else None)"
| "view_action (Offered (TelemetryMsg _) r) v = (if tv_open v \<and> tv_flag v = Some False then Some v else None)"

fun view_actions :: "tel_action list \<Rightarrow> tel_view \<Rightarrow> tel_view option" where
  "view_actions [] v = Some v"
| "view_actions (a # as) v = Option.bind (view_action a v) (view_actions as)"

lemma view_actions_append: "view_actions (as @ bs) v = Option.bind (view_actions as v) (view_actions bs)"
  by (induction as arbitrary: v) (auto simp: bind_assoc split: Option.bind_splits)

definition core_view :: "TelemetryCore \<Rightarrow> tel_view \<Rightarrow> bool" where
  "core_view c v \<longleftrightarrow> tv_open v = tc_segment_open c \<and> (tc_segment_open c \<longrightarrow> is_open (tc_vad c)) \<and>
     (tv_flag v = None \<longrightarrow> \<not> is_open (tc_vad c)) \<and> (tv_flag v \<noteq> None \<longrightarrow> tv_flag v = Some (\<not> tc_segment_open c))"

lemma vad_update_open:
  assumes "vad_update x m = (t, m')"
  shows "t = Opened \<Longrightarrow> \<not> is_open m \<and> is_open m'" "t = Closed \<Longrightarrow> is_open m \<and> \<not> is_open m'" "t = Unchanged \<Longrightarrow> is_open m' = is_open m"
  using assms by (auto simp: vad_update_def is_open_def Let_def split: VadState.splits if_splits)

lemma drop_counted_keeps [simp]:
  "tc_vad (drop_counted c) = tc_vad c" "tc_segment_open (drop_counted c) = tc_segment_open c" "tc_tick (drop_counted c) = tc_tick c"
  by (simp_all add: drop_counted_def)

lemma forward_view:
  assumes "forward te reading values ts c e = (as, c', e')" "core_view c v" "tc_segment_open c"
  shows "view_actions as v = Some v \<and> core_view c' v"
  using assms by (auto simp: forward_def core_view_def Let_def split: prod.splits if_splits)

lemma energy_tick_view:
  assumes t: "energy_tick te sp now_us c e = (t, as, c', e')" and v: "core_view c v"
  shows "\<exists>v'. view_actions as v = Some v' \<and> core_view c' v'"
proof -
  obtain quiesced e1 where q: "te_capture_quiesced te e = (quiesced, e1)" by fastforce
  let ?x = "if quiesced then F32_NEG_INFINITY else foldl f32_max F32_NEG_INFINITY sp"
  obtain t1 vad where u: "vad_update ?x (tc_vad c) = (t1, vad)" by fastforce
  let ?c = "c\<lparr>tc_vad := vad\<rparr>"
  obtain as1 c2 e2 where n: "(case t1 of Opened \<Rightarrow> note_vad_opened te ?c e1 | Closed \<Rightarrow> note_vad_closed te ?c e1 | Unchanged \<Rightarrow> ([], ?c, e1))
      = (as1, c2, e2)" by (metis prod_cases3)
  note U = vad_update_open [OF u]
  have "\<exists>v1. view_actions as1 v = Some v1 \<and> core_view c2 v1"
  proof (cases t1)
    case Unchanged
    then show ?thesis using n v U(3) by (auto simp: core_view_def)
  next
    case Opened
    then show ?thesis using n v U(1)
      by (auto simp: core_view_def note_vad_opened_def Let_def split: prod.splits if_splits)
  next
    case Closed
    then show ?thesis using n v U(2)
      by (auto simp: core_view_def note_vad_closed_def Let_def split: prod.splits if_splits)
  qed
  then obtain v1 where v1: "view_actions as1 v = Some v1" "core_view c2 v1" by blast
  obtain as2 c3 e3 where f: "(if tc_segment_open c2 then forward te ReadSpEnergy sp now_us c2 e2 else ([], c2, e2)) = (as2, c3, e3)"
    by (metis prod_cases3)
  have "view_actions as2 v1 = Some v1 \<and> core_view c3 v1"
    using f v1(2) by (auto dest: forward_view [OF _ v1(2)] split: if_splits)
  moreover have "as = as1 @ as2" "c' = c3" using t q u n f by (auto simp: energy_tick_def Let_def)
  ultimately show ?thesis using v1(1) by (auto simp: view_actions_append)
qed

lemma doa_tick_view:
  assumes "doa_tick te c e = (as, c', e')" "core_view c v"
  shows "view_actions as v = Some v \<and> core_view c' v"
  using assms by (auto simp: doa_tick_def dest: forward_view [OF _ assms(2)] split: if_splits option.splits prod.splits)

lemma poll_tick_view:
  assumes p: "poll_tick te c e = (t, as, c', e')" and v: "core_view c v"
  shows "\<exists>v'. view_actions as v = Some v' \<and> core_view c' v'"
proof -
  obtain sp e1 where r: "te_read te ReadSpEnergy e = (sp, e1)" by fastforce
  obtain now_us e2 where w: "te_now_us te e1 = (now_us, e2)" by fastforce
  obtain t1 as1 c1 e3 where x: "(case sp of None \<Rightarrow> (None, [], c, e2)
      | Some sp \<Rightarrow> (case energy_tick te sp now_us c e2 of (t, as, c', e') \<Rightarrow> (Some t, as, c', e'))) = (t1, as1, c1, e3)"
    by (metis prod_cases4)
  obtain as2 c2 e4 where d: "doa_tick te c1 e3 = (as2, c2, e4)" by (metis prod_cases3)
  have "\<exists>v1. view_actions as1 v = Some v1 \<and> core_view c1 v1"
    using x v energy_tick_view [OF _ v] by (cases sp) (auto split: prod.splits)
  then obtain v1 where v1: "view_actions as1 v = Some v1" "core_view c1 v1" by blast
  have "as = as1 @ as2" "c' = c2\<lparr>tc_tick := tc_tick c2 + 1\<rparr>" using p r w x d by (auto simp: poll_tick_def Let_def)
  moreover have "view_actions as2 v1 = Some v1 \<and> core_view c2 v1" by (rule doa_tick_view [OF d v1(2)])
  ultimately show ?thesis using v1(1) by (auto simp: view_actions_append core_view_def)
qed

lemma telemetry_loop_view:
  assumes "run_telemetry_loop te after_tick sleep_ms n c e = (as, c', e')" "core_view c v"
  shows "\<exists>v'. view_actions as v = Some v' \<and> core_view c' v'"
  using assms
proof (induction n arbitrary: c e as v)
  case (Suc n)
  obtain t as1 c1 e1 where p: "poll_tick te c e = (t, as1, c1, e1)" by (metis prod_cases4)
  obtain as2 where r: "run_telemetry_loop te after_tick sleep_ms n c1 (sleep_ms VAD_POLL_INTERVAL_MS (after_tick c1 e1)) = (as2, c', e')"
    "as = as1 @ as2" using Suc.prems(1) p by (auto split: prod.splits)
  from poll_tick_view [OF p Suc.prems(2)] obtain v1 where v1: "view_actions as1 v = Some v1" "core_view c1 v1" by blast
  from Suc.IH [OF r(1) v1(2)] show ?case using v1(1) r(2) by (auto simp: view_actions_append)
qed auto

text \<open>A transport is asked at most \<open>max_retries + 1\<close> times.\<close>

lemma control_read_from_attempts:
  "control_read_from ct policy resid cmd len attempt e = (Some (payload, status, n), e') \<Longrightarrow> attempt \<le> rp_max_retries policy \<Longrightarrow>
     attempt < n \<and> n \<le> rp_max_retries policy + 1 \<and> (should_retry status \<longrightarrow> n = rp_max_retries policy + 1)"
proof (induction ct policy resid cmd len attempt e rule: control_read_from.induct)
  case (1 ct policy resid cmd len attempt e)
  then show ?case
    by (subst (asm) (2) control_read_from.simps) (fastforce simp: Let_def split: prod.splits option.splits if_splits)
qed

end
