(* ===== verification/Spec2Isabelle.thy ===== *)
theory Spec2Isabelle
  imports Prune Postcard_Ref Vad Playback_Drain Listener_Ring Endpointer Lane_Queue Telemetry_Poll
begin

text \<open>
  \<^bold>\<open>The pod audio transport.\<close> A pod is a room microphone and speaker. Its firmware gates speech on
  energy, streams the gated audio to a host over one TCP or TLS connection, and plays the audio the host sends
  back. The host decodes the pod's frames, follows its sessions, records them, and hands whole segments to the
  speech pipeline. This development models the transport between capture and host session,
  between the host's frames and the loudspeaker, and the host's record store, from the Rust sources under \<^verbatim>\<open>src/\<close>.

  \<^bold>\<open>Parts, and how they interact.\<close> The capture thread appends samples to a ring under a lock; the
  energy gate tells the streamer thread when speech starts and ends; the streamer keeps the
  connection, and for each utterance runs the segment loop, which copies samples out of the ring into
  frames, paces a backlog, and writes them through a resumable cursor while it pumps inbound
  frames. Inbound bytes are reassembled, decoded and routed to a playback sink, which banks PCM in a
  second ring that the playback thread drains into the sound card. On the host, a connection task
  cuts the byte stream into frames and feeds the session automaton; automata of different
  connections share a ledger of truncated segments. The assembler folds the automaton's events into segments;
  the recorder taps the frames into a frame log and labels the segments in a sidecar file beside it; the
  pruner deletes logs when the store outgrows its caps, while other processes pin and label them. The listener keeps recent audio
  by sample index, its endpointer decides where utterances start and end, and both its events and the segments reach the
  pipeline through one queue.

  \<^bold>\<open>Theories and sources.\<close> \<^verbatim>\<open>audio-pipeline\<close>, \<^verbatim>\<open>pod-streamer\<close>, \<^verbatim>\<open>xvf3800-ctrl\<close> and \<^verbatim>\<open>wifi-reconnect\<close> are crates of
  \<^verbatim>\<open>firmware/crates\<close>, \<^verbatim>\<open>reachy-pod\<close> is under \<^verbatim>\<open>firmware/devices\<close>, \<^verbatim>\<open>pod-ingest\<close>, \<^verbatim>\<open>speech-pipeline\<close> and
  \<^verbatim>\<open>speech-surface\<close> under \<^verbatim>\<open>host/crates\<close>.
  \<^item> \<open>Pod_Prelude\<close>: machine integers, byte order, slices, the clock, I/O errors, modular arithmetic.
  \<^item> \<open>Wire\<close>: \<^verbatim>\<open>audio-pipeline/src/wire.rs\<close>, frames, framing, both decoders; \<open>Postcard_Ref\<close> instantiates the
    serialisation crate.
  \<^item> \<open>Playback_Ring\<close>, \<open>Ring_Protocol\<close>, \<open>Playback_Sink\<close>: \<^verbatim>\<open>audio-pipeline/src/playback.rs\<close>; the ring's state and operations,
    the interleavings of its producer and consumer as an inductive relation, the speaker sink with its
    pre-roll gate. The locales \<open>banked_queue\<close>, \<open>playback_sink\<close> and \<open>banking_sink\<close> are the contracts
    between ring, sinks and the inbound path; each is interpreted on the model's operations.
  \<^item> \<open>Inbound\<close>: \<^verbatim>\<open>audio-pipeline/src/inbound.rs\<close>, reassembly, routing, the per-connection state, the sinks of that file.
  \<^item> \<open>Stream_Send\<close>: \<^verbatim>\<open>audio-pipeline/src/stream_send.rs\<close>, the blocking writer and the write cursor.
  \<^item> \<open>Capture_Ring\<close>, \<open>Vad\<close>, \<open>Pace\<close>: \<^verbatim>\<open>audio-pipeline/src/ring.rs\<close>, \<^verbatim>\<open>vad.rs\<close>, \<^verbatim>\<open>pace.rs\<close>, and the append of
    \<^verbatim>\<open>reachy-pod/src/alsa_capture.rs\<close>.
  \<^item> \<open>Playback_Drain\<close>: \<^verbatim>\<open>reachy-pod/src/playback.rs\<close>, the drain pass and loop.
  \<^item> \<open>Net_Poll\<close>, \<open>Segment\<close>: \<^verbatim>\<open>pod-streamer/src/netpoll.rs\<close>, \<^verbatim>\<open>link.rs\<close>, \<^verbatim>\<open>segment.rs\<close>; \<open>run_segment\<close> is a machine with one definition
    per block of the loop body.
  \<^item> \<open>Reconnect\<close>, \<open>Streamer\<close>: \<^verbatim>\<open>wifi-reconnect/src/lib.rs\<close>, \<^verbatim>\<open>pod-streamer/src/idle.rs\<close>, \<^verbatim>\<open>run.rs\<close>; \<open>run_streamer_loop\<close> composes connect,
    idle wait and drain, segment opening and the segment machine.
  \<^item> \<open>Telemetry_Poll\<close>: \<^verbatim>\<open>pod-streamer/src/telemetry.rs\<close> and the control reads of \<^verbatim>\<open>xvf3800-ctrl/src/lib.rs\<close>; the tick that drives the
    gate and tells the streamer of onsets and releases.
  \<^item> \<open>Ingest\<close>, \<open>Uplink\<close>: \<^verbatim>\<open>pod-ingest/src/clock.rs\<close>, \<^verbatim>\<open>session.rs\<close>, and the read loop of \<open>connection\<close> in
    \<^verbatim>\<open>speech-surface/src/server.rs\<close>.
  \<^item> \<open>Frame_Log\<close>: \<^verbatim>\<open>pod-ingest/src/framelog.rs\<close>, \<^verbatim>\<open>segref.rs\<close>, \<^verbatim>\<open>readback.rs\<close>; the log's writer, roll and reader, references to
    segments, the replay of a log.
  \<^item> \<open>Assembler\<close>: \<^verbatim>\<open>speech-pipeline/src/assembler.rs\<close> and the segment types of \<^verbatim>\<open>types.rs\<close>.
  \<^item> \<open>Sidecar\<close>, \<open>Recorder\<close>: \<^verbatim>\<open>speech-surface/src/recorder.rs\<close>; the sidecar with its locked rewrites, pins and labels; the recorder's
    operations, its latch and its file names. Each operation is a program of single actions (\<open>start_prog\<close>, \<open>tap_prog\<close>,
    \<open>hello_prog\<close>, \<open>segment_prog\<close>, \<open>roll_prog\<close>, \<open>latch_prog\<close>, \<open>finish_prog\<close>), since it holds no lock; the functions with the code's
    names run it alone.
  \<^item> \<open>Prune\<close>: \<^verbatim>\<open>speech-surface/src/prune.rs\<close>; inventory, the two phases and the guards of a deletion. \<open>store_step\<close>
    interleaves the critical sections of the processes on the store, \<open>recorder_step\<close> the single actions of one recorder with the
    steps of pruner, labellers and other connections (\<open>bystander\<close>).
  \<^item> \<open>Listener_Ring\<close>, \<open>Endpointer\<close>: \<^verbatim>\<open>speech-pipeline/src/listener/ring.rs\<close>, \<^verbatim>\<open>endpointer.rs\<close>, the listener's buffer and the state
    machine that cuts utterances.
  \<^item> \<open>Lane_Queue\<close>: \<^verbatim>\<open>speech-pipeline/src/queue.rs\<close>, the queue of segments and control events, with the interleavings of its senders
    and its receiver.

  \<^bold>\<open>Conventions.\<close> A struct is a record, an enum a datatype; \<open>u8\<close> to \<open>u64\<close> are words where the code can
  wrap or saturate and \<open>nat\<close> where it uses a length or an index. A panic is \<open>None\<close> or a panicked result, an
  \<open>Err\<close> is \<open>Inl\<close>. Sockets, clocks, poll, channels, other threads and the device are environment parameters: functions of an
  environment state that return the state after the call; what the proofs need of them is one named predicate
  each (\<open>writer_ok\<close>, \<open>reader_ok\<close>, \<open>seg_env_ok\<close>, \<open>runtime_ok\<close>, \<open>conn_env_ok\<close>, \<open>device_ok\<close>,
  \<open>file_ok\<close> and \<open>store_ok\<close> for log files, \<open>disk_ok\<close>, \<open>log_store_ok\<close> and \<open>read_dir_ok\<close> for the record store, \<open>codec_ok\<close> and
  \<open>sidecar_codec_ok\<close> for JSON), and each has a scripted instance. Code
  under a lock is one step. Error messages keep their ASCII head; log lines are not modelled, the
  counters and latches that decide when one is emitted are.

  \<^bold>\<open>What the theorems show.\<close> C1 to C6: the playback ring gives banked bytes in order to a consumer that checks
  the generation of every run, under every interleaving; a reset drops exactly what is older, the operations refine a queue;
  the Linux pod's drain plays each byte banked once, and boundaries between its passes drop exactly the older audio (a boundary inside
  a pass is not covered: that loop does not check for one). C7 to C13: reassembly does not depend on
  fragmentation, nothing reaches the sink before a Hello of the right version and format, the pump neither faults nor loses accepted frames. C14 to C16: round trip,
  agreement of the two decoders, exact error conditions. C18 to C20, C23: the writers keep the stream framed, give up exactly at the
  deadline, and every pump and wait ends. C21, C22, C33: what a peer receives, per segment and per connection, is
  the capture, in order and on frame boundaries. C24, C27, C28, C32: capture ring, gate, pre-roll,
  the ring's capacity condition (a wrong claim of a comment). C34: the telemetry thread never lets the streamer miss a release. Theorems
  beside them treat the format check, timestamps, waveform sums, pacing, sample expansion, the poll wait and the reconnect back-off. C35 to C37: the host hears that capture, remembers
  truncated segments, and its automaton is well formed for any peer. C38, C39: a frame log is read back as it was written, and the replay of a
  recorded session is its capture. C25: assembled segments are stretches of the capture, also across cuts. C26, C29, C30: what the listener carves is
  the capture, its endpointer keeps the protocol of an utterance, control events are never lost in the queue. C17, C31, C40: a prune pass keeps its
  budget, no interleaving takes a log from under its writer, and none loses a pin. Two theorems of \<open>Recorder\<close> show faults:
  the largest legal frame switches recording off, and the rename at the handshake leaves a pin behind.

  \<^bold>\<open>Bounds and fuel.\<close> Loops that end by themselves are total functions with measures (\<open>send_loop\<close>, \<open>consume_loop\<close>,
  \<open>drain_runs\<close>). \<open>run_segment\<close>, \<open>run_streamer_loop\<close> and \<open>connection\<close> run as long as their thread, so they are indexed by the number
  of turns and the theorems hold for every index. \<open>park_loop\<close> ends only if the clock moves, and is a
  partial function, as are \<open>read_loop\<close>, \<open>splice_loop\<close> and \<open>log_items\<close>, which end only if the reader does; C38 and C39 show that they return. The pump's cap is the code's own \<open>INBOUND_STEPS_PER_WAKE\<close>.

  \<^bold>\<open>Not modelled.\<close> Floating-point statistics (values are bit patterns); ALSA, I2S, TLS and Wi-Fi drivers; the ESP firmware
  around the shared crates; the host's playback pacer, the listener runtime around endpointer and
  ring, the brains, which are asynchronous tasks over channels, timers and model services; its HTTP surface and configuration; bench and command-line
  tools.
\<close>

section \<open>The inbound PCM ring\<close>

text \<open>
  C1. For a consumer that compares the generation of each run it copies with the generation it has acted on and
  leaves the run alone when they differ, as the drain of the ReSpeaker pod does: across every interleaving of its lock
  acquisitions with the producer's, resets included, starting from a fresh ring whose capacity divides \<open>2 ^ 32\<close>,
  the bytes committed to the output are banked bytes in banking order, none twice and none altered. (The drain of the Linux
  pod compares generations only at the head of a pass; C5 and C6 say what holds of it.)
\<close>

theorem played_is_banked_in_order:
  assumes "ring_reachable cap s" "0 < cap" "even cap" "cap dvd 2 ^ 32" "cap < 2 ^ 32"
  shows "sorted_wrt (<) (map fst (sys_played s)) \<and>
    (\<forall>(i, b) \<in> set (sys_played s). i < length (sys_written s) \<and> sys_written s ! i = b)"
proof -
  note D = ring_sys_invD [OF ring_reachable_inv [OF assms]]
  show ?thesis using D(4,10,11) by fastforce
qed

definition demo_ring :: RingState where
  "demo_ring = \<lparr>rs_head = 0, rs_tail = 0, rs_generation = 0, rs_head_at_reset = 0,
     rs_buf = [0, 0, 0, 0], rs_marks = [], rs_mark_overflow_warned = False\<rparr>"

lemma demo_ring_new: "InboundPcmRing_new 4 = Some demo_ring"
  by code_simp

definition demo_drained :: ring_sys where
  "demo_drained = \<lparr>sys_ring = demo_ring\<lparr>rs_buf := [1, 2, 0, 0], rs_head := 2, rs_tail := 2\<rparr>, sys_acted = 0,
     sys_staged = [], sys_written = [1, 2], sys_tail = 2, sys_reset = 0, sys_played = [(0, 1), (1, 2)]\<rparr>"

lemma demo_drained_reachable: "ring_reachable 4 demo_drained"
proof -
  let ?r = "demo_ring\<lparr>rs_buf := [1, 2, 0, 0], rs_head := 2\<rparr>"
  let ?s0 = "ring_sys_init demo_ring"
  let ?s1 = "?s0\<lparr>sys_ring := ?r, sys_written := sys_written ?s0 @ [1, 2]\<rparr>"
  let ?s2 = "?s1\<lparr>sys_staged := [1, 2]\<rparr>"
  have r0: "ring_reachable 4 ?s0" by (rule ring_reachable.start [OF demo_ring_new])
  have "write_pcm [1, 2] demo_ring = Some (True, ?r)" by code_simp
  then have s1: "ring_step ?s0 ?s1"
    by (intro ring_step.bank) (simp_all add: ring_sys_init_def demo_ring_def capacity_def)
  have "copy_run_into 4 [0, 0] ?r = (\<lparr>run_n = 2, run_generation = 0, run_reached_end_of_audio = False\<rparr>, [1, 2])"
    by code_simp
  then have s2: "ring_step ?s1 ?s2"
    using ring_step.copy [of 4 "[0, 0]" ?s1] by (simp add: ring_sys_init_def demo_ring_def)
  have "advance 2 ?r = Some (False, ?r\<lparr>rs_tail := 2\<rparr>)" by code_simp
  then have s3: "ring_step ?s2 demo_drained"
    using ring_step.consume [of 2 ?s2 False]
    by (simp add: ring_sys_init_def demo_ring_def demo_drained_def stamp_def numeral_2_eq_2)
  show ?thesis
    by (rule ring_reachable.step [OF ring_reachable.step [OF ring_reachable.step [OF r0 s1] s2] s3])
qed

theorem played_is_banked_in_order_witness:
  "ring_reachable 4 demo_drained \<and> map fst (sys_played demo_drained) = [0, 1] \<and>
    sorted_wrt (<) (map fst (sys_played demo_drained))"
  using played_is_banked_in_order [OF demo_drained_reachable] demo_drained_reachable
  by (simp add: demo_drained_def)


text \<open>
  C2. Acting on a pending reset drops exactly the bytes banked before the last reset: what
  the ring then holds is what was banked after it.
\<close>

theorem reset_drops_exactly_older:
  assumes "ring_reachable cap s" "0 < cap" "even cap" "cap dvd 2 ^ 32" "cap < 2 ^ 32"
    and "rs_generation (sys_ring s) \<noteq> sys_acted s" "apply_reset (sys_ring s) = (g, r')"
  shows "ring_contents r' = drop (sys_reset s) (sys_written s)"
  by (rule ring_sys_inv_apply(2) [OF ring_reachable_inv [OF assms(1-5)] assms(6,7)])

text \<open>One sample banked, a reset, and one sample banked behind it, none of it drained yet.\<close>

definition demo_reset :: ring_sys where
  "demo_reset = \<lparr>sys_ring = (ring_reset (demo_ring\<lparr>rs_buf := [1, 2, 0, 0], rs_head := 2\<rparr>))\<lparr>rs_buf := [1, 2, 3, 4], rs_head := 4\<rparr>,
     sys_acted = 0, sys_staged = [], sys_written = [1, 2, 3, 4], sys_tail = 0, sys_reset = 2, sys_played = []\<rparr>"

lemma demo_reset_reachable: "ring_reachable 4 demo_reset"
proof -
  let ?r1 = "demo_ring\<lparr>rs_buf := [1, 2, 0, 0], rs_head := 2\<rparr>"
  let ?r2 = "(ring_reset ?r1)\<lparr>rs_buf := [1, 2, 3, 4], rs_head := 4\<rparr>"
  let ?s0 = "ring_sys_init demo_ring"
  let ?s1 = "?s0\<lparr>sys_ring := ?r1, sys_written := sys_written ?s0 @ [1, 2]\<rparr>"
  let ?s2 = "?s1\<lparr>sys_ring := ring_reset (sys_ring ?s1), sys_reset := length (sys_written ?s1)\<rparr>"
  have r0: "ring_reachable 4 ?s0" by (rule ring_reachable.start [OF demo_ring_new])
  have w: "write_pcm [1, 2] demo_ring = Some (True, ?r1)" "write_pcm [3, 4] (ring_reset ?r1) = Some (True, ?r2)"
    by code_simp+
  have c: "capacity demo_ring = 4" "capacity (ring_reset ?r1) = 4"
    by (simp_all add: capacity_def ring_reset_def demo_ring_def)
  have "ring_step ?s0 ?s1" by (rule ring_step.bank) (use w c in \<open>simp_all add: ring_sys_init_def\<close>)
  moreover have "ring_step ?s1 ?s2" by (rule ring_step.reset)
  moreover have "ring_step ?s2 (?s2\<lparr>sys_ring := ?r2, sys_written := sys_written ?s2 @ [3, 4]\<rparr>)"
    by (rule ring_step.bank) (use w c in \<open>simp_all add: ring_sys_init_def\<close>)
  moreover have "?s2\<lparr>sys_ring := ?r2, sys_written := sys_written ?s2 @ [3, 4]\<rparr> = demo_reset"
    by (simp add: demo_reset_def ring_sys_init_def demo_ring_def numeral_2_eq_2)
  ultimately show ?thesis using r0 ring_reachable.step by (simp only:) blast
qed

theorem reset_drops_exactly_older_witness:
  "rs_generation (sys_ring demo_reset) \<noteq> sys_acted demo_reset \<and>
   ring_contents (sys_ring demo_reset) = [1, 2, 3, 4] \<and>
   ring_contents (snd (apply_reset (sys_ring demo_reset))) = [3, 4]"
proof -
  have g: "rs_generation (sys_ring demo_reset) \<noteq> sys_acted demo_reset"
    by (simp add: demo_reset_def ring_reset_def demo_ring_def)
  have "ring_contents (sys_ring demo_reset) = [1, 2, 3, 4]"
    by (simp add: demo_reset_def ring_reset_def demo_ring_def ring_contents_def ring_used_def upt_rec capacity_def)
  then show ?thesis using g reset_drops_exactly_older [OF demo_reset_reachable _ _ _ _ g,
        where g = "fst (apply_reset (sys_ring demo_reset))" and r' = "snd (apply_reset (sys_ring demo_reset))"]
    by (simp add: demo_reset_def)
qed

text \<open>
  C3. A write refines the queue: it never faults on a frame that fits the ring, appends
  exactly the frame when there is room for all of it, and otherwise changes nothing.
\<close>

theorem ring_write_refines_queue:
  assumes "ring_ok st" "need \<le> capacity st" "fill_ok need fill data"
  shows "\<exists>b st'. ring_write need fill st = Some (b, st') \<and> ring_ok st' \<and>
    (b \<longleftrightarrow> ring_used st + need \<le> capacity st) \<and>
    (b \<longrightarrow> ring_contents st' = ring_contents st @ data) \<and> (\<not> b \<longrightarrow> st' = st)"
proof (cases "ring_used st + need \<le> capacity st")
  case True
  then show ?thesis using ring_write_spec [OF assms(1,3)] by metis
next
  case False
  then show ?thesis using ring_write_full [OF assms(1,2)] assms(1) by auto
qed

lemma demo_ring_ok: "ring_ok demo_ring"
  using InboundPcmRing_new_ok [of 4] demo_ring_new by auto

theorem ring_write_refines_queue_witness:
  "\<exists>st'. ring_write 2 (\<lambda>off n. take n (drop off [7, 8])) demo_ring = Some (True, st') \<and>
     ring_contents st' = [7, 8]"
proof -
  have "fill_ok 2 (\<lambda>off n. take n (drop off [7, 8])) ([7, 8] :: bytes)" "2 \<le> capacity demo_ring"
    "ring_used demo_ring + 2 \<le> capacity demo_ring" "ring_contents demo_ring = []"
    using fill_ok_slice [of "[7, 8 :: u8]"]
    by (simp_all add: numeral_2_eq_2 capacity_def demo_ring_def ring_used_def ring_contents_def)
  then show ?thesis using ring_write_refines_queue [OF demo_ring_ok] by fastforce
qed

text \<open>
  C4. A drained run followed by its advance refines dequeue: the copied bytes and what
  stays behind are together what was banked, the run obeys the caller's limit and is not
  empty when there is something to give, and a run that reached an end-of-audio mark
  reports the mark when it is advanced past.
\<close>

theorem drained_run_refines_dequeue:
  assumes "ring_ok st" "copy_run_into m tx st = (run, tx')"
  shows "\<exists>b st'. advance (run_n run) st = Some (b, st') \<and> ring_ok st' \<and>
    take (run_n run) tx' @ ring_contents st' = ring_contents st \<and> run_n run \<le> m \<and>
    (0 < ring_used st \<and> 0 < m \<and> tx \<noteq> [] \<longrightarrow> 0 < run_n run) \<and>
    (run_reached_end_of_audio run \<longrightarrow> b)"
proof -
  have n: "run_n (fst (copy_run_into m tx st)) = run_n run" by (simp add: assms(2))
  obtain b st' where a: "advance (run_n run) st = Some (b, st')" "ring_ok st'"
    "ring_contents st' = drop (run_n run) (ring_contents st)"
    using advance_spec [OF assms(1) copy_run_into_n_bounds(1) [OF n]] by metis
  have "run_reached_end_of_audio run \<longrightarrow> b"
    by (rule copy_advance_mark [OF assms(2) a(1)])
  moreover have "take (run_n run) tx' = take (run_n run) (ring_contents st)"
    using copy_run_into_bytes(1) [OF assms(1) n] by (simp add: assms(2))
  ultimately show ?thesis
    using a copy_run_into_n_bounds(2) [OF n] copy_run_into_pos [OF assms(1), of m tx] n by auto
qed

definition demo_full :: RingState where
  "demo_full = demo_ring\<lparr>rs_buf := [1, 2, 0, 0], rs_head := 2\<rparr>"

lemma demo_full_ok: "ring_ok demo_full"
proof -
  have "capacity demo_full = 4" "ring_used demo_full = 2" "rs_marks demo_full = []"
    by (simp_all add: demo_full_def demo_ring_def capacity_def ring_used_def)
  then show ?thesis by (simp add: ring_ok_def)
qed

theorem drained_run_refines_dequeue_witness:
  "ring_ok demo_full \<and> (\<exists>b st'. advance 2 demo_full = Some (b, st') \<and> [1, 2] @ ring_contents st' = ring_contents demo_full)"
proof -
  have "copy_run_into 4 [0, 0] demo_full =
      (\<lparr>run_n = 2, run_generation = 0, run_reached_end_of_audio = False\<rparr>, [1, 2])" by code_simp
  from drained_run_refines_dequeue [OF demo_full_ok this] show ?thesis using demo_full_ok by auto
qed

section \<open>The Linux pod's drain\<close>

text \<open>
  C5. The drain thread, run for any number of passes from a fresh ring beside a streamer thread that banks whole
  samples and marks ends of audio before any of the drain's lock acquisitions, never faults, and all the bytes
  the streamer has banked are the bytes played followed by the bytes still in the ring: the sound card has been
  given the stereo expansion of the former, so each banked byte is played once, in banking order, or is still
  banked, and nothing else is played. A pass plays at most \<open>DRAIN_BYTES_PER_PASS\<close> bytes.
\<close>

theorem drain_loop_plays_banked:
  assumes "InboundPcmRing_new cap = Some ring" "0 < cap" "even cap" "cap dvd 2 ^ 32" "cap < 2 ^ 32"
    and "other_quiet other heard banked" "device_ok out heard banked"
  shows "\<exists>e d' r' x' played. run_drain_loop other out nows (PlaybackDrain_new ring) ring x = Some (e, d', r', x') \<and>
    banked x' = banked x @ played @ ring_contents r' \<and> heard x' = heard x @ stereo_of played \<and>
    even (length played) \<and> length played \<le> length nows * DRAIN_BYTES_PER_PASS"
proof -
  note start = playback_pair_sim [OF assms(1-5)]
  obtain e d' r' x' where r: "run_drain_loop other out nows (PlaybackDrain_new ring) ring x = Some (e, d', r', x')"
    and p: "plays heard banked (length nows * DRAIN_BYTES_PER_PASS) (ring_sys_init ring) x (d', r', x')"
    using run_drain_loop_plays [OF assms(6,7) start(1,2), of nows x] by auto
  from playsE [OF p] show ?thesis using r start(3) by (metis append_Nil)
qed

theorem drain_loop_plays_banked_witness:
  "\<exists>e d' r' x' played. run_drain_loop bank_script card_out [0, 0] (PlaybackDrain_new demo_ring) demo_ring
      \<lparr>sw_todo = [[1, 2]], sw_banked = [], sw_heard = []\<rparr> = Some (e, d', r', x') \<and>
    sw_banked x' = played @ ring_contents r' \<and> sw_heard x' = stereo_of played"
proof -
  have "(0 :: nat) < 4" "even (4 :: nat)" "(4 :: nat) dvd 2 ^ 32" "(4 :: nat) < 2 ^ 32" by simp_all
  from drain_loop_plays_banked [OF demo_ring_new this bank_script_quiet card_out_ok, of "[0, 0]"
      "\<lparr>sw_todo = [[1, 2]], sw_banked = [], sw_heard = []\<rparr>"]
  show ?thesis by auto
qed

text \<open>
  C6. Connection boundaries and flushes that fall between two passes drop exactly the older audio: at any point of
  the ring's life, whatever passes, banked audio, marks and boundaries (fewer than \<open>2 ^ 32\<close> since the last pass) came
  before, the next pass never faults, and the bytes \<open>l\<close> banked since the last boundary and not yet played, with those
  banked during the pass, are exactly the bytes the pass plays followed by what the ring then holds. Audio from before
  the boundary is not played, and none from after it is lost. A boundary inside a pass is excluded: the drain looks
  at the generation only at the head of a pass.
\<close>

theorem boundary_between_passes_drops_older:
  assumes "InboundPcmRing_new cap = Some ring" "0 < cap" "even cap" "cap dvd 2 ^ 32" "cap < 2 ^ 32"
    and "other_quiet other heard banked" "device_ok out heard banked" "drain_history other out ring d r x l k"
  shows "\<exists>e d' r' x' played bs. drain_pass other out now d r x = Some (e, d', r', x') \<and>
    banked x' = banked x @ bs \<and> l @ bs = played @ ring_contents r' \<and> heard x' = heard x @ stereo_of played \<and>
    length played \<le> DRAIN_BYTES_PER_PASS"
proof -
  obtain s where s: "sim d r s" "live_bytes s = l" using drain_history_sim [OF assms(8,6,7,1-5)] by blast
  obtain e d' r' x' where r: "drain_pass other out now d r x = Some (e, d', r', x')"
    and p: "plays heard banked DRAIN_BYTES_PER_PASS s x (d', r', x')"
    using drain_pass_plays [OF assms(6,7) s(1), of now x] by auto
  from playsE [OF p] show ?thesis using r s(2) by metis
qed

text \<open>One sample banked, a boundary, one sample banked behind it, and then a pass.\<close>

lemma demo_history:
  "drain_history bank_script card_out demo_ring (PlaybackDrain_new demo_ring) (sys_ring demo_reset)
     \<lparr>sw_todo = [], sw_banked = [], sw_heard = []\<rparr> [3, 4] 1"
proof -
  let ?r1 = "demo_ring\<lparr>rs_buf := [1, 2, 0, 0], rs_head := 2\<rparr>" and ?x = "\<lparr>sw_todo = [], sw_banked = [], sw_heard = []\<rparr>"
  let ?H = "drain_history bank_script card_out demo_ring (PlaybackDrain_new demo_ring)"
  have "write_pcm [1, 2] demo_ring = Some (True, ?r1)" by code_simp
  then have "quiet_op demo_ring [1, 2] ?r1"
    using quiet_op.bank [of "[1, 2]" demo_ring True ?r1] by (simp add: demo_ring_def capacity_def)
  then have "?H ?r1 ?x [1, 2] 0" using drain_history.between [OF drain_history.fresh] by force
  then have b: "?H (ring_reset ?r1) ?x [] 1" using drain_history.boundary by force
  have "write_pcm [3, 4] (ring_reset ?r1) = Some (True, sys_ring demo_reset)" by code_simp
  then have "quiet_op (ring_reset ?r1) [3, 4] (sys_ring demo_reset)"
    using quiet_op.bank [of "[3, 4]" "ring_reset ?r1" True "sys_ring demo_reset"]
    by (simp add: demo_ring_def capacity_def ring_reset_def)
  then show ?thesis using drain_history.between [OF b] by force
qed

theorem boundary_between_passes_drops_older_witness:
  "\<exists>e d' r' x' played bs. drain_pass bank_script card_out 0 (PlaybackDrain_new demo_ring) (sys_ring demo_reset)
      \<lparr>sw_todo = [], sw_banked = [], sw_heard = []\<rparr> = Some (e, d', r', x') \<and>
    sw_banked x' = bs \<and> [3, 4] @ bs = played @ ring_contents r' \<and> sw_heard x' = stereo_of played"
proof -
  have "(0 :: nat) < 4" "even (4 :: nat)" "(4 :: nat) dvd 2 ^ 32" "(4 :: nat) < 2 ^ 32" by simp_all
  from boundary_between_passes_drops_older [OF demo_ring_new this bank_script_quiet card_out_ok demo_history, of 0]
  show ?thesis by auto
qed

section \<open>Inbound reassembly\<close>

text \<open>
  C7. However the transport cuts a byte stream into reads, a pump with enough steps over a
  sink that does not refuse leaves the sink, the connection state, the observer's calls and
  the bytes left over exactly as one consumption of the whole stream does; a fault of the
  stream is reported as the same fault.
\<close>

theorem reassembly_ignores_fragmentation:
  assumes "never_full ops" "acc_ok acc" "stalled (pending acc)" "[] \<notin> set cs" "length (concat cs) < max_steps"
  shows "pump_result (consume_bytes pc ops 0 (pending acc @ concat cs) rt)
           (pump_inbound pc ops script_read max_steps cs acc rt)"
  by (rule pump_fragmentation [OF assms])

definition counting_start :: "CountingSink route" where
  "counting_start = \<lparr>rt_sink = CountingSink_new, rt_conn = InboundConnectionState_new, rt_obs = []\<rparr>"

theorem reassembly_ignores_fragmentation_witness:
  "pump_result (consume_bytes postcard_ref CountingSink_ops 0 [1, 0, 6] counting_start)
     (pump_inbound postcard_ref CountingSink_ops script_read 5 [[1], [0, 6]] FrameAccumulator_new counting_start)"
  using reassembly_ignores_fragmentation [OF counting_never_full acc_ok_new, of "[[1], [0, 6]]" 5 postcard_ref counting_start]
  by simp

text \<open>
  C8. The accumulator refines the byte stream: the loop over the compacting buffer computes
  what the specification computes on the pending bytes, and keeps the buffer well formed.
\<close>

theorem consume_frames_refines_stream:
  assumes "acc_ok acc"
  shows "abs_result (consume_frames pc ops acc rt) = consume_bytes pc ops 0 (pending acc) rt \<and>
    (\<forall>r acc' rt'. consume_frames pc ops acc rt = Some (r, acc', rt') \<longrightarrow> acc_ok acc')"
  using consume_loop_refines [OF assms] consume_loop_acc_ok [OF assms] by (auto simp: consume_frames_def)

definition flush_acc :: FrameAccumulator where
  "flush_acc = FrameAccumulator_new\<lparr>fa_buf := [1, 0, 6] @ replicate 4095 0, fa_valid := 3\<rparr>"

lemma flush_acc_ok: "acc_ok flush_acc" "pending flush_acc = [1, 0, 6]"
  by (simp_all add: flush_acc_def acc_ok_def pending_def MAX_FRAME_BYTES_def)

theorem consume_frames_refines_stream_witness:
  "acc_ok flush_acc \<and> pending flush_acc = [1, 0, 6] \<and>
   abs_result (consume_frames postcard_ref CountingSink_ops flush_acc counting_start) =
     consume_bytes postcard_ref CountingSink_ops 0 [1, 0, 6] counting_start"
  using consume_frames_refines_stream [OF flush_acc_ok(1), of postcard_ref CountingSink_ops counting_start] flush_acc_ok by simp

text \<open>
  C9. Handshake: take any connection from its first byte (empty accumulator, no Hello seen), any socket, and any
  sequence of drains with whatever the consumer does to the sink in between. If a drain then changes the sink, in
  whatever way and whether or not it ends in a fault, what the socket had delivered since the connection began
  opens with whole frames of kinds the device ignores, followed by a whole frame that decodes to a Hello with
  the protocol version and the device's own playback format.
\<close>

theorem nothing_played_before_hello:
  assumes "reads_logged rd got" "acc_ok acc0" "pending acc0 = []" "\<not> ic_seen_hello (rt_conn rt0)"
    and "(inbound_step pc ops rd)\<^sup>*\<^sup>* (r0, acc0, rt0) (r, acc, rt)"
    and "drain_inbound pc ops rd r acc rt = Some (res, r', acc', rt')" "rt_sink rt' \<noteq> rt_sink rt"
  shows "\<exists>fs h rest. got r' = got r0 @ concat fs @ h @ rest \<and> bystanders pc fs \<and> whole_frame h \<and> hello_accepted pc h"
proof -
  obtain past where "acc_ok acc" "got r = got r0 @ past @ pending acc" "greet_inv pc (ic_seen_hello (rt_conn rt)) past"
    using inbound_steps_greet [OF assms(1,5,2,3,4)] by auto
  then have "\<exists>bs. got r' = got r0 @ bs \<and> greeted pc bs"
    using drain_inbound_greet [OF assms(1,6), where ?g0.0 = "got r0"] assms(7) by blast
  then show ?thesis by (auto simp: greeted_def)
qed

lemma postcard_ref_flush: "pc_to_vec postcard_ref FFlushPlayback = [6]"
  by (simp add: postcard_ref_def ser_u32_def varint.simps)

text \<open>A socket that keeps what it has delivered, over scripted chunks.\<close>

fun log_read :: "(bytes list \<times> bytes) reader" where
  "log_read room (cs, got) =
     (case script_read room cs of
        (ReadOk bs, cs') \<Rightarrow> (ReadOk bs, (cs', got @ bs))
      | (ReadErr e, cs') \<Rightarrow> (ReadErr e, (cs', got)))"

lemma log_read_logged: "reads_logged log_read snd"
proof -
  have "length bs \<le> room" if "script_read room cs = (ReadOk bs, cs')" for room cs bs cs'
    using that by (cases cs) auto
  then show ?thesis by (auto simp: reads_logged_def split: prod.splits read_result.splits)
qed

definition greeting_hello :: Hello where
  "greeting_hello = \<lparr>hl_version = AUDIO_PROTOCOL_VERSION, hl_pod_id = [112],
     hl_sample_rate_hz = pf_sample_rate_hz DEVICE_PLAYBACK_FORMAT, hl_bits_per_sample = pf_bits_per_sample DEVICE_PLAYBACK_FORMAT,
     hl_channels = pf_channels DEVICE_PLAYBACK_FORMAT, hl_codec = pf_codec DEVICE_PLAYBACK_FORMAT,
     hl_channel_source = AsrBeam\<rparr>"

text \<open>A Hello in one read and a flush in the next.\<close>

lemma greeting_sizes:
  "length (pc_to_vec postcard_ref (FHello greeting_hello)) \<le> 100"
  by (simp add: greeting_hello_def postcard_ref_def ser_u32_def ser_hello_def ser_bytes_def ser_tag_def varint.simps DEVICE_PLAYBACK_FORMAT_def)

lemma drain_one_chunk:
  assumes "c \<noteq> []" "length c \<le> 200" "acc_ok acc" "pending acc = []"
    and "consume_bytes pc ops 0 c rt = Some (Inr m, [], rt')"
  shows "\<exists>d acc'. drain_inbound pc ops log_read (c # cs, got) acc rt = Some (Inr d, (cs, got @ c), acc', rt') \<and>
    acc_ok acc' \<and> pending acc' = []"
proof -
  let ?acc = "acc\<lparr>fa_buf := splice_at (fa_buf acc) (fa_valid acc) c, fa_valid := fa_valid acc + length c\<rparr>"
  have a: "length (fa_buf acc) = MAX_FRAME_BYTES + 2" "fa_valid acc = 0"
    using assms(3) length_pending [OF assms(3)] assms(4) by (auto simp: acc_ok_def)
  have "length c \<le> MAX_FRAME_BYTES + 2 - fa_valid acc" using assms(2) a by (simp add: MAX_FRAME_BYTES_def)
  then have f: "acc_ok ?acc" "pending ?acc = c" "length c \<le> length (fa_buf acc) - fa_valid acc"
    using fill_pending [OF assms(3), of c] assms(4) a by simp_all
  obtain acc' where "consume_frames pc ops ?acc rt = Some (Inr m, acc', rt')" "acc_ok acc'" "pending acc' = []"
    using consume_frames_view [OF f(1), of pc ops rt] assms(5) unfolding f(2) by auto
  then show ?thesis using a f(3) assms(1)
    by (cases c) (auto simp: drain_inbound_def drain_finish_def MAX_FRAME_BYTES_def)
qed

definition greeted_route :: "CountingSink route" where
  "greeted_route = counting_start\<lparr>rt_conn := InboundConnectionState_new\<lparr>ic_seen_hello := True\<rparr>,
      rt_obs := [HelloOk DEVICE_PLAYBACK_FORMAT]\<rparr>"

lemma greeting_consumed:
  "consume_bytes postcard_ref CountingSink_ops 0 (wire_frame postcard_ref (FHello greeting_hello)) counting_start =
    Some (Inr 0, [], greeted_route)"
  using consume_wire_frame [OF postcard_ref_ok, of "FHello greeting_hello" CountingSink_ops 0 counting_start 0 _ "[]"]
    greeting_sizes
  by (simp add: greeted_route_def greeting_hello_def route_frame_def counting_start_def check_inbound_format_def
      DEVICE_PLAYBACK_FORMAT_def MAX_FRAME_BYTES_def InboundConnectionState_new_def consume_stalled)

lemma flush_consumed:
  "consume_bytes postcard_ref CountingSink_ops 0 (wire_frame postcard_ref FFlushPlayback) greeted_route =
    Some (Inr 0, [], greeted_route\<lparr>rt_sink := counting_flush_playback (rt_sink greeted_route)\<rparr>)"
  using consume_wire_frame [OF postcard_ref_ok, of FFlushPlayback CountingSink_ops 0 greeted_route 0 _ "[]"]
  by (simp add: route_frame_def greeted_route_def MAX_FRAME_BYTES_def consume_stalled postcard_ref_flush)

theorem nothing_played_before_hello_witness:
  "\<exists>fs h rest. wire_frame postcard_ref (FHello greeting_hello) @ wire_frame postcard_ref FFlushPlayback = concat fs @ h @ rest \<and>
     bystanders postcard_ref fs \<and> whole_frame h \<and> hello_accepted postcard_ref h"
proof -
  let ?hello = "wire_frame postcard_ref (FHello greeting_hello)" and ?flush = "wire_frame postcard_ref FFlushPlayback"
  let ?drain = "drain_inbound postcard_ref CountingSink_ops log_read"
  have len: "?hello \<noteq> []" "length ?hello \<le> 200" "?flush \<noteq> []" "length ?flush \<le> 200"
    using greeting_sizes by (simp_all add: wire_frame_def postcard_ref_flush)
  obtain acc1 d1 where one: "?drain ([?hello, ?flush], []) FrameAccumulator_new counting_start =
      Some (Inr d1, ([?flush], ?hello), acc1, greeted_route)" "acc_ok acc1" "pending acc1 = []"
    using drain_one_chunk [OF len(1,2) acc_ok_new pending_new greeting_consumed, of "[?flush]" "[]"] by auto
  obtain acc2 d2 where two: "?drain ([?flush], ?hello) acc1 greeted_route =
      Some (Inr d2, ([], ?hello @ ?flush), acc2, greeted_route\<lparr>rt_sink := counting_flush_playback (rt_sink greeted_route)\<rparr>)"
    using drain_one_chunk [OF len(3,4) one(2,3) flush_consumed, of "[]" ?hello] by auto
  have "(inbound_step postcard_ref CountingSink_ops log_read)\<^sup>*\<^sup>* (([?hello, ?flush], []), FrameAccumulator_new, counting_start)
      (([?flush], ?hello), acc1, greeted_route)"
    using inbound_step.drained [OF one(1)] by blast
  from nothing_played_before_hello [OF log_read_logged acc_ok_new pending_new _ this two] show ?thesis
    by (simp add: counting_start_def greeted_route_def counting_flush_playback_def CountingSink_new_def InboundConnectionState_new_def)
qed

text \<open>
  C10. No panic on the inbound path: over the speaker sink with a ring that holds a largest
  frame, and any socket that respects the length of the buffer it is given, the pump
  returns, whatever the peer sends, and accumulator and ring stay well formed.
\<close>

theorem pump_never_faults:
  assumes "reader_ok rd" "acc_ok acc" "i2s_ok (rt_sink rt)"
  shows "\<exists>res r' acc' rt'. pump_inbound pc I2sStreamSink_ops rd max_steps r acc rt = Some (res, r', acc', rt') \<and>
    acc_ok acc' \<and> i2s_ok (rt_sink rt')"
  by (rule i2s.pump_inbound_total [OF assms])

definition speaker_start :: "sink_state route" where
  "speaker_start = \<lparr>rt_sink = with_producer (InboundPcmRing_new 2048),
     rt_conn = InboundConnectionState_new\<lparr>ic_seen_hello := True\<rparr>, rt_obs = []\<rparr>"

lemma speaker_start_ok:
  obtains sk ring where "rt_sink speaker_start = (sk, Some ring)" "ring_ok ring" "ring_contents ring = []"
    "capacity ring = 2048" "i2s_ok (rt_sink speaker_start)"
proof -
  obtain ring where "InboundPcmRing_new 2048 = Some ring" "ring_ok ring" "ring_contents ring = []" "capacity ring = 2048"
    by (rule InboundPcmRing_new_ok [of 2048]) simp_all
  then show ?thesis
    using that by (simp add: speaker_start_def with_producer_def i2s_ok_def MAX_AUDIO_PAYLOAD_def)
qed

theorem pump_never_faults_witness:
  "\<exists>res r' acc' rt'. pump_inbound postcard_ref I2sStreamSink_ops script_read 3 [[1], [0, 6]] FrameAccumulator_new speaker_start
      = Some (res, r', acc', rt') \<and> acc_ok acc' \<and> i2s_ok (rt_sink rt')"
proof -
  have "i2s_ok (rt_sink speaker_start)" by (rule speaker_start_ok)
  from pump_never_faults [OF script_read_ok acc_ok_new this] show ?thesis .
qed

text \<open>
  C11. Nothing is lost and nothing invented between the accumulator and the ring: the bytes
  a call takes off the stream are whole frames, and the ring grows by exactly the PCM of
  the well-formed Audio frames among them, in order; without a fault, what is not taken is
  still pending.
\<close>

theorem consumed_frames_are_banked:
  assumes "acc_ok acc" "i2s_ok (rt_sink rt)" "consume_frames pc I2sStreamSink_ops acc rt = Some (r, acc', rt')"
  shows "\<exists>fs suf. (\<forall>f \<in> set fs. whole_frame f) \<and> pending acc = concat fs @ suf \<and>
    i2s_banked (rt_sink rt') = i2s_banked (rt_sink rt) @ concat (map (frame_pcm pc) fs) \<and>
    pending acc' = (case r of Inr _ \<Rightarrow> suf | Inl _ \<Rightarrow> [])"
proof -
  have "consume_bytes pc I2sStreamSink_ops 0 (pending acc) rt = Some (r, pending acc', rt')"
    using consume_loop_refines [OF assms(1), of pc I2sStreamSink_ops 0 rt] assms(3) by (simp add: consume_frames_def)
  then show ?thesis by (rule i2s.consume_bytes_banked [OF assms(2)])
qed

theorem consumed_frames_are_banked_witness:
  "\<exists>r acc' rt' fs suf. consume_frames postcard_ref I2sStreamSink_ops flush_acc speaker_start = Some (r, acc', rt') \<and>
    [1, 0, 6] = concat fs @ suf \<and>
    i2s_banked (rt_sink rt') = i2s_banked (rt_sink speaker_start) @ concat (map (frame_pcm postcard_ref) fs)"
proof -
  have ok: "i2s_ok (rt_sink speaker_start)" by (rule speaker_start_ok)
  obtain r acc' rt' where c: "consume_frames postcard_ref I2sStreamSink_ops flush_acc speaker_start = Some (r, acc', rt')"
    using i2s.consume_frames_total [OF flush_acc_ok(1) ok] by blast
  from consumed_frames_are_banked [OF flush_acc_ok(1) ok c] c show ?thesis
    unfolding flush_acc_ok(2) by blast
qed

text \<open>
  C12. End to end: the Audio frames the host encodes, sent back to back after the handshake,
  arrive in the ring as the concatenation of their PCM whenever the ring has room for it.
\<close>

theorem encoded_audio_reaches_ring:
  assumes "postcard_ok pc" "\<forall>a \<in> set as. audio_sendable pc a" "ic_seen_hello (rt_conn rt)" "i2s_ok (rt_sink rt)"
    and "snd (rt_sink rt) = Some ring" "ring_used ring + length (concat (map af_pcm as)) \<le> capacity ring"
    and "acc_ok acc" "pending acc = audio_stream pc as"
  shows "\<exists>acc' rt' ring'. consume_frames pc I2sStreamSink_ops acc rt = Some (Inr (of_nat (length as)), acc', rt') \<and>
    pending acc' = [] \<and> snd (rt_sink rt') = Some ring' \<and>
    ring_contents ring' = ring_contents ring @ concat (map af_pcm as)"
  using audio_stream_banked [OF assms(1-6), of 0] consume_frames_view [OF assms(7), of pc I2sStreamSink_ops rt] assms(8)
  by (fastforce split: option.splits)

definition demo_audio :: AudioFrame where
  "demo_audio = \<lparr>af_segment_id = 0, af_first_sample_index = 0, af_device_ts_us = 0, af_pcm = [10, 20]\<rparr>"

lemma demo_audio_bytes: "pc_to_vec postcard_ref (FAudio demo_audio) = [2, 0, 0, 0, 2, 10, 20]"
  by (simp add: postcard_ref_def ser_u32_def ser_u64_def varint.simps demo_audio_def)

lemma demo_audio_sendable: "audio_sendable postcard_ref demo_audio"
  by (simp add: audio_sendable_def demo_audio_bytes is_valid_s16le_pcm_def MAX_FRAME_BYTES_def)
    (simp add: demo_audio_def MAX_AUDIO_PAYLOAD_def)

definition audio_acc :: FrameAccumulator where
  "audio_acc = FrameAccumulator_new\<lparr>fa_buf := [7, 0, 2, 0, 0, 0, 2, 10, 20] @ replicate 4089 0, fa_valid := 9\<rparr>"

theorem encoded_audio_reaches_ring_witness:
  "\<exists>acc' rt' ring'. consume_frames postcard_ref I2sStreamSink_ops audio_acc speaker_start = Some (Inr 1, acc', rt') \<and>
    snd (rt_sink rt') = Some ring' \<and> ring_contents ring' = [10, 20]"
proof -
  obtain sk ring where s: "rt_sink speaker_start = (sk, Some ring)" "ring_ok ring" "ring_contents ring = []"
    "capacity ring = 2048" "i2s_ok (rt_sink speaker_start)" by (rule speaker_start_ok)
  have u: "ring_used ring = 0" using arg_cong [OF s(3), of length] by simp
  have acc: "acc_ok audio_acc" "pending audio_acc = audio_stream postcard_ref [demo_audio]"
    by (simp_all add: audio_acc_def acc_ok_def pending_def MAX_FRAME_BYTES_def audio_stream_def wire_frame_def demo_audio_bytes)
  have "ic_seen_hello (rt_conn speaker_start)" by (simp add: speaker_start_def)
  from encoded_audio_reaches_ring [OF postcard_ref_ok _ this s(5) _ _ acc, of ring] s u demo_audio_sendable
  show ?thesis by (auto simp: demo_audio_def)
qed

text \<open>
  C13. Backpressure cannot deadlock the connection: when a call that did not fault leaves
  the accumulator without room, so that the read is skipped, the head of the accumulator is
  a complete frame of legal length, the very one the next call offers to the sink again.
\<close>

theorem no_room_means_frame_held:
  assumes "acc_ok acc" "consume_frames pc ops acc rt = Some (Inr n, acc', rt')" "\<not> inbound_has_room acc'"
  shows "has_complete_frame_held acc' \<and> fa_payload_len acc' \<le> MAX_FRAME_BYTES"
proof -
  have ok: "acc_ok acc'" using assms(1,2) consume_loop_acc_ok by (auto simp: consume_frames_def)
  have "consume_bytes pc ops 0 (pending acc) rt = Some (Inr n, pending acc', rt')"
    using consume_loop_refines [OF assms(1), of pc ops 0 rt] assms(2) by (simp add: consume_frames_def)
  then have "frame_ready (pending acc')"
    using consume_bytes_leaves full_not_stalled [OF ok assms(3)] by blast
  then show ?thesis
    using held_iff_ready [OF ok] prefix_len_pending [OF ok] length_pending [OF ok] by (auto simp: frame_ready_def)
qed

definition refusing_sink :: "CountingSink PlaybackSink" where
  "refusing_sink = CountingSink_ops\<lparr>op_accept := \<lambda>pcm s. Some (Full, s)\<rparr>"

definition full_acc :: FrameAccumulator where
  "full_acc = \<lparr>fa_buf = [7, 0, 2, 0, 0, 0, 2, 10, 20] @ replicate 4089 0, fa_valid = 4098\<rparr>"

lemma full_acc_consume:
  "consume_frames postcard_ref refusing_sink full_acc (counting_start\<lparr>rt_conn := \<lparr>ic_seen_hello = True, ic_inbound_frames = 0\<rparr>\<rparr>)
     = Some (Inr 0, full_acc, counting_start\<lparr>rt_conn := \<lparr>ic_seen_hello = True, ic_inbound_frames = 0\<rparr>\<rparr>)"
proof -
  have "decode_inbound postcard_ref [7, 0, 2, 0, 0, 0, 2, 10, 20] = Inr (inbound_view (FAudio demo_audio))"
    using decode_inbound_payload [OF postcard_ref_ok, of "FAudio demo_audio"] demo_audio_sendable
    by (simp add: strip_prefix_def u16_from_le_bytes_def MAX_FRAME_BYTES_def demo_audio_bytes audio_sendable_def)
  moreover have "fa_payload_len full_acc = 7"
    by (simp add: fa_payload_len_def full_acc_def u16_from_le_bytes_def)
  moreover have "take 9 (fa_buf full_acc) = [7, 0, 2, 0, 0, 0, 2, 10, 20]" "fa_valid full_acc = 4098"
    by (simp_all add: full_acc_def)
  ultimately show ?thesis
    unfolding consume_frames_def
    by (subst consume_loop.simps) (simp add: MAX_FRAME_BYTES_def route_frame_def refusing_sink_def counting_start_def)
qed

theorem no_room_means_frame_held_witness:
  "has_complete_frame_held full_acc \<and> \<not> inbound_has_room full_acc"
proof -
  have "acc_ok full_acc" "\<not> inbound_has_room full_acc"
    by (simp_all add: full_acc_def acc_ok_def inbound_has_room_def MAX_FRAME_BYTES_def)
  then show ?thesis using no_room_means_frame_held [OF _ full_acc_consume] by simp
qed

section \<open>Wire protocol\<close>

text \<open>
  C14. Round trip: what the encoder writes, the owning decoder reads back as the same frame,
  whatever follows it in the buffer.
\<close>

theorem encode_decode_roundtrip:
  assumes "postcard_ok pc" "frame_fits f" "encode_frame pc f buf = Inr (n, buf')"
  shows "decode_frame pc (take n buf' @ rest) = Inr f"
proof -
  have "strip_prefix (take n buf' @ rest) = Inr (pc_to_vec pc f)"
    using strip_prefix_framed [OF encode_frame_Inr(4) [OF assms(3)], of rest] encode_frame_Inr(5) [OF assms(3)] by simp
  then show ?thesis using postcard_okD(4) [OF assms(1,2)] by (simp add: decode_frame_def)
qed

theorem encode_decode_roundtrip_witness:
  "encode_frame postcard_ref FFlushPlayback [0, 0, 0, 0] = Inr (3, [1, 0, 6, 0]) \<and>
   decode_frame postcard_ref ([1, 0, 6] @ [9]) = Inr FFlushPlayback"
proof -
  have e: "encode_frame postcard_ref FFlushPlayback [0, 0, 0, 0] = Inr (3, [1, 0, 6, 0])"
    by (simp add: encode_frame_def postcard_ref_flush MAX_FRAME_BYTES_def splice_at_def)
  then show ?thesis using encode_decode_roundtrip [OF postcard_ref_ok _ e, of "[9]"] by simp
qed

text \<open>
  C15. The zero-copy inbound decoder agrees with the encoder: on an encoded frame it returns
  the device's view of that frame.
\<close>

theorem decode_inbound_agrees:
  assumes "postcard_ok pc" "frame_fits f" "encode_frame pc f buf = Inr (n, buf')"
  shows "decode_inbound pc (take n buf') = Inr (inbound_view f)"
  by (rule decode_inbound_payload [OF assms(1,2) encode_frame_strip [OF assms(3)]])

theorem decode_inbound_agrees_witness:
  "decode_inbound postcard_ref [1, 0, 6] = Inr InFlush"
proof -
  have e: "encode_frame postcard_ref FFlushPlayback [0, 0, 0] = Inr (3, [1, 0, 6])"
    by (simp add: encode_frame_def postcard_ref_flush MAX_FRAME_BYTES_def splice_at_def)
  then show ?thesis using decode_inbound_agrees [OF postcard_ref_ok _ e] by simp
qed

text \<open>
  C16. Encoding is total and exact: it succeeds exactly when prefix and payload fit the buffer and the payload
  is within the frame bound, and then returns the length of the wire frame and the buffer with the wire frame at its
  front and the rest untouched. A buffer without room for the prefix is \<open>BufferTooSmall\<close>, one without room for
  the payload is the serialiser's error, and a payload over the bound is \<open>PayloadTooLarge\<close>, each exactly then. The bound
  is the peer's: of the frames whose length the prefix can express, the receiver's prefix check accepts those
  the encoder's bound admits and rejects the others as oversize.
\<close>

theorem encode_frame_exact:
  "(\<forall>n buf'. encode_frame pc f buf = Inr (n, buf') \<longleftrightarrow>
      length (pc_to_vec pc f) + 2 \<le> length buf \<and> length (pc_to_vec pc f) \<le> MAX_FRAME_BYTES \<and>
      n = 2 + length (pc_to_vec pc f) \<and> buf' = wire_frame pc f @ drop n buf) \<and>
   (encode_frame pc f buf = Inl BufferTooSmall \<longleftrightarrow> length buf < 2) \<and>
   (encode_frame pc f buf = Inl EncPostcardError \<longleftrightarrow> 2 \<le> length buf \<and> length buf < length (pc_to_vec pc f) + 2) \<and>
   (encode_frame pc f buf = Inl PayloadTooLarge \<longleftrightarrow>
      length (pc_to_vec pc f) + 2 \<le> length buf \<and> MAX_FRAME_BYTES < length (pc_to_vec pc f)) \<and>
   (length (pc_to_vec pc f) < 2 ^ 16 \<longrightarrow> strip_prefix (wire_frame pc f) =
      (if length (pc_to_vec pc f) \<le> MAX_FRAME_BYTES then Inr (pc_to_vec pc f)
       else Inl (OversizeFrame (length (pc_to_vec pc f)))))"
proof -
  have "encode_frame pc f buf = Inr (n, buf') \<longleftrightarrow>
      length (pc_to_vec pc f) + 2 \<le> length buf \<and> length (pc_to_vec pc f) \<le> MAX_FRAME_BYTES \<and>
      n = 2 + length (pc_to_vec pc f) \<and> buf' = wire_frame pc f @ drop n buf" for n buf'
    by (auto simp: encode_frame_def Let_def encode_frame_spliced wire_frame_def)
  moreover have "encode_frame pc f buf = Inl PayloadTooLarge \<longleftrightarrow>
      length (pc_to_vec pc f) + 2 \<le> length buf \<and> MAX_FRAME_BYTES < length (pc_to_vec pc f)"
    by (auto simp: encode_frame_def Let_def)
  moreover have "encode_frame pc f buf = Inl EncPostcardError \<longleftrightarrow> 2 \<le> length buf \<and> length buf < length (pc_to_vec pc f) + 2"
    "encode_frame pc f buf = Inl BufferTooSmall \<longleftrightarrow> length buf < 2"
    by (auto simp: encode_frame_def Let_def)
  ultimately show ?thesis using strip_prefix_wire by blast
qed

theorem encode_frame_exact_witness:
  "encode_frame postcard_ref FFlushPlayback [0, 0, 0, 9] = Inr (3, [1, 0, 6, 9]) \<and>
   encode_frame postcard_ref FFlushPlayback [0, 0] = Inl EncPostcardError \<and>
   encode_frame postcard_ref FFlushPlayback [0] = Inl BufferTooSmall \<and>
   strip_prefix [1, 0, 6] = Inr [6]"
  using encode_frame_exact [of postcard_ref FFlushPlayback "[0, 0, 0, 9]"]
    encode_frame_exact [of postcard_ref FFlushPlayback "[0, 0]"]
    encode_frame_exact [of postcard_ref FFlushPlayback "[0]"]
  by (simp add: postcard_ref_flush wire_frame_def MAX_FRAME_BYTES_def)

text \<open>
  The declared playback format is accepted exactly when it is the expected one; a
  mismatch names the first differing field with both values.
\<close>

theorem format_check_exact:
  "(check_inbound_format expected declared = Match \<longleftrightarrow> declared = expected) \<and>
   (check_inbound_format expected declared \<noteq> Match \<longrightarrow>
     (\<exists>field want got. check_inbound_format expected declared = Mismatch field want got \<and> want \<noteq> got))"
proof -
  have "ucast x \<noteq> (ucast y :: u32)" if "x \<noteq> y" for x y :: u8
    using that by (simp add: u8_to_u32_inject)
  moreover have "pf_codec expected = pf_codec declared"
    by (metis (full_types) Codec.exhaust)
  ultimately show ?thesis
    by (cases expected; cases declared) (auto simp: check_inbound_format_def)
qed

theorem format_check_exact_witness:
  "check_inbound_format DEVICE_PLAYBACK_FORMAT (DEVICE_PLAYBACK_FORMAT\<lparr>pf_channels := 2\<rparr>) \<noteq> Match \<and>
   check_inbound_format DEVICE_PLAYBACK_FORMAT DEVICE_PLAYBACK_FORMAT = Match"
  using format_check_exact [of DEVICE_PLAYBACK_FORMAT "DEVICE_PLAYBACK_FORMAT\<lparr>pf_channels := 2\<rparr>"]
    format_check_exact [of DEVICE_PLAYBACK_FORMAT DEVICE_PLAYBACK_FORMAT]
  by (simp add: DEVICE_PLAYBACK_FORMAT_def)

section \<open>Outbound frame writers\<close>

text \<open>
  C18. The blocking writer keeps the stream framed: whatever the socket and the clock do, it
  returns, and the socket has then taken a prefix of the encoded frame, in order and each
  byte once: the whole of it exactly when the result is \<open>Sent\<close>, none of it when the result is
  \<open>BackpressureAligned\<close>. The resume count never exceeds the number of writability waits.
\<close>

theorem write_frame_keeps_framing:
  assumes "writer_ok env acc" "counts_waits env ws" "encode_frame pc frame buf = Inr (n, buf')"
    and "write_frame_classified_at pc env frame buf frame_ceiling e = (r, cycles, e')"
  shows "\<exists>w. w \<le> n \<and> acc e' = acc e @ take w (take n buf') \<and>
    (r = Inr Sent \<longleftrightarrow> w = n) \<and> (r = Inr BackpressureAligned \<longrightarrow> w = 0) \<and> cycles + ws e \<le> ws e'"
  using write_frame_spec [OF assms(1,3,4), of ws] assms(2) by blast

lemma flush_encoded: "encode_frame postcard_ref FFlushPlayback [0, 0, 0] = Inr (3, [1, 0, 6])"
  by (simp add: encode_frame_def postcard_ref_flush MAX_FRAME_BYTES_def splice_at_def)

text \<open>A run that blocks once, resumes, and completes.\<close>

lemma flush_written:
  "write_frame_classified_at postcard_ref script_send FFlushPlayback [0, 0, 0] (from_millis 1000) (script_start [2, 0, 1])
     = (Inr Sent, 1, \<lparr>se_takes = [], se_accepted = [1, 0, 6], se_waits = 1, se_clock = 5000000\<rparr>)"
  unfolding write_frame_classified_at_def flush_encoded
  by (simp add: send_loop.simps script_send_def script_start_def write_arm_of_def accept_progress_def
      wait_for_writable_def transient_kind_def armed_deadline_def from_millis_def WRITE_TIMEOUT_MS_def
      MAX_ZERO_PROGRESS_READY_def Let_def)

theorem write_frame_keeps_framing_witness:
  "\<exists>w. w \<le> 3 \<and> [1, 0, 6] = [] @ take w (take 3 [1, 0, 6 :: u8]) \<and> w = 3"
proof -
  from write_frame_keeps_framing [OF script_send_ok flush_encoded flush_written]
  show ?thesis by (simp add: script_start_def)
qed

text \<open>
  C19. The resumable cursor never re-issues a byte: after any sequence of write attempts,
  deadline checks and backoffs on a frame in flight, the socket has taken exactly the first
  \<open>written\<close> bytes of the encoded frame, and the frame's deadlines are armed inside its ceiling.
\<close>

theorem cursor_tracks_socket:
  assumes "writer_ok env acc" "begin_at pc env frame buf frame_ceiling e0 = (Inr (w0, buf'), e1)"
    and "(fw_step env buf')\<^sup>*\<^sup>* (w0, e1) (w, e)"
  shows "fw_written w \<le> fw_n w0 \<and> acc e = acc e0 @ take (fw_written w) (take (fw_n w0) buf') \<and>
    next_deadline w \<le> frame_ceiling"
proof -
  have "fw_inv acc (acc e0) (take (fw_n w0) buf') frame_ceiling (w, e) \<and> fw_n (fst (w, e)) = fw_n w0"
    by (rule fw_steps_inv [OF assms(1) refl assms(3) begin_at_inv [OF assms(1,2)]]) simp
  then show ?thesis by (auto simp: fw_inv_def next_deadline_def)
qed

lemma flush_begun:
  "begin_at postcard_ref script_send FFlushPlayback [0, 0, 0] 9 (script_start [2]) =
     (Inr (\<lparr>fw_n = 3, fw_written = 0, fw_resume_pending = False, fw_resume_cycles = 0, fw_written_at_budget = 0,
        fw_frame_ceiling = 9, fw_budget_deadline = 9, fw_write_attempts = 0, fw_would_blocks = 0,
        fw_consecutive_no_progress = 0, fw_began_at = 0\<rparr>, [1, 0, 6]), (script_start [2])\<lparr>se_clock := 1000000\<rparr>)"
  by (simp add: begin_at_def flush_encoded script_send_def script_start_def armed_deadline_def from_millis_def
      WRITE_TIMEOUT_MS_def)

theorem cursor_tracks_socket_witness:
  "\<exists>w e. step_writable script_send [1, 0, 6]
      \<lparr>fw_n = 3, fw_written = 0, fw_resume_pending = False, fw_resume_cycles = 0, fw_written_at_budget = 0,
        fw_frame_ceiling = 9, fw_budget_deadline = 9, fw_write_attempts = 0, fw_would_blocks = 0,
        fw_consecutive_no_progress = 0, fw_began_at = 0\<rparr> ((script_start [2])\<lparr>se_clock := 1000000\<rparr>)
      = (Inr WrotePartial, w, e) \<and> fw_written w = 2 \<and> se_accepted e = [1, 0]"
proof -
  let ?w0 = "\<lparr>fw_n = 3, fw_written = 0, fw_resume_pending = False, fw_resume_cycles = 0, fw_written_at_budget = 0,
        fw_frame_ceiling = 9, fw_budget_deadline = 9, fw_write_attempts = 0, fw_would_blocks = 0,
        fw_consecutive_no_progress = 0, fw_began_at = 0\<rparr>"
  let ?e1 = "(script_start [2])\<lparr>se_clock := 1000000\<rparr>"
  obtain w e where st: "step_writable script_send [1, 0, 6] ?w0 ?e1 = (Inr WrotePartial, w, e)" "fw_written w = 2"
    by (simp add: step_writable_def script_send_def script_start_def write_arm_of_def Let_def)
  then have "fw_step script_send [1, 0, 6] (?w0, ?e1) (w, e)" by (intro fw_step.attempt) simp_all
  then have "(fw_step script_send [1, 0, 6])\<^sup>*\<^sup>* (?w0, ?e1) (w, e)" by blast
  from cursor_tracks_socket [OF script_send_ok(1) flush_begun this] st show ?thesis by (simp add: script_start_def)
qed

text \<open>
  C20. The give-up instant is exact: for a frame in flight, the deadline check at a reading \<open>t\<close> changes nothing
  before \<open>next_deadline\<close>; from then on it gives up, with \<open>BackpressureAligned\<close> (the socket is kept) when the socket has
  taken no byte since the frame began, and with a timeout error (the socket is dropped) when it has.
\<close>

theorem give_up_exactly_at_next_deadline:
  assumes "writer_ok env acc" "begin_at pc env frame buf frame_ceiling e0 = (Inr (w0, buf'), e1)"
    and "(fw_step env buf')\<^sup>*\<^sup>* (w0, e1) (w, e)" "fw_written w < fw_n w0"
  shows "check_deadlines t w =
      (if t < next_deadline w then (None, w)
       else if acc e = acc e0 then (Some (Inr BackpressureAligned), w)
       else (Some (Inl (IoError TimedOutKind ''[written='')), w))"
proof -
  have inv: "fw_inv acc (acc e0) (take (fw_n w0) buf') frame_ceiling (w0, e1)"
    by (rule begin_at_inv [OF assms(1,2)])
  then have len: "length (take (fw_n w0) buf') = fw_n w0" by (simp add: fw_inv_def)
  have inv': "fw_inv acc (acc e0) (take (fw_n w0) buf') frame_ceiling (w, e)"
    using fw_steps_inv [OF assms(1) refl assms(3) inv] by simp
  then have "fw_written w = 0 \<longleftrightarrow> acc e = acc e0" using len assms(4) by (auto simp: fw_inv_def)
  then show ?thesis using check_deadlines_exact [OF inv'] len assms(4)
    by (simp add: fw_classify_no_progress_def not_le)
qed

theorem give_up_exactly_at_next_deadline_witness:
  "\<exists>w0 w e. begin_at postcard_ref script_send FFlushPlayback [0, 0, 0] 9 (script_start [2]) =
      (Inr (w0, [1, 0, 6]), (script_start [2])\<lparr>se_clock := 1000000\<rparr>) \<and>
    check_deadlines 8 w0 = (None, w0) \<and> check_deadlines 9 w0 = (Some (Inr BackpressureAligned), w0) \<and>
    step_writable script_send [1, 0, 6] w0 ((script_start [2])\<lparr>se_clock := 1000000\<rparr>) = (Inr WrotePartial, w, e) \<and>
    check_deadlines 9 w = (Some (Inl (IoError TimedOutKind ''[written='')), w)"
proof -
  let ?w0 = "\<lparr>fw_n = 3, fw_written = 0, fw_resume_pending = False, fw_resume_cycles = 0, fw_written_at_budget = 0,
        fw_frame_ceiling = 9, fw_budget_deadline = 9, fw_write_attempts = 0, fw_would_blocks = 0,
        fw_consecutive_no_progress = 0, fw_began_at = 0\<rparr>"
  let ?e1 = "(script_start [2])\<lparr>se_clock := 1000000\<rparr>"
  obtain w e where st: "step_writable script_send [1, 0, 6] ?w0 ?e1 = (Inr WrotePartial, w, e)"
    "fw_written w = 2" "next_deadline w = 9" "se_accepted e = [1, 0]"
    by (simp add: step_writable_def script_send_def script_start_def write_arm_of_def next_deadline_def armed_deadline_def
      from_millis_def WRITE_TIMEOUT_MS_def Let_def)
  then have "fw_step script_send [1, 0, 6] (?w0, ?e1) (w, e)" by (intro fw_step.attempt) simp_all
  then have "(fw_step script_send [1, 0, 6])\<^sup>*\<^sup>* (?w0, ?e1) (w, e)" by blast
  from give_up_exactly_at_next_deadline [OF script_send_ok(1) flush_begun this, of 9] st(2-4)
  have late: "check_deadlines 9 w = (Some (Inl (IoError TimedOutKind ''[written='')), w)"
    by (simp add: script_start_def)
  have early: "check_deadlines 8 ?w0 = (None, ?w0)" "check_deadlines 9 ?w0 = (Some (Inr BackpressureAligned), ?w0)"
    using give_up_exactly_at_next_deadline [OF script_send_ok(1) flush_begun rtranclp.rtrancl_refl, of 8]
      give_up_exactly_at_next_deadline [OF script_send_ok(1) flush_begun rtranclp.rtrancl_refl, of 9]
    by (simp_all add: next_deadline_def script_start_def)
  show ?thesis using flush_begun early st(1) late by blast
qed

section \<open>Segment streaming\<close>

text \<open>
  C21. What a segment puts on the wire is its capture: at every turn of the segment loop,
  whatever socket, clocks, channel and capture thread do, the thread has not panicked and the
  peer has received whole frames of this segment followed by a prefix of one more; the Audio
  frames among them carry the captured samples from the pre-roll cursor on, in order, without gap
  or repetition, and no sample that the capture thread had already overwritten.
\<close>

theorem segment_streams_capture:
  assumes sink: "playback_sink ok (sd_sink deps)" and env: "seg_env_ok deps wire hist"
    and start: "acc_ok accum" "ok (rt_sink route)" "c0 \<le> length (hist e)"
    and run: "run_segment deps n c0 accum route buf e = (res, e')"
  shows "res \<noteq> Panicked \<and>
    (\<exists>fs k c f m. seg_frames (sd_segment_id deps) (hist e') c0 fs k c \<and>
       wire e' = wire e @ wire_frames (sd_pc deps) fs @ take m (wire_frame (sd_pc deps) f) \<and>
       concat (map frame_samples fs) = samples_pcm (hist e') c0 (c - c0))"
proof -
  have ok: "seg_ok deps ok wire hist (wire e) c0 (res, e')"
    using playback_sink.run_segment_ok [OF sink env refl start, of n buf] run by simp
  then have "exit_ok deps wire hist (wire e) c0 SocketLost e'"
    using seg_inv_lost exit_ok_lost by (cases res) fastforce+
  then show ?thesis using ok seg_frames_pcm by (cases res) (auto simp: exit_ok_def, blast+)
qed

text \<open>A segment of one captured sample, from the pre-roll cursor to its closing frame.\<close>

definition word_ring :: CaptureRing where
  "word_ring = \<lparr>cr_samples = [7, 0, 0, 0], cr_write_head = 1, cr_anchor_sample = 0, cr_anchor_ts_us = 0\<rparr>"

lemma word_ring_ok: "capture_ok \<lparr>ri_cap = 4\<rparr> [7] word_ring"
  by (auto simp: capture_ok_def word_ring_def is_valid_iff slot_def)

definition word_deps :: "'s PlaybackSink \<Rightarrow> ('s, script_env) SegmentDeps" where
  "word_deps sink = script_deps postcard_ref sink \<lparr>ri_cap = 4\<rparr> word_ring 9"

lemma word_deps_ok: "seg_env_ok (word_deps sink) se_accepted (\<lambda>e. [7])"
  unfolding word_deps_def by (rule script_deps_ok [OF word_ring_ok])

theorem segment_streams_capture_witness:
  "\<exists>res e'. run_segment (word_deps I2sStreamSink_ops) 4 0 FrameAccumulator_new speaker_start (replicate 40 0)
       (script_start [100, 100]) = (res, e') \<and> res \<noteq> Panicked \<and>
     (\<exists>fs k c f m. seg_frames 9 [7] 0 fs k c \<and>
        se_accepted e' = wire_frames postcard_ref fs @ take m (wire_frame postcard_ref f) \<and>
        concat (map frame_samples fs) = samples_pcm [7] 0 c)"
proof -
  have sink: "playback_sink i2s_ok (sd_sink (word_deps I2sStreamSink_ops))"
    by (simp add: word_deps_def script_deps_def i2s.playback_sink_axioms)
  have "i2s_ok (rt_sink speaker_start)" by (rule speaker_start_ok)
  note seg = segment_streams_capture [OF sink word_deps_ok acc_ok_new this]
  obtain res e' where run: "run_segment (word_deps I2sStreamSink_ops) 4 0 FrameAccumulator_new speaker_start
      (replicate 40 0) (script_start [100, 100]) = (res, e')" by fastforce
  from seg [OF _ run] run show ?thesis by (simp add: word_deps_def script_deps_def script_start_def)
qed

text \<open>
  C22. How a segment ends on the wire: after \<open>Completed\<close> the peer has the segment's frames and
  its \<open>SegmentEnd\<close>, whose counts are exactly the Audio frames and samples before it; after
  \<open>SegmentDroppedSocketKept\<close> the stream stands on a frame boundary, so the kept socket can
  carry the next segment.
\<close>

theorem segment_exit_is_aligned:
  assumes sink: "playback_sink ok (sd_sink deps)" and env: "seg_env_ok deps wire hist"
    and start: "acc_ok accum" "ok (rt_sink route)" "c0 \<le> length (hist e)"
    and run: "run_segment deps n c0 accum route buf e = (Exited x s, e')" and x: "x \<noteq> SocketLost"
  shows "\<exists>fs k c rest. seg_frames (sd_segment_id deps) (hist e') c0 fs k c \<and>
    wire e' = wire e @ wire_frames (sd_pc deps) (fs @ rest) \<and>
    (rest = [] \<and> x = SegmentDroppedSocketKept \<or>
     (\<exists>ts reason. rest = [end_frame (sd_segment_id deps) ts k (c - c0) reason]))"
proof -
  have "exit_ok deps wire hist (wire e) c0 x e'"
    using playback_sink.run_segment_ok [OF sink env refl start, of n buf] run by simp
  then show ?thesis using x by (rule exit_ok_aligned)
qed

lemma word_audio:
  "pc_to_vec postcard_ref (FAudio \<lparr>af_segment_id = 9, af_first_sample_index = 0, af_device_ts_us = 0, af_pcm = [7, 0]\<rparr>)
     = [2, 9, 0, 0, 2, 7, 0]"
  by (simp add: postcard_ref_def ser_u32_def ser_u64_def ser_bytes_def varint.simps)

lemma word_end:
  "pc_to_vec postcard_ref (FSegmentEnd \<lparr>se_segment_id = 9, se_device_ts_us = 3000, se_frames_sent = 1,
     se_samples_sent = 1, se_reason = VadRelease\<rparr>) = [4, 9, 184, 23, 1, 1, 0]"
  by (simp add: postcard_ref_def ser_u32_def ser_u64_def ser_tag_def varint.simps)

lemma word_encoded:
  "encode_frame postcard_ref (FAudio \<lparr>af_segment_id = 9, af_first_sample_index = 0, af_device_ts_us = 0, af_pcm = [7, 0]\<rparr>)
     (replicate 40 0) = Inr (9, [7, 0, 2, 9, 0, 0, 2, 7, 0] @ replicate 31 0)"
  "encode_frame postcard_ref (FSegmentEnd \<lparr>se_segment_id = 9, se_device_ts_us = 3000, se_frames_sent = 1,
     se_samples_sent = 1, se_reason = VadRelease\<rparr>) (7 # 0 # 2 # 9 # 0 # 0 # 2 # 7 # 0 # replicate 31 0)
     = Inr (9, [7, 0, 4, 9, 184, 23, 1, 1, 0] @ replicate 31 0)"
  by (simp_all add: encode_frame_def word_audio word_end splice_at_def MAX_FRAME_BYTES_def)

lemma word_deps_simps [simp]:
  "sd_pc (word_deps sink) = postcard_ref" "sd_send (word_deps sink) = script_send"
  "sd_ring (word_deps sink) e = (Some word_ring, e)" "sd_ridx (word_deps sink) = \<lparr>ri_cap = 4\<rparr>"
  "sd_now_us (word_deps sink) e = (se_clock e div 1000, e)" "sd_segment_id (word_deps sink) = 9"
  "env_now script_send e = (se_clock e, e\<lparr>se_clock := se_clock e + 1000000\<rparr>)"
  "cr_write_head word_ring = 1" "cr_anchor_sample word_ring = 0" "cr_anchor_ts_us word_ring = 0"
  "push_pcm_samples word_ring \<lparr>ri_cap = 4\<rparr> 0 (Suc 0) [] = Some [7, 0]"
  by (simp_all add: word_deps_def script_deps_def script_send_def word_ring_def MAX_AUDIO_PAYLOAD_def slot_def
      i16_to_le_bytes_def)

definition word_mid :: "'s route \<Rightarrow> 's SegmentVars" where
  "word_mid route =
     \<lparr>sg_read_cursor = 0, sg_frames_sent = 0, sg_samples_sent = 0, sg_pace_resyncs = 0, sg_vad_closed = True,
      sg_outbound = None, sg_segment_end = None, sg_channel_lost = False, sg_write_blocked = False,
      sg_work_pending = True, sg_audio_pace_schedule = None, sg_pace_deadline = None,
      sg_spin_backoff_deadline = None, sg_pending_telemetry = [], sg_preroll_drain_logged = False,
      sg_first_write_blocked_logged = False, sg_last_periodic_wp_us = 0, sg_accum = FrameAccumulator_new,
      sg_route = route, sg_outbound_buf = replicate 40 0, sg_obs = [SegmentOpen], sg_inbound_armed = True,
      sg_ready = PollTimedOut, sg_inbound_work = False, sg_outbound_work = False, sg_frames_this_wake = 0\<rparr>"

lemma word_wake:
  "run_segment (word_deps sink) 3 0 FrameAccumulator_new route (replicate 40 0) (script_start [100, 100]) =
     (Running AtOutbound (word_mid route), (script_start [100, 100])\<lparr>se_clock := 1000000\<rparr>)"
  unfolding run_segment_def numeral_3_eq_3 funpow.simps o_apply
  by (simp add: segment_open_def word_deps_def script_deps_def script_send_def script_start_def emit_def seg_poll_def
      poll_timeout_def min_deadline_def PRODUCTION_OBS_PERIOD_US_def seg_channel_def inbound_has_room_def
      FrameAccumulator_new_def seg_inbound_def load_vad_flag_def enter_outbound_def word_mid_def Let_def)

lemma word_select:
  "\<exists>w. select_frame (word_deps sink) (word_mid route) ((script_start [100, 100])\<lparr>se_clock := 1000000\<rparr>) =
     (Built ((word_mid route)\<lparr>sg_read_cursor := 1, sg_segment_end := Some VadRelease, sg_outbound := Some (w, OutAudio 1),
        sg_outbound_buf := [7, 0, 2, 9, 0, 0, 2, 7, 0] @ replicate 31 0\<rparr>),
      (script_start [100, 100])\<lparr>se_clock := 3000000\<rparr>) \<and> fw_n w = 9 \<and> fw_written w = 0"
proof -
  have "select_frame (word_deps sink) (word_mid route) e = select_partial (word_deps sink) 1 (word_mid route) e" for e
    by (simp add: word_mid_def select_frame_def select_audio_def is_overrun_def ri_available_def
        AUDIO_SAMPLES_PER_FRAME_def)
  then show ?thesis
    by (simp add: select_partial_def word_mid_def script_start_def is_overrun_def put_in_flight_def audio_frame_def
        begin_frame_def begin_at_def frame_ts_us_def word_encoded(1) del: push_pcm_samples.simps)
qed

lemmas flight_eval = seg_outbound_def put_in_flight_def begin_frame_def begin_at_def write_attempt_def
  step_writable_def write_arm_of_def OUTBOUND_FRAMES_PER_WAKE_def Let_def script_send_def script_start_def frame_done_def

lemma word_sent:
  "\<exists>s. seg_step (word_deps sink) (Running AtOutbound (word_mid route), (script_start [100, 100])\<lparr>se_clock := 1000000\<rparr>) =
     (Running AtOutbound s, (script_start [100])\<lparr>se_clock := 3000000, se_accepted := [7, 0, 2, 9, 0, 0, 2, 7, 0]\<rparr>) \<and>
     sg_segment_end s = Some VadRelease \<and> sg_outbound s = None \<and> sg_frames_sent s = 1 \<and> sg_samples_sent s = 1 \<and>
     sg_outbound_buf s = [7, 0, 2, 9, 0, 0, 2, 7, 0] @ replicate 31 0 \<and> sg_frames_this_wake s = 1 \<and>
     \<not> sg_write_blocked s \<and> \<not> sg_channel_lost s"
proof -
  have "sg_outbound (word_mid route) = None" "sg_frames_this_wake (word_mid route) = 0" by (simp_all add: word_mid_def)
  with word_select [of sink route] show ?thesis
    by (auto simp: flight_eval) (auto simp: word_mid_def)
qed

lemma word_done:
  "\<exists>s. run_segment (word_deps sink) 5 0 FrameAccumulator_new route (replicate 40 0) (script_start [100, 100]) =
     (Exited Completed s, (script_start [])\<lparr>se_clock := 5000000,
        se_accepted := [7, 0, 2, 9, 0, 0, 2, 7, 0] @ [7, 0, 4, 9, 184, 23, 1, 1, 0]\<rparr>)"
proof -
  have five: "run_segment (word_deps sink) 5 c a r b e =
      seg_step (word_deps sink) (seg_step (word_deps sink) (run_segment (word_deps sink) 3 c a r b e))" for c a r b e
    by (simp add: run_segment_def eval_nat_numeral)
  show ?thesis unfolding five word_wake
    using word_sent [of sink route] by (auto simp: flight_eval select_frame_def select_end_def word_encoded(2))
qed

theorem segment_exit_is_aligned_witness:
  "\<exists>fs k c ts reason. seg_frames 9 [7] 0 fs k c \<and>
     [7, 0, 2, 9, 0, 0, 2, 7, 0] @ [7, 0, 4, 9, 184, 23, 1, 1, 0] =
       wire_frames postcard_ref (fs @ [end_frame 9 ts k c reason])"
proof -
  obtain s where run: "run_segment (word_deps I2sStreamSink_ops) 5 0 FrameAccumulator_new speaker_start (replicate 40 0)
      (script_start [100, 100]) = (Exited Completed s, (script_start [])\<lparr>se_clock := 5000000,
        se_accepted := [7, 0, 2, 9, 0, 0, 2, 7, 0] @ [7, 0, 4, 9, 184, 23, 1, 1, 0]\<rparr>)"
    using word_done [of I2sStreamSink_ops speaker_start] by blast
  have sink: "playback_sink i2s_ok (sd_sink (word_deps I2sStreamSink_ops))"
    by (simp add: word_deps_def script_deps_def i2s.playback_sink_axioms)
  have "i2s_ok (rt_sink speaker_start)" by (rule speaker_start_ok)
  from segment_exit_is_aligned [OF sink word_deps_ok acc_ok_new this _ run] show ?thesis
    by (auto simp: script_start_def) blast
qed

text \<open>
  C23. A wake's outbound pump ends: from any state of the segment, with any socket, ring and
  clock, a bounded number of turns leaves the \<open>'outbound\<close> loop.
\<close>

theorem outbound_loop_terminates:
  "\<exists>n. \<forall>s' e'. (seg_step deps ^^ n) (Running AtOutbound s, e) \<noteq> (Running AtOutbound s', e')"
  by (rule outbound_pump_ends)

section \<open>Capture\<close>

text \<open>
  C24. The capture thread keeps the ring: appending a chunk of interleaved frames never faults
  for a configured channel, and a ring that held the last samples of a capture then holds the
  last samples of the capture extended by that channel, a trailing partial frame dropped.
\<close>

theorem append_extends_capture:
  assumes ring: "capture_ok \<lparr>ri_cap = RING_CAPACITY_SAMPLES\<rparr> H ring" and ch: "channel < CHANNELS"
  shows "\<exists>ring'. append_channel interleaved channel now_us ring = Some ring' \<and>
    capture_ok \<lparr>ri_cap = RING_CAPACITY_SAMPLES\<rparr> (H @ map (\<lambda>f. f ! channel) (chunks_exact CHANNELS interleaved)) ring' \<and>
    (interleaved \<noteq> [] \<longrightarrow> cr_anchor_ts_us ring' = now_us \<and> cr_anchor_sample ring' = cr_write_head ring' - 1)"
  using capture_ok_foldl [OF ring, of "\<lambda>f. f ! channel" "chunks_exact CHANNELS interleaved"] ch
  by (auto simp: append_channel_def Let_def capture_ok_def)

theorem append_extends_capture_witness:
  "\<exists>ring'. append_channel [1, 2, 3, 4, 5] 1 9 new_ring = Some ring' \<and>
     capture_ok \<lparr>ri_cap = RING_CAPACITY_SAMPLES\<rparr> [2, 4] ring' \<and> cr_anchor_ts_us ring' = 9"
proof -
  have "chunks_exact CHANNELS [1, 2, 3, 4, 5 :: i16] = [[1, 2], [3, 4]]"
    by (simp add: chunks_exact.simps CHANNELS_def)
  then show ?thesis
    using append_extends_capture [OF capture_ok_new, of 1 "[1, 2, 3, 4, 5]" 9] by (auto simp: CHANNELS_def)
qed

text \<open>
  Timestamps of a segment's frames: dated from one anchor they never run backwards, and two
  consecutive full frames on the same side of the anchor are exactly 20 ms apart unless the
  earlier one saturates at zero.
\<close>

theorem frame_timestamps_advance:
  assumes "i \<le> j"
  shows "frame_ts_us a t i \<le> frame_ts_us a t j \<and>
    (i + AUDIO_SAMPLES_PER_FRAME \<le> a \<and> (a - i) * 1000000 div SAMPLE_RATE_HZ \<le> t \<or> a \<le> i \<longrightarrow>
       frame_ts_us a t (i + AUDIO_SAMPLES_PER_FRAME) = frame_ts_us a t i + AUDIO_FRAME_PERIOD_US)"
proof -
  have "AUDIO_FRAME_PERIOD_US = 20000"
    by (simp add: AUDIO_FRAME_PERIOD_US_def AUDIO_SAMPLES_PER_FRAME_def SAMPLE_RATE_HZ_def)
  then show ?thesis using frame_ts_us_mono [OF assms] frame_ts_us_step by simp
qed

theorem frame_timestamps_advance_witness:
  "frame_ts_us 1000 500000 100 \<le> frame_ts_us 1000 500000 420 \<and>
   frame_ts_us 1000 500000 420 = frame_ts_us 1000 500000 100 + AUDIO_FRAME_PERIOD_US"
  using frame_timestamps_advance [of 100 420 1000 500000]
  by (simp add: AUDIO_SAMPLES_PER_FRAME_def SAMPLE_RATE_HZ_def)

text \<open>
  The waveform accumulator computes the window's statistics and cannot overflow its \<open>i64\<close>
  sums on any window the ring can hold: the sums are the energy and the lag-1 products of the
  samples, the lag-1 sum never exceeds the energy, and the energy stays below \<open>2 ^ 63\<close>.
\<close>

theorem waveform_sums_exact:
  assumes "length xs \<le> RING_CAPACITY_SAMPLES"
  shows "wa_samples (wa_window xs) = length xs \<and>
    wa_sq_sum (wa_window xs) = (\<Sum>x\<leftarrow>xs. sint x * sint x) \<and>
    wa_lag1_sum (wa_window xs) = (\<Sum>(x, y)\<leftarrow>zip xs (tl xs). sint y * sint x) \<and>
    \<bar>wa_lag1_sum (wa_window xs)\<bar> \<le> wa_sq_sum (wa_window xs) \<and> wa_sq_sum (wa_window xs) < 2 ^ 63"
proof -
  have "wa_sq_sum (wa_window xs) \<le> int (length xs) * 2 ^ 30" by (rule accum_bounds(2))
  also have "\<dots> \<le> 32000 * 2 ^ 30"
    using assms by (simp add: RING_CAPACITY_SAMPLES_def RING_SECONDS_def SAMPLE_RATE_HZ_def)
  finally show ?thesis using wa_window_sums(1,2) wa_window_lag1 accum_bounds(3) [of xs] by simp
qed

theorem waveform_sums_exact_witness:
  "wa_sq_sum (wa_window [3, - 4]) = 25 \<and> wa_lag1_sum (wa_window [3, - 4]) = - 12"
  using waveform_sums_exact [of "[3, - 4]"]
  by (simp add: RING_CAPACITY_SAMPLES_def RING_SECONDS_def SAMPLE_RATE_HZ_def)

section \<open>Gates and pacing\<close>

text \<open>
  C27. The energy gate is the predicate on the history that it stands for: it is open exactly
  when at some point two polls in a row were above the threshold and since then no run of
  \<open>hangover\<close> polls was not above it (a hangover of zero ticks counts as one).
\<close>

theorem vad_gate_is_history_predicate:
  "is_open (vad_run energies (VadStateMachine_new threshold hangover_ticks)) =
     gate_open_spec threshold hangover_ticks energies"
  using vad_run_spec_open vad_run_open_spec by blast

text \<open>
  C28. The pre-roll gate opens for exactly two reasons and then stays open: from the first banked
  bytes at \<open>t0\<close> on, the \<open>i\<close>-th request is admitted if and only if at some request so far the depth
  reached the target or \<open>max_wait_ms\<close> had passed since \<open>t0\<close>.
\<close>

theorem preroll_gate_admits_exactly:
  assumes "gate_pending g" "gate_first_bytes_at g = Some t0" "i < length xs"
  shows "admit_run max_wait_ms xs g ! i \<longleftrightarrow>
    (\<exists>j \<le> i. gate_target g \<le> fst (xs ! j) \<or> from_millis max_wait_ms \<le> snd (xs ! j) - t0)"
  by (rule admit_run_armed [OF assms])

theorem preroll_gate_admits_exactly_witness:
  "admit_run 500 [(640, 7), (640, 500000000), (2, 500000009)] (PrerollGate_new\<lparr>gate_first_bytes_at := Some 0\<rparr>) ! 2"
  using preroll_gate_admits_exactly [of "PrerollGate_new\<lparr>gate_first_bytes_at := Some 0\<rparr>" 0 2
      "[(640, 7), (640, 500000000), (2, 500000009)]" 500]
  by (auto simp: PrerollGate_new_def from_millis_def intro!: exI [of _ 1])

text \<open>
  The catch-up drain is rate limited: between any two emissions the schedule allowed, at most
  as many frames went out as the paced rate gives for that time, plus a burst of
  \<open>MAX_PACE_LAG_PERIODS\<close>.
\<close>

theorem catch_up_is_paced:
  assumes "paced_run schedule ts" "i \<le> j" "j < length ts"
  shows "(j - i) * CATCH_UP_PACED_FRAME_US \<le>
    ts ! j - ts ! i + MAX_PACE_LAG_PERIODS * CATCH_UP_PACED_FRAME_US"
  by (rule paced_run_window [OF assms])

theorem catch_up_is_paced_witness:
  "(2 - 0) * CATCH_UP_PACED_FRAME_US \<le> [100, 5100, 10100] ! 2 - [100, 5100, 10100] ! 0 +
     MAX_PACE_LAG_PERIODS * CATCH_UP_PACED_FRAME_US"
proof -
  have "paced_run None [100, 5100, 10100]"
    by (simp add: pace_allows_def advance_pace_us_def paced_frame_us MAX_PACE_LAG_PERIODS_def)
  from catch_up_is_paced [OF this, of 0 2] show ?thesis by simp
qed

section \<open>Expansion and wakes\<close>

text \<open>
  Expanding a run in place gives what expanding it into a second buffer gives: the high-to-low
  order of the in-place loop never overwrites a sample it has yet to read, and both refuse exactly
  the buffers that are too short.
\<close>

theorem expand_in_place_is_expand_into:
  assumes "2 * n \<le> length buf"
  shows "expand_run_in_place buf n = expand_run_into (take (2 * n) buf) buf"
proof -
  have "frames_of (take (2 * n) buf) n = frames_of buf n" by (rule frames_of_cong) simp
  then show ?thesis
    using assms expand_run_into_frames [of "take (2 * n) buf" n buf] expand_down_frames [of n buf]
    by (simp add: expand_run_in_place_def I2S_TX_FRAME_BYTES_def mult.commute)
qed

theorem expand_in_place_is_expand_into_witness:
  "expand_run_in_place [1, 2, 3, 4, 9, 9, 9, 9, 9, 9, 9, 9, 9, 9, 9, 9, 9] 2
     = expand_run_into [1, 2, 3, 4] [1, 2, 3, 4, 9, 9, 9, 9, 9, 9, 9, 9, 9, 9, 9, 9, 9]"
  using expand_in_place_is_expand_into [of 2 "[1, 2, 3, 4, 9, 9, 9, 9, 9, 9, 9, 9, 9, 9, 9, 9, 9]"] by simp

text \<open>
  The event loop's wait is bounded: it never outlasts the idle tick, it lasts a millisecond at
  least unless work is pending, and it ends by the next deadline or one millisecond after a deadline already due.
\<close>

theorem poll_wait_is_bounded:
  "poll_timeout now deadline work_pending \<le> IDLE_TICK \<and>
   (if work_pending then poll_timeout now deadline work_pending = 0
    else from_millis 1 \<le> poll_timeout now deadline work_pending) \<and>
   (case deadline of None \<Rightarrow> True | Some d \<Rightarrow> poll_timeout now deadline work_pending \<le> max (d - now) (from_millis 1))"
  using poll_timeout_bounds poll_timeout_deadline by (auto simp: poll_timeout_def split: option.split)

text \<open>
  C32. A ring whose capacity does not divide \<open>2 ^ 32\<close> is accepted by the constructor and loses
  its framing when the counters wrap: a fresh ring of six bytes that has relayed
  \<open>2 ^ 31 - 1\<close> samples takes two more writes into its free space and then hands out the bytes of
  the second in place of the first.
\<close>

theorem capacity_must_divide_counter_range:
  "\<exists>st0 st st1 st2 run. InboundPcmRing_new 6 = Some st0 \<and> relays (2 ^ 31 - 1) [0, 0] st0 = Some st \<and>
     available st = 0 \<and> write_pcm [1, 2, 3, 4] st = Some (True, st1) \<and> write_pcm [5, 6] st1 = Some (True, st2) \<and>
     copy_run_into 4 [0, 0, 0, 0] st2 = (run, [5, 6, 3, 4]) \<and> run_n run = 4"
proof -
  have "available (six_at (2 ^ 31 - 1)) = 0" by (simp add: available_def ring_used_def six_at_def)
  then show ?thesis using six_fresh relays_silence [of "2 ^ 31 - 1"] six_wraps by blast
qed

section \<open>The streamer thread\<close>

text \<open>
  C33. One connection carries one session: at every step of the streamer loop, whatever the
  network, the clocks, the channel and the capture thread do, the thread has not panicked; while
  it idles on a held socket the peer has received exactly a \<open>Hello\<close> and whole segments after
  it, and while it is in a segment the peer has received such a session, the \<open>SegmentStart\<close> with the
  segment's id, whole frames of the segment, and a prefix of one more.
\<close>

theorem connection_carries_session:
  assumes sink: "playback_sink ok (sd_sink (sr_deps sr))" and env: "runtime_ok sr wire hist"
    and start: "ok (rt_sink route)" and run: "run_streamer_loop sr n route e = (res, e')"
  shows "res \<noteq> StreamerPanicked \<and>
    (\<forall>st. res = Idling st \<longrightarrow> ls_held_socket (st_link st) \<longrightarrow>
       (\<exists>fs. session (hello_frame (sr_pod_id sr)) (hist e') fs \<and> wire e' = wire_frames (sr_pc sr) fs)) \<and>
    (\<forall>st sid r. res = InSegment st sid r \<longrightarrow>
       (\<exists>fs seg c0 gs k c f m. session (hello_frame (sr_pod_id sr)) (hist e') fs \<and> ss_segment_id seg = sid \<and>
          ss_base_sample_index seg = of_nat c0 \<and> seg_frames sid (hist e') c0 gs k c \<and>
          wire e' = wire_frames (sr_pc sr) (fs @ FSegmentStart seg # gs) @ take m (wire_frame (sr_pc sr) f)))"
proof -
  have ok: "str_ok sr ok wire hist (res, e')"
    using playback_sink.run_streamer_loop_ok [OF sink env refl start, of n e] run by simp
  show ?thesis
  proof (cases res)
    case (Idling st)
    then show ?thesis using ok by (auto simp: link_ok_def framed_def)
  next
    case (InSegment st sid r)
    obtain c0 sent where s: "started sr wire hist sid c0 sent e'"
      and g: "seg_ok (segment_deps sr sid) ok wire hist sent c0 (r, e')" using ok InSegment by auto
    have "exit_ok (segment_deps sr sid) wire hist sent c0 SocketLost e'"
      using g seg_inv_lost exit_ok_lost by (cases r) fastforce+
    then obtain gs k c f m where gs: "seg_frames sid (hist e') c0 gs k c"
      "wire e' = sent @ wire_frames (sr_pc sr) gs @ take m (wire_frame (sr_pc sr) f)"
      by (auto simp: exit_ok_def)
    obtain fs seg where fs: "session (sr_hello sr) (hist e') fs" "ss_segment_id seg = sid"
      "ss_base_sample_index seg = of_nat c0" "sent = wire_frames (sr_pc sr) (fs @ [FSegmentStart seg])"
      using s unfolding started_def by blast
    have "wire e' = wire_frames (sr_pc sr) (fs @ FSegmentStart seg # gs) @ take m (wire_frame (sr_pc sr) f)"
      using gs(2) fs(4) by (simp add: wire_frames_def)
    then show ?thesis using InSegment fs(1-3) gs(1) by blast
  qed (use ok in auto)
qed

definition word_pod :: "(sink_state, script_env) StreamerRuntime" where
  "word_pod = script_runtime (word_deps I2sStreamSink_ops) [112, 111, 100]"

lemma word_pod_ok: "runtime_ok word_pod se_accepted (\<lambda>e. [7])"
  unfolding word_pod_def by (rule script_runtime_ok [OF word_deps_ok]) (simp add: word_deps_def script_deps_def)

theorem connection_carries_session_witness:
  "\<exists>res e'. run_streamer_loop word_pod 2 speaker_start (script_start [100, 100]) = (res, e') \<and> res \<noteq> StreamerPanicked \<and>
     (\<forall>st. res = Idling st \<longrightarrow> ls_held_socket (st_link st) \<longrightarrow>
        (\<exists>fs. session (hello_frame [112, 111, 100]) [7] fs \<and> se_accepted e' = wire_frames postcard_ref fs))"
proof -
  have sink: "playback_sink i2s_ok (sd_sink (sr_deps word_pod))"
    by (simp add: word_pod_def script_runtime_def word_deps_def script_deps_def i2s.playback_sink_axioms)
  have ok: "i2s_ok (rt_sink speaker_start)" by (rule speaker_start_ok)
  obtain res e' where run: "run_streamer_loop word_pod 2 speaker_start (script_start [100, 100]) = (res, e')" by fastforce
  from connection_carries_session [OF sink word_pod_ok ok run] run show ?thesis
    by (simp add: word_pod_def script_runtime_def word_deps_def script_deps_def)
qed

text \<open>
  Reconnects are paced: after \<open>n\<close> failures in a row and one more, the next attempt waits
  \<open>min (4 * 2 ^ n) 60\<close> seconds give or take a quarter, whatever the jitter seed, and a
  connect that works returns the back-off to its floor and makes the next attempt due at once.
\<close>

theorem reconnects_are_paced:
  assumes "arm_reconnect_deadline now seed ((record_failure ^^ n) Backoff_new, attempts) = (deadline, backoff, attempts')"
    and "now + 75 < 2 ^ 64" and "w = min (4 * 2 ^ n) 60"
  shows "now + (w - w div 4) \<le> deadline \<and> deadline \<le> now + (w + w div 4) \<and> attempts' = attempts + 1 \<and>
    backoff = (record_failure ^^ Suc n) Backoff_new \<and> note_connect_success backoff = (Backoff_new, 0)"
proof -
  have w: "bo_current_secs ((record_failure ^^ Suc n) Backoff_new) = w"
    unfolding backoff_after assms(3) by (simp add: BACKOFF_FLOOR_SECS_def BACKOFF_CAP_SECS_def)
  have a: "backoff = (record_failure ^^ Suc n) Backoff_new" "attempts' = attempts + 1"
    "deadline = saturating_add64 now (jittered w (seed XOR attempts'))"
    using assms(1) w by (auto simp: arm_reconnect_deadline_def next_wait_secs_def Let_def)
  have "0 < w" "w \<le> 60" using assms(3) by auto
  then have "deadline = now + jittered w (seed XOR attempts')"
    using a(3) jittered_bounds(2) [of w "seed XOR attempts'"] assms(2) by (simp add: saturating_add64_def)
  then show ?thesis
    using a(1,2) jittered_bounds(1,2) [OF \<open>0 < w\<close>, of "seed XOR attempts'"]
    by (simp add: note_connect_success_def record_success_def Backoff_new_def)
qed

theorem reconnects_are_paced_witness:
  "\<exists>deadline backoff. arm_reconnect_deadline 100 7 ((record_failure ^^ 2) Backoff_new, 5) = (deadline, backoff, 6) \<and>
     112 \<le> deadline \<and> deadline \<le> 120"
proof -
  obtain d b a where r: "arm_reconnect_deadline 100 7 ((record_failure ^^ 2) Backoff_new, 5) = (d, b, a)"
    by (metis prod_cases3)
  from reconnects_are_paced [OF r _ refl] r show ?thesis by simp
qed

section \<open>The host's side\<close>

text \<open>
  C35. The host hears the capture: when a pod's connection carries a session as the streamer
  thread produces it, cut off anywhere, then at every turn of the host's read loop, whatever
  the other connections do to the shared ledger, the host has heard a prefix of the captured audio of
  the session, each chunk at its own index and without a gap; every completed segment matched its
  sample count or resumed an earlier one; the only protocol error is the start that follows a
  segment the pod abandoned; the connection is never closed for a decode error or a fatal violation; and once
  every frame has arrived, all of the audio has been heard.
\<close>

theorem host_hears_capture:
  assumes pod: "session (hello_frame pod_id) H fs" "length H < 2 ^ 64" "auth = (if length pod_id \<le> 32 then pod_id else [])"
    and wire: "postcard_ok pc" "\<forall>f \<in> set fs. sendable pc f" "sendable pc f" "m < length (wire_frame pc f)"
    and env: "conn_env_ok env got" "got e = []" and run: "connection pc env auth n l e = (res, l', e')"
    and arrived: "prefix (got e') (wire_frames pc fs @ take m (wire_frame pc f))"
  shows "(case res of Reading c \<Rightarrow>
       list_all (event_ok auth H) (cn_events c) \<and>
       prefix (heard_pcm (cn_events c)) (decode_pcm (concat (map frame_samples fs))) \<and>
       (got e' = wire_frames pc fs \<longrightarrow> heard_pcm (cn_events c) = decode_pcm (concat (map frame_samples fs)))
     | ConnClosed cause fatal c \<Rightarrow>
       \<not> fatal \<and> cause \<noteq> CcDecodeError \<and>
       (\<exists>out closing. cn_events c = out @ closing \<and> list_all (event_ok auth H) out \<and>
          prefix (heard_pcm out) (decode_pcm (concat (map frame_samples fs))) \<and>
          (closing = [] \<or> (\<exists>sid t. closing = [SegmentClosed sid (SegTruncated cause) t]))))"
proof -
  have ok: "conn_ok pc fs got (res, l', e')"
    by (rule connection_ok [OF env(1) wire(1) pod wire(2-4) env(2) run arrived])
  show ?thesis
  proof (cases res)
    case (Reading c)
    obtain xs where xs: "prefix (map fst xs) fs" "got e' = wire_frames pc (map fst xs)"
      "feed_all xs (SessionFsm_new SPINE_FORMAT) = (cn_fsm c, cn_events c)" using ok Reading by auto
    have "map fst xs = fs" if "got e' = wire_frames pc fs"
      by (rule wire_frames_eq_prefix [OF xs(1), of pc]) (simp flip: xs(2) that)
    then show ?thesis using Reading fed_prefix_ok [OF pod xs(1,3)] by auto
  next
    case (ConnClosed cause fatal c)
    then obtain xs fsm out closing where xs: "prefix (map fst xs) fs"
        "feed_all xs (SessionFsm_new SPINE_FORMAT) = (fsm, out)" "cn_events c = out @ closing" "\<not> fatal" "cause \<noteq> CcDecodeError"
        "closing = [] \<or> (\<exists>sid t. closing = [SegmentClosed sid (SegTruncated cause) t])" using ok by auto
    then show ?thesis using ConnClosed fed_prefix_ok(1,2) [OF pod xs(1,2)] by auto
  qed
qed

text \<open>A session of one word, and a connection that delivers it.\<close>

definition word_start :: SegmentStart where
  "word_start = \<lparr>ss_segment_id = 9, ss_base_sample_index = 0, ss_base_device_ts_us = 5, ss_preroll_samples = 1\<rparr>"

definition word_audio :: AudioFrame where
  "word_audio = \<lparr>af_segment_id = 9, af_first_sample_index = 0, af_device_ts_us = 5, af_pcm = [7, 0]\<rparr>"

definition word_frames :: "StreamFrame list" where
  "word_frames = [hello_frame [112], FSegmentStart word_start, FAudio word_audio]"

lemma word_session: "session (hello_frame [112]) [7] word_frames"
proof -
  have "audio_of 9 [7] 0 1 (FAudio word_audio)"
    by (auto simp: audio_of_def word_audio_def samples_pcm_def i16_to_le_bytes_def AUDIO_SAMPLES_PER_FRAME_def)
  from seg_frames.audio [OF seg_frames.none this] have "seg_frames 9 [7] 0 [FAudio word_audio] 1 1" by simp
  then show ?thesis
    using session.segment [OF session.hello, of word_start "[7]" 0 "[FAudio word_audio]" 1 1 "[]" "hello_frame [112]"]
    by (simp add: word_frames_def word_start_def)
qed

lemma word_sendable: "\<forall>f \<in> set word_frames. sendable postcard_ref f"
  by (simp add: word_frames_def sendable_def word_start_def word_audio_def hello_frame_def DEVICE_PLAYBACK_FORMAT_def
      postcard_ref_def ser_u32_def ser_u64_def ser_hello_def ser_bytes_def ser_tag_def varint.simps MAX_FRAME_BYTES_def MAX_AUDIO_PAYLOAD_def)

theorem host_hears_capture_witness:
  "\<exists>res l' e'. connection postcard_ref script_conn_env [112] 3 ResumeLedger_new
       \<lparr>sc_left = wire_frames postcard_ref word_frames, sc_got = []\<rparr> = (res, l', e') \<and>
     (case res of Reading c \<Rightarrow> list_all (event_ok [112] [7]) (cn_events c)
      | ConnClosed cause fatal c \<Rightarrow> \<not> fatal \<and> cause \<noteq> CcDecodeError)"
proof -
  let ?e = "\<lparr>sc_left = wire_frames postcard_ref word_frames, sc_got = []\<rparr>"
  obtain res l' e' where run: "connection postcard_ref script_conn_env [112] 3 ResumeLedger_new ?e = (res, l', e')"
    by (metis prod_cases3)
  have "prefix (sc_got e') (wire_frames postcard_ref word_frames @ take 0 (wire_frame postcard_ref (hello_frame [112])))"
    using script_conn_prefix [OF run] by simp
  moreover have "sendable postcard_ref (hello_frame [112])" using word_sendable by (simp add: word_frames_def)
  ultimately have "case res of Reading c \<Rightarrow> list_all (event_ok [112] [7]) (cn_events c)
      | ConnClosed cause fatal c \<Rightarrow> \<not> fatal \<and> cause \<noteq> CcDecodeError"
    using host_hears_capture [OF word_session _ _ postcard_ref_ok word_sendable _ _ script_conn_ok _ run, of "hello_frame [112]" 0]
      wire_frame_nonempty [of postcard_ref "hello_frame [112]"]
    by (simp split: conn_result.splits)
  then show ?thesis using run by blast
qed

text \<open>
  C36. The resume ledger remembers: its two indexes stay consistent and within their caps; a
  segment noted as truncated is recognised as a resume on the next start with its id, exactly once,
  whatever had to be evicted to make room for it; a note makes nothing else resumable; and as long
  as no eviction is counted, nothing noted earlier is forgotten.
\<close>

theorem ledger_remembers_truncations:
  assumes "ledger_ok l" "note_truncated pod sid l = l1" "take_resume pod sid l1 = (found, l2)"
  shows "ledger_ok l1 \<and> ledger_ok l2 \<and> found \<and> \<not> fst (take_resume pod sid l2) \<and>
    (\<forall>p s. fst (take_resume p s l1) \<longrightarrow> fst (take_resume p s l) \<or> p = pod \<and> s = sid) \<and>
    (rl_evictions l1 = rl_evictions l \<and> rl_pod_evictions l1 = rl_pod_evictions l \<longrightarrow>
       (\<forall>p s. fst (take_resume p s l) \<longrightarrow> fst (take_resume p s l1)))"
proof -
  note N = note_truncated_ok [OF assms(1,2)]
  note T = take_resume_ok [OF N(1) assms(3)]
  have r: "fst (take_resume p s k) \<longleftrightarrow> s \<in> resumable k p" if "ledger_ok k" for p s k
    using take_resume_ok(2) [OF that] by (cases "take_resume p s k") simp
  have new: "s \<in> resumable l p \<or> p = pod \<and> s = sid" if "s \<in> resumable l1 p" for p s
    using N(3) [of p] that by (auto split: if_splits)
  show ?thesis
    using N(1,2,4) T(1,2) T(3) [of pod] new by (auto simp: r assms(1) N(1) T(1))
qed

theorem ledger_remembers_truncations_witness:
  "fst (take_resume [112] 3 (note_truncated [112] 3 ResumeLedger_new))"
proof -
  obtain found l2 where t: "take_resume [112] 3 (note_truncated [112] 3 ResumeLedger_new) = (found, l2)" by fastforce
  from ledger_remembers_truncations [OF ledger_ok_new refl t] t show ?thesis by simp
qed

text \<open>
  C37. The session automaton is well formed for every sequence of frames: it has a pod id exactly
  when the handshake has been accepted, so a segment is never opened or truncated without one; it
  is parked exactly when it has emitted a fatal error; each protocol error carries the severity
  of its kind; and the count of non-fatal ones is exact modulo \<open>2 ^ 64\<close>.
\<close>

theorem session_automaton_well_formed:
  assumes "feed_all frames (SessionFsm_new constraint) = (fsm, out)"
  shows "(case fsm_state fsm of
       AwaitHello \<Rightarrow> out = [] \<and> fsm_pod_id fsm = None
     | FsmIdle \<Rightarrow> fsm_pod_id fsm \<noteq> None \<and> \<not> list_ex parking out
     | FsmInSegment seg \<Rightarrow> fsm_pod_id fsm \<noteq> None \<and> \<not> list_ex parking out
     | FsmDead \<Rightarrow> fsm_pod_id fsm = None \<and> list_ex parking out) \<and>
    list_all labelled out \<and> fs_nonfatal_violations (fsm_stats fsm) = of_nat (length (filter violation out))"
proof -
  have "fsm_ok (SessionFsm_new constraint) []" by (simp add: fsm_ok_def SessionFsm_new_def)
  from feed_all_ok [OF this assms] show ?thesis by (simp add: fsm_ok_def)
qed

theorem session_automaton_well_formed_witness:
  "\<exists>fsm out. feed_all [(FEndOfAudio, HostMicros 1, ResumeLedger_new)] (SessionFsm_new SPINE_FORMAT) = (fsm, out) \<and>
     list_all labelled out"
proof -
  obtain fsm out where f: "feed_all [(FEndOfAudio, HostMicros 1, ResumeLedger_new)] (SessionFsm_new SPINE_FORMAT) = (fsm, out)"
    by fastforce
  from session_automaton_well_formed [OF f] f show ?thesis by blast
qed

text \<open>
  C38. A frame log survives: whatever records are appended to a new log, its byte count is the size of the file; when the file
  is cut anywhere after the header and opened again, by a reader whose reads may be short
  or interrupted, the header gives back its metadata and the iterator yields exactly the records that
  lie whole before the cut, in order and byte for byte, followed by a torn tail exactly when
  the cut fell inside a record; without a cut it yields all of them and no torn tail.
\<close>

theorem frame_log_roundtrip:
  assumes laws: "store_ok fe content" "codec_ok mc" "file_ok rd left retries"
    and written: "log_create fe mc path meta e = (Inr w, e1)" "log_appends fe recs w e1 = (None, w', e2)"
    and opened: "open_file path = Inr r" "left r = take k (content e2 (fl_writer w'))" "unat (fl_bytes w) \<le> k"
  shows "fl_bytes w' = of_nat (length (content e2 (fl_writer w'))) \<and>
    (\<exists>lr kept torn. log_open mc open_file rd path = Some (Inr lr) \<and> flr_meta lr = meta \<and>
       kept_records (k - unat (fl_bytes w)) recs = (kept, torn) \<and> prefix kept recs \<and>
       log_items rd lr = Some (map (\<lambda>(t, p). Inr (LogRecord t p)) kept @ (if torn then [Inr TornTail] else [])) \<and>
       (length (content e2 (fl_writer w')) \<le> k \<longrightarrow> kept = recs \<and> \<not> torn))"
proof -
  obtain lr where lr: "log_open mc open_file rd path = Some (Inr lr)" "flr_meta lr = meta" "\<not> flr_done lr"
      "left (flr_reader lr) = take (k - unat (fl_bytes w)) (records_bytes recs)" "list_all loggable (map snd recs)"
      "fl_bytes w' = of_nat (length (content e2 (fl_writer w')))"
      "length (content e2 (fl_writer w')) \<le> k \<longleftrightarrow> length (records_bytes recs) \<le> k - unat (fl_bytes w)"
    by (rule reopened_log [where open_file = open_file and path = path, OF laws written opened])
  note items = log_items_file [OF laws(3) lr(5,3,4)]
  show ?thesis
    using lr(1,2,6,7) items kept_records_prefix [of "k - unat (fl_bytes w)" recs] kept_records_all [of recs "k - unat (fl_bytes w)"]
    by (cases "kept_records (k - unat (fl_bytes w)) recs") auto
qed

definition demo_meta :: LogMeta where
  "demo_meta = \<lparr>lm_build_id = [97], lm_created_epoch_us = HostMicros 77, lm_conn_seq = 3, lm_rolled_from = None\<rparr>"

lemmas script_log_defs = log_create_def log_append_def write_header_def write_record_def script_store_def script_codec_def demo_meta_def
  MAGIC_def FORMAT_VERSION_def RECORD_HEADER_BYTES_def MAX_FRAME_BYTES_def MAX_AUDIO_PAYLOAD_def

text \<open>Two records, cut inside the second one, read back with two interruptions.\<close>

theorem frame_log_roundtrip_witness:
  "\<exists>w e1 w' e2 lr. log_create script_store script_codec [47] demo_meta (0, \<lambda>_. []) = (Inr w, e1) \<and>
     log_appends script_store [(HostMicros 5, [1, 2, 3]), (HostMicros 6, [4])] w e1 = (None, w', e2) \<and>
     log_open script_codec (\<lambda>_. Inr (take 40 (snd e2 0), 2)) script_file [47] = Some (Inr lr) \<and> flr_meta lr = demo_meta \<and>
     log_items script_file lr = Some [Inr (LogRecord (HostMicros 5) [1, 2, 3]), Inr TornTail]"
proof -
  obtain w e1 where c: "log_create script_store script_codec [47] demo_meta (0, \<lambda>_. []) = (Inr w, e1)" "fl_writer w = 0" "fl_bytes w = 25"
    by (simp add: script_log_defs)
  obtain w' e2 where a: "log_appends script_store [(HostMicros 5, [1, 2, 3]), (HostMicros 6, [4])] w e1 = (None, w', e2)" "fl_writer w' = 0"
    using c(2) by (simp add: script_log_defs)
  have k: "kept_records (40 - unat (fl_bytes w)) [(HostMicros 5, [1, 2, 3]), (HostMicros 6, [4])] = ([(HostMicros 5, [1, 2, 3])], True)"
    using c(3) by (simp add: length_record_bytes RECORD_HEADER_BYTES_def)
  obtain lr where "log_open script_codec (\<lambda>_. Inr (take 40 (snd e2 0), 2)) script_file [47] = Some (Inr lr)" "flr_meta lr = demo_meta"
    "log_items script_file lr = Some [Inr (LogRecord (HostMicros 5) [1, 2, 3]), Inr TornTail]"
    using frame_log_roundtrip [where open_file = "\<lambda>_. Inr (take 40 (snd e2 0), 2)" and r = "(take 40 (snd e2 0), 2)" and k = 40,
        OF script_store_ok script_codec_ok script_file_ok c(1) a(1)] c(3) a(2) unfolding k by auto
  then show ?thesis using c(1) a(1) by blast
qed

text \<open>
  C39. A recorded session plays back as it was captured: when the frames of a session of the streamer were recorded
  in a frame log, the log cut anywhere after its header, then splicing it into a buffer returns, stopping early only at a torn
  tail; every sample of the buffer is as the caller left it or the captured sample of
  exactly that absolute index; and when the log is whole and no chunk starts beyond the requested range,
  every sample of the session in the range is in place.
\<close>

theorem splice_restores_capture:
  assumes laws: "store_ok fe content" "codec_ok mc" "file_ok rd left retries"
    and written: "log_create fe mc path meta e = (Inr w, e1)" "log_appends fe (session_records pc tgs) w e1 = (None, w', e2)"
    and pod: "session (hello_frame pod_id) H (map snd tgs)" "length H < 2 ^ 64"
    and wire: "postcard_ok pc" "\<forall>f \<in> set (map snd tgs). sendable pc f"
    and opened: "open_file path = Inr r" "left r = take k (content e2 (fl_writer w'))" "unat (fl_bytes w) \<le> k"
    and buffer: "length out < 2 ^ 64" "end_sample = u64_saturating_add start_sample (of_nat (length out))"
  shows "\<exists>lr outcome out'. log_open mc open_file rd path = Some (Inr lr) \<and>
    splice_log_into pc rd lr SPINE_FORMAT start_sample out = Some (Inr outcome, out') \<and>
    (so_stopped outcome = None \<or> so_stopped outcome = Some SsTornTail) \<and>
    length out' = length out \<and>
    (\<forall>j < length out. out' ! j = out ! j \<or> unat start_sample + j < length H \<and> out' ! j = H ! (unat start_sample + j)) \<and>
    (length (content e2 (fl_writer w')) \<le> k \<and> (\<forall>ch \<in> set (concat (map (frame_chunk \<circ> snd) tgs)). fst ch < end_sample) \<longrightarrow>
       so_stopped outcome = None \<and>
       (\<forall>ch \<in> set (concat (map (frame_chunk \<circ> snd) tgs)). \<forall>j.
          unat (fst ch) \<le> unat start_sample + j \<and> unat start_sample + j < unat (fst ch) + length (snd ch) \<and>
          unat start_sample + j < unat end_sample \<longrightarrow> out' ! j = H ! (unat start_sample + j)))"
proof -
  obtain lr where lr: "log_open mc open_file rd path = Some (Inr lr)" "\<not> flr_done lr"
      "left (flr_reader lr) = take (k - unat (fl_bytes w)) (records_bytes (session_records pc tgs))"
      "list_all loggable (map snd (session_records pc tgs))"
      "length (content e2 (fl_writer w')) \<le> k \<longleftrightarrow> length (records_bytes (session_records pc tgs)) \<le> k - unat (fl_bytes w)"
    by (rule reopened_log [where open_file = open_file and path = path, OF laws written opened])
  obtain outcome out' where "splice_log_into pc rd lr SPINE_FORMAT start_sample out = Some (Inr outcome, out')"
    and S: "spliced H start_sample out out'" "so_stopped outcome = None \<or> so_stopped outcome = Some SsTornTail"
      "length (records_bytes (session_records pc tgs)) \<le> k - unat (fl_bytes w) \<and>
       (\<forall>ch \<in> set (concat (map frame_chunk (map snd tgs))). fst ch < end_sample) \<longrightarrow>
         so_stopped outcome = None \<and> (\<forall>ch \<in> set (concat (map frame_chunk (map snd tgs))). covers H start_sample end_sample out' ch)"
    using splice_loop_file [OF laws(3) wire pod buffer lr(4,2,3), of "[]" "SessionFsm_new SPINE_FORMAT" "[]"
        "\<lparr>sp_out = out, sp_written = 0, sp_errors = 0\<rparr>" ResumeLedger_new]
    by (auto simp: splice_log_into_def buffer(2) [symmetric] SessionFsm_new_def spliced_def)
  then show ?thesis using lr(1,5) unfolding spliced_def covers_def by auto
qed

text \<open>The session of one word, recorded and spliced into two samples of silence.\<close>

definition word_log :: "(HostMicros \<times> StreamFrame) list" where
  "word_log = map (Pair (HostMicros 5)) word_frames"

lemma word_loggable: "list_all loggable (map snd (session_records postcard_ref word_log))"
  by (simp add: word_log_def word_frames_def session_records_def loggable_def wire_frame_def word_start_def word_audio_def
      hello_frame_def DEVICE_PLAYBACK_FORMAT_def postcard_ref_def ser_u32_def ser_u64_def ser_hello_def ser_bytes_def ser_tag_def
      varint.simps MAX_FRAME_BYTES_def MAX_AUDIO_PAYLOAD_def)

theorem splice_restores_capture_witness:
  "\<exists>w e1 w' e2 lr outcome out'. log_create script_store script_codec [47] demo_meta (0, \<lambda>_. []) = (Inr w, e1) \<and>
     log_appends script_store (session_records postcard_ref word_log) w e1 = (None, w', e2) \<and>
     log_open script_codec (\<lambda>_. Inr (snd e2 (fl_writer w'), 2)) script_file [47] = Some (Inr lr) \<and>
     splice_log_into postcard_ref script_file lr SPINE_FORMAT 0 [0, 0] = Some (Inr outcome, out') \<and>
     so_stopped outcome = None \<and> out' ! 0 = 7"
proof -
  obtain w e1 where c: "log_create script_store script_codec [47] demo_meta (0, \<lambda>_. []) = (Inr w, e1)" "fl_writer w = 0" "fl_bytes w = 25"
    by (simp add: script_log_defs)
  obtain w' e2 where a: "log_appends script_store (session_records postcard_ref word_log) w e1 = (None, w', e2)"
    using script_appends [OF word_loggable] by blast
  let ?c = "snd e2 (fl_writer w')" and ?k = "25 + length (snd e2 (fl_writer w'))"
  have fs: "map snd word_log = word_frames" by (simp add: word_log_def comp_def)
  have ch: "concat (map (frame_chunk \<circ> snd) word_log) = [(0, [7])]"
    by (simp add: word_log_def word_frames_def word_audio_def hello_frame_def i16_from_le_bytes_def)
  obtain lr outcome out' where "log_open script_codec (\<lambda>_. Inr (?c, 2)) script_file [47] = Some (Inr lr)"
    "splice_log_into postcard_ref script_file lr SPINE_FORMAT 0 [0, 0] = Some (Inr outcome, out')" "so_stopped outcome = None" "out' ! 0 = 7"
    using splice_restores_capture [where open_file = "\<lambda>_. Inr (?c, 2)" and r = "(?c, 2)" and k = ?k and out = "[0, 0]"
        and start_sample = 0 and end_sample = 2 and H = "[7]" and pod_id = "[112]",
        OF script_store_ok script_codec_ok script_file_ok c(1) a _ _ postcard_ref_ok] word_session word_sendable c(3)
    unfolding fs ch by (auto simp: u64_saturating_add_def)
  then show ?thesis using c(1) a by blast
qed

section \<open>Segments and the record store\<close>

text \<open>
  C25. Assembled segments are the capture: whatever a peer sends, the assembler never meets an event
  out of order, and the audio of the finished segments, in order, with the audio of the open one is the audio of the
  session's events; and when the peer is a pod of this repository, every finished segment that has
  audio is one stretch of the capture that starts at the segment's base index, across every cut the length cap makes.
\<close>

theorem assembled_segments_are_capture:
  assumes fed: "feed_all xs (SessionFsm_new SPINE_FORMAT) = (fsm, evs)" "map fst es = evs"
    and assembled: "on_events es (SegmentAssembler_new pod room limits) = (segs, a)"
  shows "as_contract_violations (sa_stats a) = 0 \<and>
    concat (map sg_pcm segs) @ open_pcm (sa_current a) = heard_pcm evs \<and>
    (\<forall>pod_id H fs. session (hello_frame pod_id) H fs \<and> length H < 2 ^ 64 \<and> prefix (map fst xs) fs \<longrightarrow>
       (\<forall>s \<in> set segs. sg_pcm s \<noteq> [] \<longrightarrow>
          unat (sg_base_sample_index s) + length (sg_pcm s) \<le> length H \<and>
          sg_pcm s = take (length (sg_pcm s)) (drop (unat (sg_base_sample_index s)) H)))"
proof -
  let ?new = "SegmentAssembler_new pod room limits"
  have new: "sa_current ?new = CurIdle" "as_contract_violations (sa_stats ?new) = 0" "fsm_open (SessionFsm_new SPINE_FORMAT) = None"
    "fsm_next (SessionFsm_new SPINE_FORMAT) = None" "fsm_constraint (SessionFsm_new SPINE_FORMAT) = SPINE_FORMAT"
    by (simp_all add: SegmentAssembler_new_def SessionFsm_new_def fsm_open_def fsm_next_def)
  have "events_order (cur_open (sa_current ?new)) (map fst es) = Some (fsm_open fsm)"
    using feed_all_ordered [OF fed(1)] fed(2) new by simp
  note O = on_events_ordered [OF this assembled]
  have "\<forall>s \<in> set segs. stretch H (sg_base_sample_index s) (sg_pcm s)"
    if pod: "session (hello_frame pod_id) H fs" "length H < 2 ^ 64" "prefix (map fst xs) fs" for pod_id H fs
  proof -
    have ok: "list_all (event_ok (if length pod_id \<le> 32 then pod_id else []) H) evs"
      by (rule fed_prefix_ok(1) [OF pod(1,2) refl pod(3) fed(1)])
    have "events_track (cur_next (sa_current ?new)) (map fst es) = Some (fsm_next fsm)"
      using feed_all_tracked [OF fed(1) new(5) ok] fed(2) new by simp
    from on_events_tracked [OF this _ pod(2) _ assembled] show ?thesis using ok fed(2) new(1) by simp
  qed
  then show ?thesis using O fed(2) new unfolding stretch_def by auto
qed

definition word_limits :: AssemblerLimits where
  "word_limits = \<lparr>al_max_segment_samples = 1, al_max_telemetry_readings = 0\<rparr>"

text \<open>The word of one sample, cut at once by a cap of one.\<close>

theorem assembled_segments_are_capture_witness:
  "\<exists>fsm evs segs a. feed_all (map (\<lambda>f. (f, HostMicros 1, ResumeLedger_new)) word_frames) (SessionFsm_new SPINE_FORMAT) = (fsm, evs) \<and>
     on_events (map (\<lambda>ev. (ev, [])) evs) (SegmentAssembler_new [112] [] word_limits) = (segs, a) \<and>
     as_contract_violations (sa_stats a) = 0 \<and> concat (map sg_pcm segs) @ open_pcm (sa_current a) = heard_pcm evs \<and>
     (\<forall>s \<in> set segs. sg_pcm s \<noteq> [] \<longrightarrow> sg_pcm s = take (length (sg_pcm s)) (drop (unat (sg_base_sample_index s)) [7]))"
proof -
  let ?xs = "map (\<lambda>f. (f, HostMicros 1, ResumeLedger_new)) word_frames"
  obtain fsm evs where f: "feed_all ?xs (SessionFsm_new SPINE_FORMAT) = (fsm, evs)" by fastforce
  obtain segs a where o: "on_events (map (\<lambda>ev. (ev, [])) evs) (SegmentAssembler_new [112] [] word_limits) = (segs, a)" by fastforce
  have fs: "map fst ?xs = word_frames" by (simp add: comp_def)
  have "map fst (map (\<lambda>ev. (ev, [])) evs) = evs" by (simp add: comp_def)
  from assembled_segments_are_capture [OF f this o] show ?thesis
    using f o word_session unfolding fs by (metis (no_types, lifting) length_Cons list.size(3) one_less_numeral_iff one_less_power prefix_order.refl semiring_norm(76) zero_less_numeral One_nat_def)
qed

text \<open>
  C40. A pin is never lost: through any interleaving of sidecar rewrites from memory, pins, wake
  labels and deletions of stale inventory entries by any number of processes, each under
  the store lock and each free to fail anywhere, and through a whole prune pass after it, a frame log whose sidecar on
  disk is pinned keeps its file and its pin.
\<close>

theorem pins_are_kept:
  assumes laws: "disk_ok env disk" "sidecar_codec_ok ck" "read_dir_ok env" and f: "log_file (pq_store_dir req) f"
    and run: "(store_step env ck live disk (pq_store_dir req))\<^sup>*\<^sup>* e e1" and pass: "prune env ck live req e1 = (res, e2)"
    and pinned: "pinned_log ck disk f e"
  shows "pinned_log ck disk f e1 \<and> pinned_log ck disk f e2"
proof -
  have p1: "pinned_log ck disk f e1" by (rule run_pinned [OF laws(1,2) f run pinned])
  then show ?thesis using run_pinned [OF laws(1,2) f prune_steps [OF laws(1,3) pass]] by blast
qed

text \<open>A store of two logs over its cap, the first one pinned.\<close>

definition demo_log :: "string \<Rightarrow> store_file" where
  "demo_log s = ([115], ascii s @ ascii ''.framelog'')"

definition demo_disk :: "path \<rightharpoonup> bytes" where
  "demo_disk = [full_path (demo_log ''a'') \<mapsto> [1, 2], full_path (demo_log ''b'') \<mapsto> [3, 4],
     full_path (sidecar_path (demo_log ''a'')) \<mapsto> [1, 112]]"

definition demo_request :: PruneRequest where
  "demo_request = \<lparr>pq_store_dir = [115], pq_cap_bytes = 1, pq_pod_cap_bytes = 9\<rparr>"

abbreviation demo_env :: "(path \<rightharpoonup> bytes) store_env" where
  "demo_env \<equiv> script_store_env [ascii ''a.framelog'', ascii ''b.framelog'']"

lemma demo_log_file: "log_file [115] (demo_log ''a'')"
  using log_file_name [of "ascii ''a''" "[115]"] by (simp add: demo_log_def plain_def ascii_def)

lemma demo_paths:
  "full_path (demo_log ''a'') = ascii ''s/a.framelog''" "full_path (demo_log ''b'') = ascii ''s/b.framelog''"
  "full_path (sidecar_path (demo_log ''a'')) = ascii ''s/a.sidecar.json''"
  by (simp_all add: demo_log_def sidecar_path_def split_name_def full_path_def path_join_def ascii_def)

lemma demo_pinned: "pinned_log script_sidecar_codec id (demo_log ''a'') demo_disk"
  by (simp add: pinned_log_def sidecar_at_def demo_disk_def script_sidecar_codec_def demo_paths Let_def)

lemma demo_read_dir: "read_dir_ok demo_env"
  by (rule script_store_env_ok(3)) (simp_all add: plain_def ascii_def)

theorem pins_are_kept_witness:
  "\<exists>res e2. prune demo_env script_sidecar_codec (\<lambda>_. {}) demo_request demo_disk = (res, e2) \<and>
     pinned_log script_sidecar_codec id (demo_log ''a'') e2"
proof -
  obtain res e2 where p: "prune demo_env script_sidecar_codec (\<lambda>_. {}) demo_request demo_disk = (res, e2)" by fastforce
  have "log_file (pq_store_dir demo_request) (demo_log ''a'')" using demo_log_file by (simp add: demo_request_def)
  from pins_are_kept [OF script_store_env_ok(1) script_sidecar_codec_ok demo_read_dir this rtranclp.rtrancl_refl p demo_pinned]
  show ?thesis using p by blast
qed

text \<open>
  C17. A prune pass keeps its budget: it deletes each listed log at most once and never more bytes than it listed;
  it reports a halt exactly when the logs it did not delete still exceed the cap, and with
  that number; the logs it deletes for a quota belong to pods that exceeded theirs when listed, so a
  pod within its quota loses nothing to that phase; both phases delete in the order of
  tier, age and name; and the cap phase deletes nothing more once the rest fits.
\<close>

theorem prune_meets_budget:
  assumes laws: "disk_ok env disk" "read_dir_ok env" and listed: "inventory env ck live req e = (Inr logs, e1)"
    and pass: "prune env ck live req e = (Inr outcome, e2)"
  shows "\<exists>qs cs. po_pruned outcome = map (pruned_of PodQuota) qs @ map (pruned_of GlobalCap) cs \<and>
    subseq qs (deletion_order logs) \<and> subseq cs (deletion_order logs) \<and> distinct (map le_framelog (qs @ cs)) \<and>
    log_bytes (qs @ cs) \<le> log_bytes logs \<and>
    po_halted outcome =
      (if pq_cap_bytes req < log_bytes logs - log_bytes (qs @ cs)
       then Some \<lparr>ph_remaining_bytes = log_bytes logs - log_bytes (qs @ cs), ph_cap_bytes = pq_cap_bytes req\<rparr> else None) \<and>
    (\<forall>l \<in> set qs. pq_pod_cap_bytes req < bucket_total logs (le_pod l)) \<and>
    (cs \<noteq> [] \<longrightarrow> pq_cap_bytes req < log_bytes logs - log_bytes (qs @ butlast cs))"
proof -
  have dist: "distinct (map le_framelog logs)" using inventory_ok(2) [OF laws listed] by blast
  let ?o = "PruneOutcome_default\<lparr>po_kept_corrupt := corrupt_of logs\<rparr>"
  have o: "prune_logs env ck live req logs e1 = (outcome, e2)" using pass listed by (auto simp: prune_def split: prod.splits)
  show ?thesis
  proof (cases "log_bytes logs \<le> pq_cap_bytes req \<and> \<not> (\<exists>l \<in> set logs. pq_pod_cap_bytes req < bucket_total logs (le_pod l))")
    case True
    then have "outcome = ?o" using o by (simp add: prune_logs_def log_bytes_def)
    then show ?thesis using True by (intro exI [of _ "[]"]) (auto simp: PruneOutcome_default_def)
  next
    case False
    let ?p = "prune_pass env ck live req logs ?o e1"
    have out: "outcome = (if pq_cap_bytes req < ps_total ?p
        then (ps_outcome ?p)\<lparr>po_halted := Some \<lparr>ph_remaining_bytes = ps_total ?p, ph_cap_bytes = pq_cap_bytes req\<rparr>\<rparr> else ps_outcome ?p)"
      using o unfolding prune_logs_def Let_def log_bytes_def [symmetric] if_not_P [OF False] prod.inject by (rule conjE) (rule sym)
    have "po_pruned ?o = []" by (simp add: PruneOutcome_default_def)
    from prune_pass_account [OF dist this, of env ck live req e1] obtain qs cs where A:
      "subseq qs (deletion_order logs)" "subseq cs (deletion_order logs)"
      "po_pruned (ps_outcome ?p) = map (pruned_of PodQuota) qs @ map (pruned_of GlobalCap) cs"
      "ps_total ?p = log_bytes logs - (log_bytes qs + log_bytes cs)" "po_halted (ps_outcome ?p) = po_halted ?o"
      "log_bytes qs + log_bytes cs \<le> log_bytes logs" "distinct (map le_framelog (qs @ cs))"
      "\<forall>l \<in> set qs. pq_pod_cap_bytes req < bucket_total logs (le_pod l)"
      "cs \<noteq> [] \<Longrightarrow> pq_cap_bytes req < log_bytes logs - (log_bytes qs + log_bytes (butlast cs))" by blast
    show ?thesis
      using A out by (intro exI [of _ qs] exI [of _ cs]) (auto simp: PruneOutcome_default_def)
  qed
qed


theorem prune_meets_budget_witness:
  "\<exists>logs outcome e1 e2. inventory demo_env script_sidecar_codec (\<lambda>_. {}) demo_request demo_disk = (Inr logs, e1) \<and>
     prune demo_env script_sidecar_codec (\<lambda>_. {}) demo_request demo_disk = (Inr outcome, e2) \<and>
     (\<exists>qs cs. po_pruned outcome = map (pruned_of PodQuota) qs @ map (pruned_of GlobalCap) cs \<and> log_bytes (qs @ cs) \<le> log_bytes logs)"
proof -
  obtain logs e1 where i: "inventory demo_env script_sidecar_codec (\<lambda>_. {}) demo_request demo_disk = (Inr logs, e1)"
    using script_inventory_entries [of "[ascii ''a.framelog'', ascii ''b.framelog'']" script_sidecar_codec "\<lambda>_. {}" "pq_store_dir demo_request"
        "[ascii ''a.framelog'', ascii ''b.framelog'']" demo_disk]
    by (auto simp: inventory_def script_store_listed)
  obtain outcome e2 where "prune_logs demo_env script_sidecar_codec (\<lambda>_. {}) demo_request logs e1 = (outcome, e2)" by fastforce
  then have p: "prune demo_env script_sidecar_codec (\<lambda>_. {}) demo_request demo_disk = (Inr outcome, e2)" by (simp add: prune_def i)
  from prune_meets_budget [OF script_store_env_ok(1) demo_read_dir i p] show ?thesis using i p by blast
qed

text \<open>
  C31. A log being written is safe. A recorder starts, taps frames, renames its log at the handshake, records segments, rolls, gives
  up and finishes, and every operation is a sequence of single actions: registering a name, creating a file, renaming it,
  dropping a name are separate. Between any two actions others may act: passes of the pruner, each of which lists the
  logs, looks at the live set and deletes under the store lock in three separate steps; processes that pin, label and rewrite
  sidecars; and other connections, on logs of other names. Any call may fail. Then at every moment, within an operation too, the
  file that the recorder has open is on disk and its name is registered as open; and between
  operations it is the recorder's current log. Two things are assumed of names: other connections do not use
  this connection's, and no pass has listed a log of the name a writer newly takes before it takes it; and the handshake
  comes while the log has the name of the connection.
\<close>

theorem live_log_is_safe:
  assumes laws: "disk_ok env disk" "log_store_ok env disk" and iso: "plain accept_iso" and passes: "C0 \<subseteq> L0"
    and run: "(recorder_step env mc ck disk d accept_iso conn_seq)\<^sup>*\<^sup>*
      (start_prog env mc build_id conn_seq recording_on (Recorder_new d conn_seq accept_iso), Recorder_new d conn_seq accept_iso, sh0, e0, L0, C0)
      (p, rc, sh, e, L, C)" and w: "rc_writer rc = Some w"
  shows "fl_path w \<in> dom (disk e) \<and> (\<exists>f \<in> sh_open_logs sh. full_path f = fl_path w \<and> f \<notin> C) \<and>
    (\<forall>b. p = Ret b \<longrightarrow> fl_path w = full_path (current_log rc) \<and> current_log rc \<in> sh_open_logs sh)"
proof -
  note D = recorder_run_safe [OF laws iso passes run]
  have "fl_path w \<in> dom (disk e) \<and> (\<exists>f \<in> sh_open_logs sh. full_path f = fl_path w \<and> f \<notin> C)"
    using D(1) w by (fastforce simp: live_log_def log_held_def writes_in_def)
  then show ?thesis using D(2) w by (auto simp: settled_def log_held_def)
qed

text \<open>A recorder starts over an empty store, a pass lists its log, and the recorder takes one frame.\<close>

theorem live_log_is_safe_witness:
  "\<exists>rc sh e w rc' sh' e' w'.
     recorder_start (script_store_env []) script_codec [98] [115] 3 [116] True
       \<lparr>sh_open_logs = {}, sh_recording_failed = False, sh_jsonl = []\<rparr> (\<lambda>_. None) = (rc, sh, e) \<and>
     (recorder_step (script_store_env []) script_codec script_sidecar_codec id [115] [116] 3)\<^sup>*\<^sup>*
       (Ret False, rc, sh, e, {}, {}) (Ret False, rc', sh', e', {current_log rc}, {}) \<and>
     rc_writer rc = Some w \<and> rc_writer rc' = Some w' \<and> fl_bytes w < fl_bytes w' \<and>
     current_log rc' \<in> sh_open_logs sh' \<and> fl_path w' \<in> dom e'"
proof -
  let ?env = "script_store_env []" and ?sh = "\<lparr>sh_open_logs = {}, sh_recording_failed = False, sh_jsonl = []\<rparr>"
    and ?rc = "Recorder_new [115] 3 [116]"
  let ?step = "recorder_step ?env script_codec script_sidecar_codec id [115] [116] 3"
  obtain b rc sh e where s: "run_prog (start_prog ?env script_codec [98] 3 True ?rc) (?rc, ?sh, \<lambda>_. None) = (b, rc, sh, e)"
    by (metis prod_cases4)
  have b: "b = False" and "\<exists>w. rc_writer rc = Some w \<and> fl_bytes w < 100"
    using s by (auto simp: start_prog_def start_create_def script_store_env_def log_create_def write_header_def script_codec_def Let_def
        Recorder_new_def current_log_def MAGIC_def split: option.splits)
  then obtain w where w: "rc_writer rc = Some w" "fl_bytes w < 100" by auto
  obtain w' e' where t: "log_append (se_files ?env) (HostMicros 1) [1, 0, 4] w e = (None, w', e')" and bytes: "fl_bytes w < fl_bytes w'"
      "fl_path w' = fl_path w"
    using w(2) by (auto simp: script_store_env_def log_append_def write_record_def MAX_FRAME_BYTES_def RECORD_HEADER_BYTES_def word_less_nat_alt unat_word_ariths)
  note start = run_prog_steps [OF s, of ?env script_codec script_sidecar_codec id "[115]" "[116]" 3 "{}", unfolded b]
  note S = recorder_run_safe(2) [OF script_store_env_ok(1,2) _ _ start]
  have dir: "log_file [115] (current_log rc)" and there: "full_path (current_log rc) \<in> dom (id e)"
    using S [of False] w(1) own_log_file [of "[116]" "[115]" 3 "current_log rc"] by (simp_all add: plain_def settled_def log_held_def)
  have "?step (Ret False, rc, sh, e, {}, {}) (Ret False, rc, sh, e, {current_log rc}, {})"
    by (rule recorder_step.others, rule bystander.listed) (use dir there in auto)
  moreover have "?step (Ret False, rc, sh, e, {current_log rc}, {}) (tap_prog ?env (HostMicros 1) [1, 0, 4] rc, rc, sh, e, {current_log rc}, {})"
    by (rule recorder_step.tap)
  moreover have "?step (tap_prog ?env (HostMicros 1) [1, 0, 4] rc, rc, sh, e, {current_log rc}, {})
      (Ret False, rc\<lparr>rc_writer := Some w'\<rparr>, sh, e', {current_log rc}, {})"
    unfolding tap_prog_def w(1) option.case by (rule recorder_step.act) (use t w bytes in \<open>auto simp: new_name_def\<close>)
  ultimately have run: "?step\<^sup>*\<^sup>* (Ret False, rc, sh, e, {}, {}) (Ret False, rc\<lparr>rc_writer := Some w'\<rparr>, sh, e', {current_log rc}, {})"
    by (meson converse_rtranclp_into_rtranclp r_into_rtranclp)
  have safe: "current_log (rc\<lparr>rc_writer := Some w'\<rparr>) \<in> sh_open_logs sh" "fl_path w' \<in> dom e'"
    using live_log_is_safe [OF script_store_env_ok(1,2) _ _ rtranclp_trans [OF start run], of w'] by (auto simp: plain_def)
  show ?thesis
    by (rule exI [of _ rc], rule exI [of _ sh], rule exI [of _ e], rule exI [of _ w], rule exI [of _ "rc\<lparr>rc_writer := Some w'\<rparr>"],
      rule exI [of _ sh], rule exI [of _ e'], rule exI [of _ w']) (use s b run w bytes safe in \<open>simp add: recorder_start_def\<close>)
qed

section \<open>The listener and its queue\<close>

text \<open>
  C26. Carved audio is the capture: whatever chunks are pushed, in any order and with any overlap, the listener's ring holds
  what an association list by index would that takes only indexes beyond its last and keeps its
  newest entries, and a carve reads that list with silence elsewhere; and when
  the chunks are stretches of one capture without a hole, re-sent pre-roll included, a carve within the retained length is
  the capture, sample for sample.
\<close>

theorem carved_audio_is_capture:
  assumes "\<forall>(i, pcm) \<in> set ps. unat i + length pcm < 2 ^ 64" "0 < cap"
  shows "\<exists>r. pcm_pushes ps (PcmRing_new cap) = Some r \<and> pr_stored r \<le> cap \<and>
    (\<forall>a z. carve a z r = map (sample_or_silence (ref_pushes cap ps [])) [unat a..<unat z]) \<and>
    (\<forall>H b a z. gapless H b b ps \<and> b \<le> unat a \<and> pushed_end b ps - cap \<le> unat a \<and> unat z \<le> pushed_end b ps \<longrightarrow>
       carve a z r = take (unat z - unat a) (drop (unat a) H))"
proof -
  from pcm_pushes_refine [OF PcmRing_new_ok(1) assms(1), of cap] obtain r where R:
    "pcm_pushes ps (PcmRing_new cap) = Some r" "pcm_ring_ok r" "pr_capacity r = cap"
    "held_samples r = ref_pushes cap ps []" by (auto simp: PcmRing_new_def held_samples_def)
  have reads: "carve a z r = map (sample_or_silence (ref_pushes cap ps [])) [unat a..<unat z]" for a z
    using carve_reads [of r a z] R(2,4) by (simp add: pcm_ring_ok_def)
  have "carve a z r = slice H (unat a) (unat z)"
    if g: "gapless H b b ps" "b \<le> unat a" "pushed_end b ps - cap \<le> unat a" "unat z \<le> pushed_end b ps" for H b a z
  proof -
    have "b \<le> length H" using g(1) by (cases ps) auto
    from ref_pushes_gapless [OF g(1) assms(2) order_refl this refl refl]
    have "ref_pushes cap ps [] = at_index (max b (pushed_end b ps - cap)) (slice H (max b (pushed_end b ps - cap)) (pushed_end b ps))"
      and "pushed_end b ps \<le> length H" by (auto simp: slice_def at_index_def)
    then show ?thesis using carve_slice [of "max b (pushed_end b ps - cap)" "unat a" "unat z" "pushed_end b ps" H] g reads by simp
  qed
  then show ?thesis using R reads by (auto simp: pcm_ring_ok_def slice_def)
qed

text \<open>Five samples in two chunks that overlap in one, in a ring of four.\<close>

theorem carved_audio_is_capture_witness:
  "\<exists>r. pcm_pushes [(0, [1, 2, 3]), (2, [3, 4, 5])] (PcmRing_new 4) = Some r \<and> carve 1 5 r = [2, 3, 4, 5]"
proof -
  let ?ps = "[(0 :: u64, [1, 2, 3 :: i16]), (2, [3, 4, 5])]"
  have "\<forall>(i, pcm) \<in> set ?ps. unat i + length pcm < 2 ^ 64" by simp
  from carved_audio_is_capture [OF this, of 4] obtain r where r: "pcm_pushes ?ps (PcmRing_new 4) = Some r"
    and "\<forall>H b a z. gapless H b b ?ps \<and> b \<le> unat a \<and> pushed_end b ?ps - 4 \<le> unat a \<and> unat z \<le> pushed_end b ?ps \<longrightarrow>
       carve a z r = take (unat z - unat a) (drop (unat a) H)" by auto
  from this(2) [rule_format, of "[1, 2, 3, 4, 5]" 0 1 5] have "carve 1 5 r = [2, 3, 4, 5]" by simp
  then show ?thesis using r by blast
qed

text \<open>
  C30. The endpointer keeps the protocol of an utterance: whatever probabilities, releases, dispatches and resets it is
  given, each call records at most one transition, from the state the last one left, with the event that belongs to its cause;
  an endpoint after a continuation starts where the one it supersedes started. On a stream of chunks every span it
  announces lies in the stream, does not run backwards, and is shorter than one chunk more than \<open>speech_bound\<close>: the larger of
  the length cap with the continuation window, and the pre-roll pad with the onset run. A capped utterance closes at once.
\<close>

theorem endpointer_keeps_protocol:
  assumes run: "ep_run calls (Endpointer_new cfg) = (answers, ep)"
  shows "(\<exists>u. utt_answers answers NoUtterance = Some u \<and> utt_label u = ep_label (ep_state ep)) \<and>
    (on_cursor now calls \<longrightarrow> list_all2 (\<lambda>c a. span_ok cfg (call_sample c) (snd a)) calls answers)"
proof -
  have new: "ep_transitions (Endpointer_new cfg) = []" "utt_of (ep_state (Endpointer_new cfg)) NoUtterance"
    "ep_config (Endpointer_new cfg) = cfg" "cursor_ok cfg now (ep_state (Endpointer_new cfg))"
    by (simp_all add: Endpointer_new_def chunk_count_def)
  obtain u where u: "utt_answers answers NoUtterance = Some u" "utt_of (ep_state ep) u" using ep_run_protocol [OF run new(1,2)] by blast
  have "utt_label u = ep_label (ep_state ep)" using u(2) by (cases "ep_state ep") auto
  then show ?thesis using u(1) ep_run_cursor [OF run] new(3,4) by auto
qed

text \<open>An onset of one chunk and a device release.\<close>

theorem endpointer_keeps_protocol_witness:
  "\<exists>answers ep. ep_run [CallPush 0x3F800000 512, CallRelease 540 None]
      (Endpointer_new (EndpointerConfig_default\<lparr>ec_onset_chunks := 1\<rparr>)) = (answers, ep) \<and>
    map snd answers = [None, Some (EvSoftEndpoint 0 540 CauseDeviceVadRelease)] \<and>
    utt_answers answers NoUtterance = Some NoUtterance \<and>
    list_all (\<lambda>a. span_ok (EndpointerConfig_default\<lparr>ec_onset_chunks := 1\<rparr>) 540 (snd a)) answers"
proof -
  let ?calls = "[CallPush 0x3F800000 512, CallRelease 540 None]"
  obtain answers ep where r: "ep_run ?calls (Endpointer_new (EndpointerConfig_default\<lparr>ec_onset_chunks := 1\<rparr>)) = (answers, ep)" by fastforce
  have "map snd (fst (ep_run ?calls (Endpointer_new (EndpointerConfig_default\<lparr>ec_onset_chunks := 1\<rparr>)))) = [None, Some (EvSoftEndpoint 0 540 CauseDeviceVadRelease)]"
    "ep_label (ep_state (snd (ep_run ?calls (Endpointer_new (EndpointerConfig_default\<lparr>ec_onset_chunks := 1\<rparr>))))) = StateIdle"
    by (simp_all add: Let_def ep_do_def drain_transitions_def ep_push_def push_idle_def on_device_release_def ep_record_def Endpointer_new_def
        EndpointerConfig_default_def u64_saturating_sub_def CHUNK_SAMPLES_def f32_ge_def f32_is_nan_def f32_order_def f32_magnitude_def)
  then have e: "map snd answers = [None, Some (EvSoftEndpoint 0 540 CauseDeviceVadRelease)]" "ep_label (ep_state ep) = StateIdle"
    using r by simp_all
  note P = endpointer_keeps_protocol [OF r, of 0]
  obtain u where u: "utt_answers answers NoUtterance = Some u" "utt_label u = StateIdle" using P e(2) by auto
  have "list_all2 (\<lambda>c a. span_ok (EndpointerConfig_default\<lparr>ec_onset_chunks := 1\<rparr>) (call_sample c) (snd a)) ?calls answers"
    using P by simp
  then have "list_all (\<lambda>a. span_ok (EndpointerConfig_default\<lparr>ec_onset_chunks := 1\<rparr>) 540 (snd a)) answers"
    using e(1) by (auto simp: list_all2_Cons1 span_ok_def)
  then show ?thesis using r e(1) u by (cases u) auto
qed

text \<open>
  C29. Control events are never lost: under every interleaving of any number of senders with the receiver and with its
  going away, items are received in the order they were sent, every reliable item that was
  accepted is received, still queued, or swept with the receiver; only the oldest segments are displaced, the lane of segments never exceeds
  its capacity, the queue never catches itself in a bookkeeping fault, its counters count, and the end is
  reported only when no control event is left.
\<close>

theorem control_events_are_never_lost:
  assumes new: "lane_queue_new cap = Some q" and run: "lane_step\<^sup>*\<^sup>* (lane_start q) s"
  defines "items \<equiv> lq_items (ls_queue s)"
  shows "subseq (ls_got s @ ls_swept s @ items) (ls_sent s) \<and> reliables (ls_got s @ ls_swept s @ items) = reliables (ls_sent s) \<and>
    suffix (sheddables (ls_swept s @ items)) (sheddables (ls_sent s)) \<and> length (sheddables items) \<le> cap \<and>
    lq_bookkeeping_faults (ls_queue s) = 0 \<and> lq_pushed (ls_queue s) = of_nat (length (ls_sent s)) \<and>
    (ls_uncounted s = 0 \<longrightarrow> lq_dropped_oldest (ls_queue s) =
       of_nat (length (ls_sent s) - length (ls_got s @ ls_swept s @ items))) \<and>
    (\<forall>q'. recv_poll (ls_queue s) = (RecvEnd, q') \<and> \<not> lq_closed (ls_queue s) \<longrightarrow> reliables (ls_got s) = reliables (ls_sent s))"
proof -
  note I = lane_run_inv [OF new run, unfolded lane_inv_def lane_out_def, folded items_def]
  have "length (ls_sent s) = length (ls_got s @ ls_swept s @ items) + length (ls_shed s)"
    using I by (metis size_mset size_union)
  moreover have "reliables (ls_got s) = reliables (ls_sent s)"
    if "recv_poll (ls_queue s) = (RecvEnd, q')" "\<not> lq_closed (ls_queue s)" for q'
  proof -
    have "items = []" using that(1) by (auto simp: recv_poll_def items_def split: list.splits)
    moreover have "ls_swept s = []" using I that(2) by blast
    ultimately show ?thesis using I by simp
  qed
  ultimately show ?thesis using I by auto
qed

text \<open>A segment and a control event in a queue of one.\<close>

theorem control_events_are_never_lost_witness:
  "\<exists>q s. lane_queue_new 1 = Some (q :: nat lane_queue) \<and> lane_step\<^sup>*\<^sup>* (lane_start q) s \<and>
     ls_sent s = [\<lparr>en_item = 7, en_sheddable = True\<rparr>, \<lparr>en_item = 8, en_sheddable = False\<rparr>] \<and>
     reliables (ls_got s @ ls_swept s @ lq_items (ls_queue s)) = [\<lparr>en_item = 8, en_sheddable = False\<rparr>]"
proof -
  obtain q :: "nat lane_queue" where q: "lane_queue_new 1 = Some q" by (simp add: lane_queue_new_def)
  have q0: "0 < lq_senders q" "\<not> lq_closed q" using q by (auto simp: lane_queue_new_def)
  obtain d1 q1 where p1: "push_locked 7 True q = (d1, q1)" by fastforce
  have d1: "d1 = None" "0 < lq_senders q1" "\<not> lq_closed q1" "lq_items q1 = [\<lparr>en_item = 7, en_sheddable = True\<rparr>]"
    using p1 q by (auto simp: lane_queue_new_def push_locked_def enqueue_def shed_overflow_def Let_def)
  obtain d2 q2 where p2: "push_locked 8 False q1 = (d2, q2)" by fastforce
  have d2: "d2 = None" using p2 d1 by (auto simp: push_locked_def enqueue_def Let_def)
  let ?s1 = "(lane_start q)\<lparr>ls_queue := q1, ls_sent := [\<lparr>en_item = 7, en_sheddable = True\<rparr>]\<rparr>"
  let ?s2 = "?s1\<lparr>ls_queue := q2, ls_sent := [\<lparr>en_item = 7, en_sheddable = True\<rparr>, \<lparr>en_item = 8, en_sheddable = False\<rparr>]\<rparr>"
  have "lane_step (lane_start q) ?s1" using lane_step.send [of "lane_start q" 7 True q1] p1 d1(1) q0 by (simp add: lane_start_def)
  moreover have "lane_step ?s1 ?s2" using lane_step.send [of ?s1 8 False q2] p2 d2 d1 by (simp add: lane_start_def)
  ultimately have run: "lane_step\<^sup>*\<^sup>* (lane_start q) ?s2" by (meson converse_rtranclp_into_rtranclp rtranclp.rtrancl_refl)
  from control_events_are_never_lost [OF q run] show ?thesis using q run by (intro exI [of _ q] exI [of _ ?s2]) simp
qed

section \<open>The telemetry thread\<close>

text \<open>
  C34. A release is never missed: whatever the chip, the clock and the channel do, at every instant of the telemetry thread's run
  an onset is offered only after the closed flag was cleared, a release sets the flag before its message is
  offered, and readings are offered only for an onset the streamer was sent; and after any number of ticks, once the gate has
  opened for the first time, the flag is clear exactly while a segment the streamer was told of is open, whether or not
  the message of the release was dropped.
\<close>

theorem release_is_never_missed:
  assumes new: "TelemetryCore_new threshold hangover_ms = Some c"
    and run: "run_telemetry_loop te after_tick sleep_ms n c e = (actions, c', e')"
  shows "\<exists>v. view_actions actions \<lparr>tv_flag = None, tv_open = False\<rparr> = Some v \<and> tv_open v = tc_segment_open c' \<and>
    (tc_segment_open c' \<longrightarrow> is_open (tc_vad c')) \<and> (tv_flag v = None \<longrightarrow> \<not> is_open (tc_vad c')) \<and>
    (tv_flag v \<noteq> None \<longrightarrow> tv_flag v = Some (\<not> tc_segment_open c'))"
proof -
  have "core_view c \<lparr>tv_flag = None, tv_open = False\<rparr>"
    using new by (auto simp: TelemetryCore_new_def core_view_def VadStateMachine_new_def is_open_def)
  from telemetry_loop_view [OF run this] show ?thesis by (auto simp: core_view_def)
qed

text \<open>A loud room, and a channel that takes nothing.\<close>

definition loud_room :: "unit telemetry_env" where
  "loud_room = \<lparr>te_read = \<lambda>_ e. (Some [0x40000000, 0, 0, 0], e), te_try_send = \<lambda>_ e. (SendFull, e), te_write_head = \<lambda>e. (7, e),
     te_now_us = \<lambda>e. (0, e), te_capture_quiesced = \<lambda>e. (False, e)\<rparr>"

theorem release_is_never_missed_witness:
  "\<exists>c c' actions v. TelemetryCore_new 0x3F800000 800 = Some c \<and>
     run_telemetry_loop loud_room (\<lambda>_ e. e) (\<lambda>_ e. e) 2 c () = (actions, c', ()) \<and>
     view_actions actions \<lparr>tv_flag = None, tv_open = False\<rparr> = Some v \<and> tv_open v = tc_segment_open c'"
proof -
  obtain c where c: "TelemetryCore_new 0x3F800000 800 = Some c"
    by (simp add: TelemetryCore_new_def vad_hangover_ticks_ms_def VAD_POLL_HZ_def)
  obtain actions c' where r: "run_telemetry_loop loud_room (\<lambda>_ e. e) (\<lambda>_ e. e) 2 c () = (actions, c', ())"
    by (metis prod_cases3 old.unit.exhaust)
  from release_is_never_missed [OF c r] show ?thesis using c r by blast
qed

end
